(* ===== verification/Prelude.thy ===== *)
theory Prelude
  imports Main "HOL-Library.Word"
begin

text \<open>
  The vocabulary the development shares. Machine integers are HOL words of the width the Rust
  code uses; a fallible function returns a sum, \<open>Inl\<close> the error and \<open>Inr\<close> the value; a
  function that also changes a state (\<open>&mut self\<close>, or the outside world of a command)
  is a \<open>('w, 'e, 'a) io\<close>: it takes the state and returns the result together with the state it
  leaves, on the error path too. \<open>subseg\<close> and \<open>put_at\<close> are Rust's \<open>xs[i..i+n]\<close> and
  \<open>copy_from_slice\<close> into \<open>xs[i..]\<close>.
\<close>

section \<open>Collections of rewrite rules\<close>

named_theorems result_simps \<open>inversion of sums built with bind\<close>
named_theorems io_simps \<open>unfolding of the state-and-error combinators\<close>
named_theorems subseg_simps \<open>reading a subseg of an updated buffer\<close>

section \<open>Machine integers\<close>

type_synonym u8 = "8 word"
type_synonym u32 = "32 word"
type_synonym u64 = "64 word"
type_synonym bytes = "u8 list"

definition u64_max :: nat where
  "u64_max = 2 ^ 64 - 1"

text \<open>Rust's \<open>checked_mul\<close> and \<open>saturating_mul\<close> on \<open>u64\<close>.\<close>

definition checked_mul :: "u64 \<Rightarrow> u64 \<Rightarrow> u64 option" where
  "checked_mul x y = (if unat x * unat y < 2 ^ 64 then Some (x * y) else None)"

definition saturating_mul :: "u64 \<Rightarrow> u64 \<Rightarrow> u64" where
  "saturating_mul x y = (if unat x * unat y < 2 ^ 64 then x * y else - 1)"

lemma unat_mult_u64: "unat x * unat y < 2 ^ 64 \<Longrightarrow> unat (x * y) = unat x * unat y"
  for x y :: u64
  by (simp add: unat_word_ariths)

lemma checked_mul_Some: "checked_mul x y = Some z \<Longrightarrow> unat z = unat x * unat y"
  by (auto simp: checked_mul_def unat_mult_u64 split: if_splits)

lemma checked_mul_None: "checked_mul x y = None \<longleftrightarrow> 2 ^ 64 \<le> unat x * unat y"
  by (auto simp: checked_mul_def)

lemma unat_saturating_mul: "unat (saturating_mul x y) = min (unat x * unat y) u64_max"
proof (cases "unat x * unat y < 2 ^ 64")
  case True
  then show ?thesis by (simp add: saturating_mul_def unat_mult_u64 u64_max_def)
next
  case False
  moreover have "unat (- 1 :: u64) = u64_max" by (simp add: u64_max_def unsigned_minus_1_eq_mask mask_eq_exp_minus_1)
  ultimately show ?thesis by (simp add: saturating_mul_def u64_max_def)
qed

lemma unat_u64_le: "unat (x :: u64) \<le> u64_max"
  using unsigned_less [of x, where 'a = nat] by (simp add: u64_max_def)

lemma unat_pos: "w \<noteq> 0 \<Longrightarrow> 0 < unat w" for w :: "'a::len word"
  by (metis neq0_conv unsigned_eq_0_iff)

lemma unat_of_nat_u64: "n < 2 ^ 64 \<Longrightarrow> unat (of_nat n :: u64) = n"
  by (simp add: unat_of_nat)

lemma unat_of_nat_u32: "n < 2 ^ 32 \<Longrightarrow> unat (of_nat n :: u32) = n"
  by (simp add: unat_of_nat)

section \<open>Results\<close>

fun bind_result :: "'e + 'a \<Rightarrow> ('a \<Rightarrow> 'e + 'b) \<Rightarrow> 'e + 'b" where
  "bind_result (Inl e) f = Inl e"
| "bind_result (Inr x) f = f x"

lemma bind_result_Inr [result_simps]:
  "bind_result r f = Inr y \<longleftrightarrow> (\<exists>x. r = Inr x \<and> f x = Inr y)"
  by (cases r) auto

lemma bind_result_Inl [result_simps]:
  "bind_result r f = Inl e \<longleftrightarrow> r = Inl e \<or> (\<exists>x. r = Inr x \<and> f x = Inl e)"
  by (cases r) auto

text \<open>Rust's \<open>ok_or\<close>.\<close>

definition ok_or :: "'a option \<Rightarrow> 'e \<Rightarrow> 'e + 'a" where
  "ok_or x e = (case x of None \<Rightarrow> Inl e | Some v \<Rightarrow> Inr v)"

lemma ok_or_simps [simp]: "ok_or None e = Inl e" "ok_or (Some v) e = Inr v"
  by (simp_all add: ok_or_def)

lemma ok_or_Inr [result_simps]: "ok_or x e = Inr v \<longleftrightarrow> x = Some v"
  by (cases x) auto

lemma map_sum_Inr [result_simps]: "map_sum f g r = Inr y \<longleftrightarrow> (\<exists>x. r = Inr x \<and> y = g x)"
  by (cases r) auto

lemma map_sum_Inl [result_simps]: "map_sum f g r = Inl y \<longleftrightarrow> (\<exists>x. r = Inl x \<and> y = f x)"
  by (cases r) auto

text \<open>Rust's \<open>collect\<close> of an iterator of results: the first error stops it.\<close>

fun map_result :: "('a \<Rightarrow> 'e + 'b) \<Rightarrow> 'a list \<Rightarrow> 'e + 'b list" where
  "map_result f [] = Inr []"
| "map_result f (x # xs) =
     (case f x of Inl e \<Rightarrow> Inl e
      | Inr y \<Rightarrow> (case map_result f xs of Inl e \<Rightarrow> Inl e | Inr ys \<Rightarrow> Inr (y # ys)))"

lemma map_result_Inr [result_simps]:
  "map_result f xs = Inr ys \<longleftrightarrow> list_all2 (\<lambda>x y. f x = Inr y) xs ys"
proof (induction xs arbitrary: ys)
  case Nil
  then show ?case by auto
next
  case (Cons x xs)
  show ?case
  proof (cases "f x")
    case (Inl e)
    then show ?thesis by (auto simp: list_all2_Cons1)
  next
    case (Inr y)
    with Cons.IH show ?thesis by (cases "map_result f xs") (auto simp: list_all2_Cons1)
  qed
qed

section \<open>State and error\<close>

type_synonym ('w, 'e, 'a) io = "'w \<Rightarrow> ('e + 'a) \<times> 'w"

definition ret :: "'a \<Rightarrow> ('w, 'e, 'a) io" where
  "ret x w = (Inr x, w)"

definition throw :: "'e \<Rightarrow> ('w, 'e, 'a) io" where
  "throw e w = (Inl e, w)"

definition bind_io :: "('w, 'e, 'a) io \<Rightarrow> ('a \<Rightarrow> ('w, 'e, 'b) io) \<Rightarrow> ('w, 'e, 'b) io" where
  "bind_io m f w = (case m w of (Inl e, w') \<Rightarrow> (Inl e, w') | (Inr x, w') \<Rightarrow> f x w')"

text \<open>\<open>match m { Ok(v) => .., Err(e) => .. }\<close>: run and look at the result.\<close>

definition try_io :: "('w, 'e, 'a) io \<Rightarrow> ('e + 'a \<Rightarrow> ('w, 'f, 'b) io) \<Rightarrow> ('w, 'f, 'b) io" where
  "try_io m f w = (case m w of (r, w') \<Rightarrow> f r w')"

definition lift_result :: "'e + 'a \<Rightarrow> ('w, 'e, 'a) io" where
  "lift_result r w = (r, w)"

fun for_each :: "('a \<Rightarrow> ('w, 'e, unit) io) \<Rightarrow> 'a list \<Rightarrow> ('w, 'e, unit) io" where
  "for_each f [] = ret ()"
| "for_each f (x # xs) = bind_io (f x) (\<lambda>_. for_each f xs)"

text \<open>The results of a list of calls made one after another; the first error stops them.\<close>

fun map_io :: "('a \<Rightarrow> ('w, 'e, 'b) io) \<Rightarrow> 'a list \<Rightarrow> ('w, 'e, 'b list) io" where
  "map_io f [] = ret []"
| "map_io f (x # xs) = bind_io (f x) (\<lambda>y. bind_io (map_io f xs) (\<lambda>ys. ret (y # ys)))"

text \<open>\<open>map_err\<close> on a call.\<close>

definition err_io :: "('e \<Rightarrow> 'f) \<Rightarrow> ('w, 'e, 'a) io \<Rightarrow> ('w, 'f, 'a) io" where
  "err_io k m w = (case m w of (r, w') \<Rightarrow> (map_sum k id r, w'))"

lemmas io_defs [io_simps] = ret_def throw_def bind_io_def try_io_def lift_result_def

lemma bind_io_Inr:
  "bind_io m f w = (Inr y, w') \<longleftrightarrow> (\<exists>x v. m w = (Inr x, v) \<and> f x v = (Inr y, w'))"
  by (auto simp: bind_io_def split: prod.splits sum.splits)

lemma bind_io_Inl:
  "bind_io m f w = (Inl e, w') \<longleftrightarrow>
     m w = (Inl e, w') \<or> (\<exists>x v. m w = (Inr x, v) \<and> f x v = (Inl e, w'))"
  by (auto simp: bind_io_def split: prod.splits sum.splits)

lemma try_io_iff: "try_io m f w = (r, w') \<longleftrightarrow> (\<exists>r0 v. m w = (r0, v) \<and> f r0 v = (r, w'))"
  by (auto simp: try_io_def split: prod.splits)

lemma ret_eq [simp]: "ret x w = (r, w') \<longleftrightarrow> r = Inr x \<and> w' = w"
  by (auto simp: ret_def)

lemma throw_eq [simp]: "throw e w = (r, w') \<longleftrightarrow> r = Inl e \<and> w' = w"
  by (auto simp: throw_def)

lemma lift_result_eq [simp]: "lift_result r w = (r', w') \<longleftrightarrow> r' = r \<and> w' = w"
  by (auto simp: lift_result_def)

text \<open>
  A property of the state that every step of a program keeps is kept by the program, on the
  error path as well. \<open>keeps I m\<close> is used for "a failure at any point leaves the bucket sound".
\<close>

definition keeps :: "('w \<Rightarrow> bool) \<Rightarrow> ('w, 'e, 'a) io \<Rightarrow> bool" where
  "keeps I m \<longleftrightarrow> (\<forall>w. I w \<longrightarrow> I (snd (m w)))"

lemma keepsD: "keeps I m \<Longrightarrow> I w \<Longrightarrow> m w = (r, w') \<Longrightarrow> I w'"
  unfolding keeps_def by (metis snd_conv)

lemma keeps_ret [simp, intro]: "keeps I (ret x)"
  by (simp add: keeps_def ret_def)

lemma keeps_throw [simp, intro]: "keeps I (throw e)"
  by (simp add: keeps_def throw_def)

lemma keeps_lift_result [simp, intro]: "keeps I (lift_result r)"
  by (simp add: keeps_def lift_result_def)

lemma keeps_bind [intro]: "keeps I m \<Longrightarrow> (\<And>x. keeps I (f x)) \<Longrightarrow> keeps I (bind_io m f)"
  unfolding keeps_def bind_io_def by (auto split: prod.splits sum.splits)

lemma keeps_try [intro]: "keeps I m \<Longrightarrow> (\<And>r. keeps I (f r)) \<Longrightarrow> keeps I (try_io m f)"
  unfolding keeps_def try_io_def by (auto split: prod.splits)

lemma keeps_for_each [intro]: "(\<And>x. x \<in> set xs \<Longrightarrow> keeps I (f x)) \<Longrightarrow> keeps I (for_each f xs)"
  by (induction xs) auto

lemma keeps_map_io [intro]: "(\<And>x. x \<in> set xs \<Longrightarrow> keeps I (f x)) \<Longrightarrow> keeps I (map_io f xs)"
  by (induction xs) auto

lemma map_io_frame_any:
  assumes "map_io f xs w = (r, w')" "\<And>x v r v'. x \<in> set xs \<Longrightarrow> f x v = (r, v') \<Longrightarrow> g v' = g v"
  shows "g w' = g w"
proof -
  have "keeps (\<lambda>v. g v = g w) (map_io f xs)"
  proof (rule keeps_map_io)
    fix x assume x: "x \<in> set xs"
    have "g (snd (f x v)) = g v" for v
      using assms(2) [OF x, of v "fst (f x v)" "snd (f x v)"] by simp
    then show "keeps (\<lambda>v. g v = g w) (f x)" by (simp add: keeps_def)
  qed
  from keepsD [OF this refl assms(1)] show ?thesis .
qed

lemma keeps_err [intro]: "keeps I m \<Longrightarrow> keeps I (err_io k m)"
  unfolding keeps_def err_io_def by (auto split: prod.splits)

lemma err_io_Inr: "err_io k m w = (Inr x, w') \<longleftrightarrow> m w = (Inr x, w')"
  by (cases "m w"; cases "fst (m w)") (auto simp: err_io_def)

lemma err_io_Inl: "err_io k m w = (Inl e, w') \<longleftrightarrow> (\<exists>e0. m w = (Inl e0, w') \<and> e = k e0)"
  by (cases "m w"; cases "fst (m w)") (auto simp: err_io_def)

text \<open>
  An invariant of the calls holds before each of them; in particular, when every call keeps the
  part \<open>g\<close> of the state, the results are those of calls on states with the initial \<open>g\<close>.
\<close>

lemma map_io_inv:
  assumes "map_io f xs w = (Inr ys, w')" "I w"
    and "\<And>x v r v'. x \<in> set xs \<Longrightarrow> I v \<Longrightarrow> f x v = (r, v') \<Longrightarrow> I v'"
  shows "I w' \<and> list_all2 (\<lambda>x y. \<exists>v v'. I v \<and> f x v = (Inr y, v')) xs ys"
  using assms
proof (induction xs arbitrary: w ys)
  case (Cons x xs)
  from Cons.prems(1) obtain y v ys' where y: "f x w = (Inr y, v)" "map_io f xs v = (Inr ys', w')"
    "ys = y # ys'" by (auto simp: bind_io_Inr)
  have "I v" using Cons.prems(2,3) y(1) by auto
  with y(2) Cons.prems(3) have "I w' \<and> list_all2 (\<lambda>x y. \<exists>v v'. I v \<and> f x v = (Inr y, v')) xs ys'"
    by (intro Cons.IH) auto
  with y Cons.prems(2) show ?case by auto
qed simp

lemma map_io_frame:
  assumes "map_io f xs w = (Inr ys, w')"
    and "\<And>x v r v'. x \<in> set xs \<Longrightarrow> f x v = (r, v') \<Longrightarrow> g v' = g v"
  shows "g w' = g w \<and> list_all2 (\<lambda>x y. \<exists>v v'. g v = g w \<and> f x v = (Inr y, v')) xs ys"
proof (rule map_io_inv [where I = "\<lambda>v. g v = g w", OF assms(1) refl])
  fix x v r v'
  assume "x \<in> set xs" "g v = g w" "f x v = (r, v')"
  then show "g v' = g w" using assms(2) [of x v r v'] by simp
qed

section \<open>Slices\<close>

definition subseg :: "nat \<Rightarrow> nat \<Rightarrow> 'a list \<Rightarrow> 'a list" where
  "subseg i n xs = take n (drop i xs)"

definition put_at :: "nat \<Rightarrow> 'a list \<Rightarrow> 'a list \<Rightarrow> 'a list" where
  "put_at i ys xs = take i xs @ ys @ drop (i + length ys) xs"

lemma length_subseg [simp]: "length (subseg i n xs) = min n (length xs - i)"
  by (simp add: subseg_def)

lemma length_put_at [simp]: "i + length ys \<le> length xs \<Longrightarrow> length (put_at i ys xs) = length xs"
  by (simp add: put_at_def)

lemma subseg_put_at_same [subseg_simps]:
  "i \<le> length xs \<Longrightarrow> n = length ys \<Longrightarrow> subseg i n (put_at i ys xs) = ys"
  by (simp add: subseg_def put_at_def)

lemma subseg_put_at_before [subseg_simps]:
  "i + n \<le> j \<Longrightarrow> j \<le> length xs \<Longrightarrow> subseg i n (put_at j ys xs) = subseg i n xs"
  by (simp add: subseg_def put_at_def take_drop)

lemma subseg_put_at_after [subseg_simps]:
  assumes "j + length ys \<le> i" "j \<le> length xs"
  shows "subseg i n (put_at j ys xs) = subseg i n xs"
  using assms by (simp add: subseg_def put_at_def drop_Cons' min_absorb2)

lemma subseg_append_left: "i + n \<le> length xs \<Longrightarrow> subseg i n (xs @ ys) = subseg i n xs"
  by (simp add: subseg_def)

lemma subseg_replicate: "i + n \<le> k \<Longrightarrow> subseg i n (replicate k x) = replicate n x"
  by (simp add: subseg_def min_def)

lemma subseg_0: "subseg 0 n xs = take n xs"
  by (simp add: subseg_def)

lemma subseg_subseg:
  assumes "i + n \<le> m"
  shows "subseg i n (subseg k m xs) = subseg (k + i) n xs"
proof -
  have "min n (m - i) = n" using assms by simp
  then show ?thesis unfolding subseg_def drop_take take_take drop_drop by (simp only: add.commute)
qed

section \<open>Lists\<close>

lemma filter_eq_single:
  assumes "filter P xs = [x]"
  shows "x \<in> set xs" "P x" "\<And>y. y \<in> set xs \<Longrightarrow> P y \<Longrightarrow> y = x"
proof -
  have "set (filter P xs) = {x}" using assms by simp
  then show "x \<in> set xs" "P x" "\<And>y. y \<in> set xs \<Longrightarrow> P y \<Longrightarrow> y = x" by auto
qed

lemma list_all2_in1: "list_all2 R xs ys \<Longrightarrow> x \<in> set xs \<Longrightarrow> \<exists>y \<in> set ys. R x y"
  by (induction rule: list_all2_induct) auto

lemma list_all2_in2: "list_all2 R xs ys \<Longrightarrow> y \<in> set ys \<Longrightarrow> \<exists>x \<in> set xs. R x y"
  by (induction rule: list_all2_induct) auto

lemma find_Some_iff_ex: "(\<exists>y. List.find P xs = Some y) \<longleftrightarrow> (\<exists>x \<in> set xs. P x)"
  by (induction xs) auto

lemma find_SomeD: "List.find P xs = Some x \<Longrightarrow> x \<in> set xs \<and> P x"
  by (induction xs) (auto split: if_splits)

lemma find_NoneD: "List.find P xs = None \<Longrightarrow> x \<in> set xs \<Longrightarrow> \<not> P x"
  by (induction xs) (auto split: if_splits)

end
