(* ===== verification/Bytes.thy ===== *)
theory Bytes
  imports Prelude
begin

text \<open>
  The integer readers and writers of the Rust standard library the program uses:
  \<open>u32::from_le_bytes\<close>, \<open>u64::from_be_bytes\<close>, \<open>to_le_bytes\<close> and their
  big-endian forms, on lists of bytes. \<open>le_nat\<close> is the value a little-endian list of bytes
  denotes; everything else is read off it, so that the round-trip laws are proved once.
\<close>

fun le_nat :: "bytes \<Rightarrow> nat" where
  "le_nat [] = 0"
| "le_nat (b # bs) = unat b + 256 * le_nat bs"

fun le_bytes :: "nat \<Rightarrow> nat \<Rightarrow> bytes" where
  "le_bytes 0 n = []"
| "le_bytes (Suc k) n = of_nat (n mod 256) # le_bytes k (n div 256)"

definition u32_from_le_bytes :: "bytes \<Rightarrow> u32" where
  "u32_from_le_bytes bs = of_nat (le_nat bs)"

definition u32_from_be_bytes :: "bytes \<Rightarrow> u32" where
  "u32_from_be_bytes bs = of_nat (le_nat (rev bs))"

definition u64_from_le_bytes :: "bytes \<Rightarrow> u64" where
  "u64_from_le_bytes bs = of_nat (le_nat bs)"

definition u64_from_be_bytes :: "bytes \<Rightarrow> u64" where
  "u64_from_be_bytes bs = of_nat (le_nat (rev bs))"

definition u32_to_le_bytes :: "u32 \<Rightarrow> bytes" where
  "u32_to_le_bytes w = le_bytes 4 (unat w)"

definition u32_to_be_bytes :: "u32 \<Rightarrow> bytes" where
  "u32_to_be_bytes w = rev (le_bytes 4 (unat w))"

definition u64_to_le_bytes :: "u64 \<Rightarrow> bytes" where
  "u64_to_le_bytes w = le_bytes 8 (unat w)"

section \<open>Round trips on the value\<close>

lemma unat_u8_less: "unat (b :: u8) < 256"
  using unsigned_less [of b, where 'a = nat] by simp

lemma length_le_bytes [simp]: "length (le_bytes k n) = k"
  by (induction k arbitrary: n) auto

lemma le_nat_less: "le_nat bs < 256 ^ length bs"
proof (induction bs)
  case Nil
  then show ?case by simp
next
  case (Cons b bs)
  then have "le_nat bs + 1 \<le> 256 ^ length bs" by simp
  then have "256 * le_nat bs + 256 \<le> 256 * 256 ^ length bs" by linarith
  with unat_u8_less [of b] show ?case by simp
qed

lemma le_nat_le_bytes: "le_nat (le_bytes k n) = n mod 256 ^ k"
proof (induction k arbitrary: n)
  case 0
  then show ?case by simp
next
  case (Suc k)
  have "unat (of_nat (n mod 256) :: u8) = n mod 256" by (simp add: unat_of_nat)
  then show ?case by (simp add: Suc.IH mod_mult2_eq)
qed

lemma le_bytes_le_nat: "length bs = k \<Longrightarrow> le_bytes k (le_nat bs) = bs"
proof (induction bs arbitrary: k)
  case Nil
  then show ?case by simp
next
  case (Cons b bs)
  have "(unat b + 256 * le_nat bs) mod 256 = unat b"
    "(unat b + 256 * le_nat bs) div 256 = le_nat bs"
    using unat_u8_less [of b] by simp_all
  moreover obtain j where "k = Suc j" "length bs = j" using Cons.prems by auto
  ultimately show ?case using Cons.IH by simp
qed

lemma le_nat_inject: "length xs = length ys \<Longrightarrow> le_nat xs = le_nat ys \<Longrightarrow> xs = ys"
  by (metis le_bytes_le_nat)

lemma le_nat_append: "le_nat (xs @ ys) = le_nat xs + 256 ^ length xs * le_nat ys"
  by (induction xs) (auto simp: algebra_simps)

section \<open>Round trips on words\<close>

lemma u32_le_round_trip [simp]: "u32_from_le_bytes (u32_to_le_bytes w) = w"
proof -
  have "unat w < 256 ^ 4" using unsigned_less [of w, where 'a = nat] by simp
  then show ?thesis by (simp add: u32_from_le_bytes_def u32_to_le_bytes_def le_nat_le_bytes)
qed

lemma u64_le_round_trip [simp]: "u64_from_le_bytes (u64_to_le_bytes w) = w"
proof -
  have "unat w < 256 ^ 8" using unsigned_less [of w, where 'a = nat] by simp
  then show ?thesis by (simp add: u64_from_le_bytes_def u64_to_le_bytes_def le_nat_le_bytes)
qed

lemma u64_to_le_from_le: "length bs = 8 \<Longrightarrow> u64_to_le_bytes (u64_from_le_bytes bs) = bs"
  using le_nat_less [of bs]
  by (simp add: u64_to_le_bytes_def u64_from_le_bytes_def unat_of_nat le_bytes_le_nat)

lemma u32_from_le_inject:
  assumes "length xs = 4" "length ys = 4" "u32_from_le_bytes xs = u32_from_le_bytes ys"
  shows "xs = ys"
proof -
  have "le_nat xs < 2 ^ 32" "le_nat ys < 2 ^ 32"
    using le_nat_less [of xs] le_nat_less [of ys] assms(1,2) by simp_all
  with assms(3) have "le_nat xs = le_nat ys"
    unfolding u32_from_le_bytes_def by (metis unat_of_nat_u32)
  with assms(1,2) show ?thesis by (simp add: le_nat_inject)
qed

lemma u32_from_be_inject:
  assumes "length xs = 4" "length ys = 4" "u32_from_be_bytes xs = u32_from_be_bytes ys"
  shows "xs = ys"
  using u32_from_le_inject [of "rev xs" "rev ys"] assms
  by (simp add: u32_from_be_bytes_def u32_from_le_bytes_def)

lemma length_u32_to_le_bytes [simp]: "length (u32_to_le_bytes w) = 4"
  by (simp add: u32_to_le_bytes_def)

lemma length_u32_to_be_bytes [simp]: "length (u32_to_be_bytes w) = 4"
  by (simp add: u32_to_be_bytes_def)

lemma length_u64_to_le_bytes [simp]: "length (u64_to_le_bytes w) = 8"
  by (simp add: u64_to_le_bytes_def)

lemma le_nat_replicate_0 [simp]: "le_nat (replicate n 0) = 0"
  by (induction n) auto

lemma u64_from_le_zeros [simp]: "u64_from_le_bytes (replicate n 0) = 0"
  by (simp add: u64_from_le_bytes_def)

lemma u32_from_le_zeros [simp]: "u32_from_le_bytes (replicate n 0) = 0"
  by (simp add: u32_from_le_bytes_def)

end
