(* ===== verification/Fletcher.thy ===== *)
theory Fletcher
  imports Bytes
begin

text \<open>
  \<open>src/fletcher.rs\<close>: the incremental fletcher4 checksum ZFS computes over a send stream.
  The four sums are \<open>u64\<close> and wrap; the input is read as 32-bit words in the stream's
  byte order. Shown here: the checksum of a concatenation is computed piecewise at word
  boundaries, the on-stream form round-trips, the sums have a closed form, and a change of
  one 32-bit word always changes the checksum.
\<close>

section \<open>The checksum\<close>

record fletcher4 =
  f4_a :: u64
  f4_b :: u64
  f4_c :: u64
  f4_d :: u64

definition fletcher_zero :: fletcher4 where
  "fletcher_zero = \<lparr>f4_a = 0, f4_b = 0, f4_c = 0, f4_d = 0\<rparr>"

definition fletcher_is_zero :: "fletcher4 \<Rightarrow> bool" where
  "fletcher_is_zero f \<longleftrightarrow> f = fletcher_zero"

text \<open>\<open>data.as_chunks::<4>().0\<close>: the whole words of the input; a ragged tail is dropped.\<close>

definition read_word :: "bool \<Rightarrow> bytes \<Rightarrow> u32" where
  "read_word swp w = (if swp then u32_from_be_bytes w else u32_from_le_bytes w)"

fun words_of :: "bool \<Rightarrow> bytes \<Rightarrow> u32 list" where
  "words_of swp (b0 # b1 # b2 # b3 # bs) = read_word swp [b0, b1, b2, b3] # words_of swp bs"
| "words_of swp bs = []"

definition fletcher_step :: "u32 \<Rightarrow> fletcher4 \<Rightarrow> fletcher4" where
  "fletcher_step w f =
     (let a = f4_a f + ucast w;
          b = f4_b f + a;
          c = f4_c f + b;
          d = f4_d f + c
      in \<lparr>f4_a = a, f4_b = b, f4_c = c, f4_d = d\<rparr>)"

definition fletcher_update :: "fletcher4 \<Rightarrow> bytes \<Rightarrow> bool \<Rightarrow> fletcher4" where
  "fletcher_update f data swp = fold fletcher_step (words_of swp data) f"

definition read_u64 :: "bool \<Rightarrow> bytes \<Rightarrow> u64" where
  "read_u64 swp arr = (if swp then u64_from_be_bytes arr else u64_from_le_bytes arr)"

definition from_stream_bytes :: "bytes \<Rightarrow> bool \<Rightarrow> fletcher4" where
  "from_stream_bytes b swp =
     (let rd = (\<lambda>i. read_u64 swp (subseg (i * 8) 8 b))
      in \<lparr>f4_a = rd 0, f4_b = rd 1, f4_c = rd 2, f4_d = rd 3\<rparr>)"

definition fletcher_from_bytes :: "bytes \<Rightarrow> fletcher4" where
  "fletcher_from_bytes b =
     (let w = (\<lambda>i. u64_from_le_bytes (subseg (i * 8) 8 b))
      in \<lparr>f4_a = w 0, f4_b = w 1, f4_c = w 2, f4_d = w 3\<rparr>)"

definition fletcher_to_bytes :: "fletcher4 \<Rightarrow> bytes" where
  "fletcher_to_bytes f =
     (let out0 = replicate 32 0;
          out1 = put_at 0 (u64_to_le_bytes (f4_a f)) out0;
          out2 = put_at 8 (u64_to_le_bytes (f4_b f)) out1;
          out3 = put_at 16 (u64_to_le_bytes (f4_c f)) out2
      in put_at 24 (u64_to_le_bytes (f4_d f)) out3)"

section \<open>Words of a byte list\<close>

lemma four_dvd_Suc:
  "4 dvd Suc (Suc (Suc (Suc n))) \<longleftrightarrow> 4 dvd n"
  "\<not> 4 dvd Suc (Suc (Suc 0))" "\<not> 4 dvd Suc (Suc 0)" "\<not> 4 dvd Suc 0"
  by presburger+

lemma words_of_append:
  "4 dvd length xs \<Longrightarrow> words_of swp (xs @ ys) = words_of swp xs @ words_of swp ys"
  by (induction swp xs rule: words_of.induct) (auto simp: four_dvd_Suc)

lemma length_words_of: "length (words_of swp bs) = length bs div 4"
  by (induction swp bs rule: words_of.induct) auto

lemma words_of_single: "length w = 4 \<Longrightarrow> words_of swp w = [read_word swp w]"
  by (cases "(swp, w)" rule: words_of.cases) auto

lemma read_word_inject:
  "length v = 4 \<Longrightarrow> length w = 4 \<Longrightarrow> read_word swp v = read_word swp w \<Longrightarrow> v = w"
  by (auto simp: read_word_def split: if_splits dest: u32_from_le_inject u32_from_be_inject)

section \<open>Incremental evaluation\<close>

lemma fletcher_update_append:
  "4 dvd length xs \<Longrightarrow>
   fletcher_update f (xs @ ys) swp = fletcher_update (fletcher_update f xs swp) ys swp"
  by (simp add: fletcher_update_def words_of_append)

lemma fletcher_update_Nil [simp]: "fletcher_update f [] swp = f"
  by (simp add: fletcher_update_def)

lemma fletcher_update_single:
  "length w = 4 \<Longrightarrow> fletcher_update f w swp = fletcher_step (read_word swp w) f"
  by (simp add: fletcher_update_def words_of_single)

lemma fletcher_update_concat:
  "\<forall>p \<in> set parts. 4 dvd length p \<Longrightarrow>
   fletcher_update f (concat parts) swp = fold (\<lambda>p f. fletcher_update f p swp) parts f"
  by (induction parts arbitrary: f) (auto simp: fletcher_update_append)

section \<open>The on-stream form\<close>

lemma length_fletcher_to_bytes [simp]: "length (fletcher_to_bytes f) = 32"
  by (simp add: fletcher_to_bytes_def Let_def)

lemma subseg_fletcher_to_bytes:
  "subseg 0 8 (fletcher_to_bytes f) = u64_to_le_bytes (f4_a f)"
  "subseg 8 8 (fletcher_to_bytes f) = u64_to_le_bytes (f4_b f)"
  "subseg 16 8 (fletcher_to_bytes f) = u64_to_le_bytes (f4_c f)"
  "subseg 24 8 (fletcher_to_bytes f) = u64_to_le_bytes (f4_d f)"
  by (simp_all add: fletcher_to_bytes_def Let_def subseg_simps)

lemma from_stream_bytes_to_bytes [simp]: "from_stream_bytes (fletcher_to_bytes f) False = f"
  by (simp add: from_stream_bytes_def Let_def read_u64_def subseg_fletcher_to_bytes)

lemma from_bytes_to_bytes: "fletcher_from_bytes (fletcher_to_bytes f) = f"
  by (simp add: fletcher_from_bytes_def Let_def subseg_fletcher_to_bytes)

section \<open>Closed form\<close>

text \<open>
  The sums of the words, each weighted by a function of its distance from the end. With
  weights 1, \<open>m\<close>, \<open>m (m + 1) / 2\<close> and \<open>m (m + 1) (m + 2) / 6\<close> these are the four fletcher4 sums.
\<close>

fun weighted :: "(nat \<Rightarrow> nat) \<Rightarrow> u32 list \<Rightarrow> u64" where
  "weighted g [] = 0"
| "weighted g (w # ws) = of_nat (g (Suc (length ws))) * ucast w + weighted g ws"

definition fletcher_closed :: "fletcher4 \<Rightarrow> u32 list \<Rightarrow> fletcher4" where
  "fletcher_closed f ws =
     (let n = length ws;
          t1 = of_nat n; t2 = of_nat (Suc n choose 2); t3 = of_nat (Suc (Suc n) choose 3)
      in \<lparr>f4_a = f4_a f + weighted (\<lambda>m. 1) ws,
          f4_b = f4_b f + t1 * f4_a f + weighted (\<lambda>m. m) ws,
          f4_c = f4_c f + t1 * f4_b f + t2 * f4_a f + weighted (\<lambda>m. Suc m choose 2) ws,
          f4_d = f4_d f + t1 * f4_c f + t2 * f4_b f + t3 * f4_a f
                 + weighted (\<lambda>m. Suc (Suc m) choose 3) ws\<rparr>)"

lemma choose_step:
  "Suc (Suc n) choose 2 = Suc n + (Suc n choose 2)"
  "Suc (Suc (Suc n)) choose 3 = (Suc (Suc n) choose 2) + (Suc (Suc n) choose 3)"
  by (simp_all add: numeral_2_eq_2 numeral_3_eq_3)

lemma fold_fletcher_step_closed: "fold fletcher_step ws f = fletcher_closed f ws"
proof (induction ws arbitrary: f)
  case Nil
  then show ?case
    by (simp add: fletcher_closed_def Let_def numeral_2_eq_2 numeral_3_eq_3)
next
  case (Cons w ws)
  show ?case
    unfolding fold_Cons comp_def Cons.IH
    by (simp add: fletcher_closed_def fletcher_step_def Let_def choose_step algebra_simps
        del: binomial_Suc_Suc)
qed

section \<open>Detection of a changed word\<close>

lemma ucast_u32_inject: "(ucast v :: u64) = ucast w \<Longrightarrow> v = w" for v w :: u32
proof -
  assume "(ucast v :: u64) = ucast w"
  then have "unat (ucast v :: u64) = unat (ucast w :: u64)" by simp
  moreover have "unat u < 2 ^ 64" for u :: u32
    using unsigned_less [of u, where 'a = nat] by simp
  ultimately show "v = w" by (simp add: unsigned_ucast_eq take_bit_nat_eq_self word_unat_eq_iff)
qed

lemma fold_fletcher_a: "f4_a (fold fletcher_step ws f) = f4_a f + weighted (\<lambda>m. 1) ws"
  by (simp add: fold_fletcher_step_closed fletcher_closed_def Let_def)

lemma weighted_one_append: "weighted (\<lambda>m. 1) (us @ vs) = weighted (\<lambda>m. 1) us + weighted (\<lambda>m. 1) vs"
  by (induction us) (auto simp: add.assoc)

lemma fletcher_update_word_change:
  assumes "4 dvd length xs" "length v = 4" "length w = 4" "v \<noteq> w"
  shows "fletcher_update f (xs @ v @ ys) swp \<noteq> fletcher_update f (xs @ w @ ys) swp"
proof
  assume eq: "fletcher_update f (xs @ v @ ys) swp = fletcher_update f (xs @ w @ ys) swp"
  have words: "words_of swp (xs @ u @ ys) = words_of swp xs @ [read_word swp u] @ words_of swp ys"
    if "length u = 4" for u
    using that assms(1) by (simp add: words_of_append words_of_single)
  have "f4_a (fletcher_update f (xs @ v @ ys) swp) = f4_a (fletcher_update f (xs @ w @ ys) swp)"
    by (simp only: eq)
  then have "(ucast (read_word swp v) :: u64) = ucast (read_word swp w)"
    unfolding fletcher_update_def words [OF assms(2)] words [OF assms(3)] fold_fletcher_a
      weighted_one_append by simp
  then show False
    using ucast_u32_inject read_word_inject [OF assms(2,3)] assms(4) by blast
qed

end
