(* ===== verification/Rust_Str.thy ===== *)
theory Rust_Str
  imports Bytes
begin

text \<open>
  The operations of Rust's \<open>str\<close> and of its integer parsing and formatting that the
  program uses. A Rust string is a sequence of UTF-8 bytes; here it is a HOL \<open>string\<close> whose
  characters are those bytes, so that \<open>len\<close> is \<open>length\<close> and an ASCII literal is itself.
\<close>

section \<open>Prefixes, suffixes, splitting\<close>

fun strip_prefix :: "string \<Rightarrow> string \<Rightarrow> string option" where
  "strip_prefix [] s = Some s"
| "strip_prefix (p # ps) [] = None"
| "strip_prefix (p # ps) (c # s) = (if p = c then strip_prefix ps s else None)"

definition starts_with :: "string \<Rightarrow> string \<Rightarrow> bool" where
  "starts_with p s \<longleftrightarrow> strip_prefix p s \<noteq> None"

definition strip_suffix :: "string \<Rightarrow> string \<Rightarrow> string option" where
  "strip_suffix p s = map_option rev (strip_prefix (rev p) (rev s))"

text \<open>\<open>s.contains(p)\<close> and \<open>s.find(p)\<close> for a string pattern.\<close>

fun find_str :: "string \<Rightarrow> string \<Rightarrow> nat option" where
  "find_str p [] = (if p = [] then Some 0 else None)"
| "find_str p (c # s) = (if starts_with p (c # s) then Some 0 else map_option Suc (find_str p s))"

definition contains_str :: "string \<Rightarrow> string \<Rightarrow> bool" where
  "contains_str p s \<longleftrightarrow> find_str p s \<noteq> None"

text \<open>\<open>s.split(c)\<close>: one more piece than there are separators.\<close>

fun split_on :: "char \<Rightarrow> string \<Rightarrow> string list" where
  "split_on c [] = [[]]"
| "split_on c (x # xs) =
     (if x = c then [] # split_on c xs
      else (case split_on c xs of [] \<Rightarrow> [[x]] | p # ps \<Rightarrow> (x # p) # ps))"

fun split_once :: "char \<Rightarrow> string \<Rightarrow> (string \<times> string) option" where
  "split_once c [] = None"
| "split_once c (x # xs) =
     (if x = c then Some ([], xs) else map_option (\<lambda>(a, b). (x # a, b)) (split_once c xs))"

text \<open>\<open>s.rsplit(c).next()\<close>: what follows the last separator.\<close>

definition rsplit_first :: "char \<Rightarrow> string \<Rightarrow> string" where
  "rsplit_first c s = rev (takeWhile (\<lambda>x. x \<noteq> c) (rev s))"

text \<open>\<open>lines()\<close>: no piece after a final line feed, a carriage return before a line feed dropped.\<close>

definition strip_cr :: "string \<Rightarrow> string" where
  "strip_cr l = (if l \<noteq> [] \<and> last l = CHR 0x0D then butlast l else l)"

definition str_lines :: "string \<Rightarrow> string list" where
  "str_lines s =
     (let ps = split_on (CHR 0x0A) s
      in map strip_cr (butlast ps) @ (if last ps = [] then [] else [last ps]))"

fun join :: "string \<Rightarrow> string list \<Rightarrow> string" where
  "join sep [] = []"
| "join sep [x] = x"
| "join sep (x # y # ys) = x @ sep @ join sep (y # ys)"

abbreviation newline :: char where "newline \<equiv> CHR 0x0A"

text \<open>\<open>s.as_bytes()\<close>\<close>

definition name_bytes :: "string \<Rightarrow> bytes" where
  "name_bytes s = map (\<lambda>c. of_nat (of_char c)) s"

section \<open>Trimming\<close>

text \<open>The UTF-8 encodings of the characters with Unicode's \<open>White_Space\<close> property.\<close>

definition white_space :: "string list" where
  "white_space =
     [[CHR 0x09], [CHR 0x0A], [CHR 0x0B], [CHR 0x0C], [CHR 0x0D], [CHR 0x20],
      [CHR 0xC2, CHR 0x85], [CHR 0xC2, CHR 0xA0], [CHR 0xE1, CHR 0x9A, CHR 0x80],
      [CHR 0xE2, CHR 0x80, CHR 0x80], [CHR 0xE2, CHR 0x80, CHR 0x81],
      [CHR 0xE2, CHR 0x80, CHR 0x82], [CHR 0xE2, CHR 0x80, CHR 0x83],
      [CHR 0xE2, CHR 0x80, CHR 0x84], [CHR 0xE2, CHR 0x80, CHR 0x85],
      [CHR 0xE2, CHR 0x80, CHR 0x86], [CHR 0xE2, CHR 0x80, CHR 0x87],
      [CHR 0xE2, CHR 0x80, CHR 0x88], [CHR 0xE2, CHR 0x80, CHR 0x89],
      [CHR 0xE2, CHR 0x80, CHR 0x8A], [CHR 0xE2, CHR 0x80, CHR 0xA8],
      [CHR 0xE2, CHR 0x80, CHR 0xA9], [CHR 0xE2, CHR 0x80, CHR 0xAF],
      [CHR 0xE2, CHR 0x81, CHR 0x9F], [CHR 0xE3, CHR 0x80, CHR 0x80]]"

text \<open>Drop the leading strings of a list of non-empty strings, as long as there is one.\<close>

fun drop_leading :: "string list \<Rightarrow> string \<Rightarrow> string option" where
  "drop_leading [] s = None"
| "drop_leading (w # ws) s =
     (case strip_prefix w s of Some r \<Rightarrow> (if w = [] then drop_leading ws s else Some r)
      | None \<Rightarrow> drop_leading ws s)"

lemma strip_prefix_Some: "strip_prefix p s = Some r \<longleftrightarrow> s = p @ r"
  by (induction p s rule: strip_prefix.induct) auto

lemma drop_leading_shorter: "drop_leading ws s = Some r \<Longrightarrow> length r < length s"
  by (induction ws) (auto simp: strip_prefix_Some split: option.splits if_splits)

function trim_leading :: "string list \<Rightarrow> string \<Rightarrow> string" where
  "trim_leading ws s = (case drop_leading ws s of None \<Rightarrow> s | Some r \<Rightarrow> trim_leading ws r)"
  by pat_completeness auto
termination
  by (relation "measure (\<lambda>(ws, s). length s)") (auto dest: drop_leading_shorter)

declare trim_leading.simps [simp del]

definition trim_start :: "string \<Rightarrow> string" where
  "trim_start s = trim_leading white_space s"

definition trim_end :: "string \<Rightarrow> string" where
  "trim_end s = rev (trim_leading (map rev white_space) (rev s))"

definition trim :: "string \<Rightarrow> string" where
  "trim s = trim_end (trim_start s)"

text \<open>\<open>trim_matches(c)\<close> and \<open>trim_end_matches(c)\<close> for a character.\<close>

definition trim_end_matches :: "char \<Rightarrow> string \<Rightarrow> string" where
  "trim_end_matches c s = rev (dropWhile (\<lambda>x. x = c) (rev s))"

definition trim_matches :: "char \<Rightarrow> string \<Rightarrow> string" where
  "trim_matches c s = trim_end_matches c (dropWhile (\<lambda>x. x = c) s)"

section \<open>Digits\<close>

definition digit_value :: "nat \<Rightarrow> char \<Rightarrow> nat option" where
  "digit_value radix c =
     (let n = of_char c :: nat;
          v = (if 48 \<le> n \<and> n \<le> 57 then Some (n - 48)
               else if 97 \<le> n \<and> n \<le> 122 then Some (n - 87)
               else if 65 \<le> n \<and> n \<le> 90 then Some (n - 55)
               else None)
      in (case v of None \<Rightarrow> None | Some d \<Rightarrow> if d < radix then Some d else None))"

definition digit_char :: "nat \<Rightarrow> char" where
  "digit_char d = (if d < 10 then char_of (48 + d) else char_of (87 + d))"

definition is_ascii_hexdigit :: "char \<Rightarrow> bool" where
  "is_ascii_hexdigit c \<longleftrightarrow> digit_value 16 c \<noteq> None"

definition to_ascii_lowercase :: "string \<Rightarrow> string" where
  "to_ascii_lowercase s =
     map (\<lambda>c. let n = of_char c :: nat in if 65 \<le> n \<and> n \<le> 90 then char_of (n + 32) else c) s"

datatype parse_int_error = Empty | InvalidDigit | PosOverflow | NegOverflow

text \<open>The loop of \<open>from_str_radix\<close>: the digit is looked at before the overflow is reported.\<close>

fun parse_digits :: "nat \<Rightarrow> nat \<Rightarrow> nat \<Rightarrow> string \<Rightarrow> parse_int_error + nat" where
  "parse_digits radix bound acc [] = Inr acc"
| "parse_digits radix bound acc (c # cs) =
     (case digit_value radix c of
        None \<Rightarrow> Inl InvalidDigit
      | Some d \<Rightarrow>
          if acc * radix + d < bound then parse_digits radix bound (acc * radix + d) cs
          else Inl PosOverflow)"

definition parse_u64_radix :: "nat \<Rightarrow> string \<Rightarrow> parse_int_error + u64" where
  "parse_u64_radix radix s =
     (if s = [] then Inl Empty
      else if s = ''+'' \<or> s = ''-'' then Inl InvalidDigit
      else
        (let ds = (if hd s = CHR ''+'' then tl s else s)
         in map_sum id of_nat (parse_digits radix (2 ^ 64) 0 ds)))"

definition parse_u64 :: "string \<Rightarrow> parse_int_error + u64" where
  "parse_u64 s = parse_u64_radix 10 s"

text \<open>\<open>i64::from_str\<close>: the negative side reaches one further, and overflows downwards.\<close>

definition parse_i64 :: "string \<Rightarrow> parse_int_error + int" where
  "parse_i64 s =
     (if s = [] then Inl Empty
      else if s = ''+'' \<or> s = ''-'' then Inl InvalidDigit
      else if hd s = CHR ''-'' then
        (case parse_digits 10 (2 ^ 63 + 1) 0 (tl s) of
           Inl PosOverflow \<Rightarrow> Inl NegOverflow
         | Inl e \<Rightarrow> Inl e
         | Inr n \<Rightarrow> Inr (- int n))
      else
        map_sum id int (parse_digits 10 (2 ^ 63) 0 (if hd s = CHR ''+'' then tl s else s)))"

text \<open>\<open>{:x}\<close> and \<open>{}\<close> of an unsigned integer, and zero padding on the left.\<close>

fun radix_digits :: "nat \<Rightarrow> nat \<Rightarrow> nat list" where
  "radix_digits b n = (if b < 2 \<or> n < b then [n] else radix_digits b (n div b) @ [n mod b])"

declare radix_digits.simps [simp del]

definition fmt_radix :: "nat \<Rightarrow> nat \<Rightarrow> string" where
  "fmt_radix b n = map digit_char (radix_digits b n)"

definition pad_zero :: "nat \<Rightarrow> string \<Rightarrow> string" where
  "pad_zero w s = replicate (w - length s) (CHR ''0'') @ s"

section \<open>Laws of the string operations\<close>

lemma starts_with_iff: "starts_with p s \<longleftrightarrow> (\<exists>r. s = p @ r)"
  by (auto simp: starts_with_def strip_prefix_Some not_None_eq)

lemma strip_suffix_Some: "strip_suffix p s = Some r \<longleftrightarrow> s = r @ p"
proof -
  have "strip_suffix p s = Some r \<longleftrightarrow> strip_prefix (rev p) (rev s) = Some (rev r)"
    by (auto simp: strip_suffix_def)
  also have "\<dots> \<longleftrightarrow> s = r @ p"
    by (simp add: strip_prefix_Some) (metis rev_append rev_rev_ident)
  finally show ?thesis .
qed

lemma split_on_ne [simp]: "split_on c s \<noteq> []"
  by (cases s) (auto split: list.splits)

lemma split_on_no_sep: "c \<notin> set s \<Longrightarrow> split_on c s = [s]"
  by (induction s) auto

lemma split_on_pieces: "q \<in> set (split_on c s) \<Longrightarrow> c \<notin> set q"
proof (induction s arbitrary: q)
  case (Cons x s)
  then show ?case by (cases "split_on c s") (auto split: if_splits)
qed simp

lemma split_on_append_sep: "c \<notin> set a \<Longrightarrow> split_on c (a @ c # b) = a # split_on c b"
  by (induction a) auto

lemma split_once_append: "c \<notin> set a \<Longrightarrow> split_once c (a @ c # b) = Some (a, b)"
  by (induction a) auto

lemma split_once_SomeD: "split_once c s = Some (a, b) \<Longrightarrow> s = a @ c # b \<and> c \<notin> set a"
  by (induction s arbitrary: a) (auto split: if_splits)

lemma split_once_None: "split_once c s = None \<longleftrightarrow> c \<notin> set s"
  by (induction s) auto

lemma takeWhile_neq_all: "c \<notin> set b \<Longrightarrow> takeWhile (\<lambda>x. x \<noteq> c) b = b"
  by (auto simp: takeWhile_eq_all_conv)

lemma rsplit_first_append: "c \<notin> set b \<Longrightarrow> rsplit_first c (a @ c # b) = b"
  by (simp add: rsplit_first_def takeWhile_tail takeWhile_neq_all)

lemma rsplit_first_no_sep: "c \<notin> set b \<Longrightarrow> rsplit_first c b = b"
  by (simp add: rsplit_first_def takeWhile_neq_all)

lemma drop_leading_None: "\<forall>w \<in> set ws. w \<noteq> [] \<and> hd w \<noteq> hd s \<Longrightarrow> drop_leading ws s = None"
proof (induction ws)
  case (Cons w ws)
  have "strip_prefix w s = None"
  proof (cases "strip_prefix w s")
    case (Some r)
    then have "s = w @ r" by (simp add: strip_prefix_Some)
    moreover have "w \<noteq> []" "hd w \<noteq> hd s" using Cons.prems by simp_all
    ultimately show ?thesis by simp
  qed simp
  with Cons show ?case by simp
qed simp

lemma trim_leading_fixed:
  "\<forall>w \<in> set ws. w \<noteq> [] \<and> hd w \<noteq> hd s \<Longrightarrow> trim_leading ws s = s"
  by (subst trim_leading.simps) (simp add: drop_leading_None)

text \<open>A string with no white space at either end is its own trimmed form.\<close>

lemma trim_black:
  assumes "s \<noteq> []" "hd s \<notin> hd ` set white_space" "last s \<notin> last ` set white_space"
  shows "trim s = s"
proof -
  have ne: "\<forall>w \<in> set white_space. w \<noteq> []" by (simp add: white_space_def)
  have "trim_leading white_space s = s"
  proof (rule trim_leading_fixed, rule ballI)
    fix w assume w: "w \<in> set white_space"
    then have "hd w \<in> hd ` set white_space" by (rule imageI)
    with w ne assms(2) show "w \<noteq> [] \<and> hd w \<noteq> hd s" by metis
  qed
  moreover have "trim_leading (map rev white_space) (rev s) = rev s"
  proof (rule trim_leading_fixed, rule ballI)
    fix v assume "v \<in> set (map rev white_space)"
    then obtain w where w: "v = rev w" "w \<in> set white_space" by auto
    then have "last w \<in> last ` set white_space" by blast
    with w ne assms(1,3) show "v \<noteq> [] \<and> hd v \<noteq> hd (rev s)" by (metis hd_rev rev_is_Nil_conv)
  qed
  ultimately show ?thesis by (simp add: trim_def trim_start_def trim_end_def)
qed

section \<open>Laws of the digits\<close>

definition digits_val :: "nat \<Rightarrow> nat \<Rightarrow> nat list \<Rightarrow> nat" where
  "digits_val b acc ds = foldl (\<lambda>a d. a * b + d) acc ds"

lemma digits_val_simps [simp]:
  "digits_val b acc [] = acc"
  "digits_val b acc (d # ds) = digits_val b (acc * b + d) ds"
  "digits_val b acc (ds @ [d]) = digits_val b acc ds * b + d"
  by (simp_all add: digits_val_def)

lemma digits_val_replicate_0 [simp]: "digits_val b 0 (replicate k 0 @ ds) = digits_val b 0 ds"
  by (induction k) auto

lemma digits_val_mono: "0 < b \<Longrightarrow> acc \<le> digits_val b acc ds"
proof (induction ds arbitrary: acc)
  case (Cons d ds)
  have "acc \<le> acc * b + d" using Cons.prems by (simp add: trans_le_add1)
  also have "\<dots> \<le> digits_val b (acc * b + d) ds" using Cons by simp
  finally show ?case by simp
qed simp

lemma digits_val_less: "\<forall>d \<in> set ds. d < b \<Longrightarrow> digits_val b 0 ds < b ^ length ds"
proof (induction ds rule: rev_induct)
  case (snoc d ds)
  then have "digits_val b 0 ds + 1 \<le> b ^ length ds" "d < b" by simp_all
  then have "(digits_val b 0 ds + 1) * b \<le> b ^ length ds * b" "d < b"
    by (metis mult_le_mono1)+
  then show ?case by (simp add: algebra_simps)
qed simp

lemma digits_val_inject:
  "length ds = length es \<Longrightarrow> \<forall>d \<in> set ds. d < b \<Longrightarrow> \<forall>d \<in> set es. d < b \<Longrightarrow>
   digits_val b 0 ds = digits_val b 0 es \<Longrightarrow> ds = es"
proof (induction ds arbitrary: es rule: rev_induct)
  case (snoc d ds)
  then obtain e es' where es: "es = es' @ [e]" "length ds = length es'"
    by (cases es rule: rev_cases) auto
  have eq: "digits_val b 0 ds * b + d = digits_val b 0 es' * b + e" "d < b" "e < b"
    using snoc.prems es by simp_all
  then have "(digits_val b 0 ds * b + d) mod b = (digits_val b 0 es' * b + e) mod b"
    "(digits_val b 0 ds * b + d) div b = (digits_val b 0 es' * b + e) div b" by simp_all
  then have "d = e" "digits_val b 0 ds = digits_val b 0 es'" using eq(2,3) by simp_all
  with snoc es show ?case by simp
qed simp

lemma digits_val_radix_digits: "2 \<le> b \<Longrightarrow> digits_val b 0 (radix_digits b n) = n"
proof (induction b n rule: radix_digits.induct)
  case (1 b n)
  then show ?case by (subst radix_digits.simps) (auto simp: not_less)
qed

lemma radix_digits_less: "2 \<le> b \<Longrightarrow> d \<in> set (radix_digits b n) \<Longrightarrow> d < b"
proof (induction b n rule: radix_digits.induct)
  case (1 b n)
  show ?case
  proof (cases "n < b")
    case True
    with "1.prems" show ?thesis by (simp add: radix_digits.simps [of b n])
  next
    case False
    with "1" show ?thesis by (auto simp: radix_digits.simps [of b n])
  qed
qed

lemma length_radix_digits: "2 \<le> b \<Longrightarrow> n < b ^ Suc k \<Longrightarrow> length (radix_digits b n) \<le> Suc k"
proof (induction k arbitrary: n)
  case 0
  then show ?case by (simp add: radix_digits.simps [of b n])
next
  case (Suc k)
  have "n div b < b ^ Suc k"
    using Suc.prems by (simp add: less_mult_imp_div_less mult.commute)
  with Suc show ?case by (subst radix_digits.simps) auto
qed

lemma digit_value_digit_char: "d < radix \<Longrightarrow> radix \<le> 16 \<Longrightarrow> digit_value radix (digit_char d) = Some d"
proof -
  assume d: "d < radix" "radix \<le> 16"
  then have "d \<in> set [0..<16]" by simp
  then have "digit_value 16 (digit_char d) = Some d"
    by (simp add: upt_rec digit_value_def digit_char_def) (elim disjE; simp)
  with d show "digit_value radix (digit_char d) = Some d"
    by (auto simp: digit_value_def Let_def split: option.splits if_splits)
qed

lemma digit_value_less: "digit_value radix c = Some d \<Longrightarrow> d < radix"
  by (auto simp: digit_value_def Let_def split: option.splits if_splits)

lemma parse_digits_map:
  assumes "0 < radix" "radix \<le> 16"
  shows "\<forall>d \<in> set ds. d < radix \<Longrightarrow> digits_val radix acc ds < bound \<Longrightarrow>
    parse_digits radix bound acc (map digit_char ds) = Inr (digits_val radix acc ds)"
proof (induction ds arbitrary: acc)
  case (Cons d ds)
  have "acc * radix + d \<le> digits_val radix (acc * radix + d) ds"
    using assms(1) by (rule digits_val_mono)
  with Cons assms(2) show ?case by (simp add: digit_value_digit_char)
qed simp

text \<open>What a successful parse says: every character is a digit and the value is theirs.\<close>

lemma parse_digits_InrD:
  "parse_digits radix bound acc s = Inr n \<Longrightarrow> acc < bound \<Longrightarrow>
   \<exists>ds. map (digit_value radix) s = map Some ds \<and> n = digits_val radix acc ds \<and> n < bound"
proof (induction s arbitrary: acc)
  case (Cons c s)
  then obtain d where d: "digit_value radix c = Some d" "acc * radix + d < bound"
    "parse_digits radix bound (acc * radix + d) s = Inr n"
    by (auto split: option.splits if_splits)
  then obtain ds where "map (digit_value radix) s = map Some ds"
    "n = digits_val radix (acc * radix + d) ds" "n < bound" using Cons.IH by blast
  with d show ?case by (intro exI [of _ "d # ds"]) simp
qed simp

lemma digit_char_nonsign: "d < 16 \<Longrightarrow> digit_char d \<noteq> CHR ''+'' \<and> digit_char d \<noteq> CHR ''-''"
proof -
  assume "d < 16"
  then have "digit_value 16 (digit_char d) = Some d" by (simp add: digit_value_digit_char)
  moreover have "digit_value 16 (CHR ''+'') = None" "digit_value 16 (CHR ''-'') = None"
    by (simp_all add: digit_value_def)
  ultimately show ?thesis by (metis option.distinct(1))
qed

lemma parse_u64_radix_map:
  assumes "0 < radix" "radix \<le> 16" "ds \<noteq> []" "\<forall>d \<in> set ds. d < radix"
    "digits_val radix 0 ds < 2 ^ 64"
  shows "parse_u64_radix radix (map digit_char ds) = Inr (of_nat (digits_val radix 0 ds))"
proof -
  obtain d ds' where ds: "ds = d # ds'" using assms(3) by (cases ds) auto
  have "digit_char d \<noteq> CHR ''+''" "digit_char d \<noteq> CHR ''-''"
    using digit_char_nonsign [of d] assms(2,4) ds by auto
  then show ?thesis
    using parse_digits_map [OF assms(1,2,4,5)] ds by (simp add: parse_u64_radix_def)
qed

lemma parse_u64_fmt: "n < 2 ^ 64 \<Longrightarrow> parse_u64 (fmt_radix 10 n) = Inr (of_nat n)"
proof -
  assume n: "n < 2 ^ 64"
  have "radix_digits 10 n \<noteq> []" by (subst radix_digits.simps) simp
  then show ?thesis
    using parse_u64_radix_map [of 10 "radix_digits 10 n"] radix_digits_less [of 10 _ n] n
    by (simp add: parse_u64_def fmt_radix_def digits_val_radix_digits)
qed

lemma digit_char_inject: "d < 16 \<Longrightarrow> e < 16 \<Longrightarrow> digit_char d = digit_char e \<Longrightarrow> d = e"
  by (metis digit_value_digit_char option.inject order_refl)

lemma digit_char_0: "digit_char 0 = CHR ''0''"
proof -
  have "char_of (of_char (CHR ''0'') :: nat) = CHR ''0''" by (rule char_of_char)
  then show ?thesis by (simp add: digit_char_def)
qed

lemma pad_zero_fmt: "pad_zero w (fmt_radix b n) =
    map digit_char (replicate (w - length (radix_digits b n)) 0 @ radix_digits b n)"
  by (simp add: pad_zero_def fmt_radix_def digit_char_0)

lemma pad_zero_fmt_inject:
  assumes "2 \<le> b" "b \<le> 16" "pad_zero w (fmt_radix b m) = pad_zero w (fmt_radix b n)"
  shows "m = n"
proof -
  let ?ds = "\<lambda>n. replicate (w - length (radix_digits b n)) 0 @ radix_digits b n"
  have less: "\<forall>d \<in> set (?ds k). d < 16" for k
    using radix_digits_less [OF assms(1), of _ k] assms(2) by fastforce
  have "map digit_char (?ds m) = map digit_char (?ds n)"
    using assms(3) by (simp add: pad_zero_fmt)
  moreover have "inj_on digit_char (set (?ds m) \<union> set (?ds n))"
    using less [of m] less [of n] by (intro inj_onI) (blast intro: digit_char_inject)
  ultimately have "?ds m = ?ds n" by (rule inj_on_map_eq_map [THEN iffD1, rotated])
  then have "digits_val b 0 (?ds m) = digits_val b 0 (?ds n)" by (simp only:)
  with assms(1) show ?thesis by (simp add: digits_val_radix_digits)
qed

end
