(* ===== verification/Guid_Types.thy ===== *)
theory Guid_Types
  imports Rust_Str
begin

text \<open>
  \<open>src/types.rs\<close>: the GUID newtype with its two textual forms (16 hexadecimal digits in
  keys and JSON, decimal in the output of \<open>zfs\<close>), the send flags, and the parsers of sizes
  and of truthy environment variables. The laws: the hexadecimal form round-trips and is
  injective, the two forms have separate parsers, a parsed size never wraps.
\<close>

section \<open>GUIDs\<close>

datatype guid = Guid (guid_u64: u64)

instantiation guid :: linorder
begin

definition less_eq_guid :: "guid \<Rightarrow> guid \<Rightarrow> bool" where
  "less_eq_guid g h \<longleftrightarrow> guid_u64 g \<le> guid_u64 h"

definition less_guid :: "guid \<Rightarrow> guid \<Rightarrow> bool" where
  "less_guid g h \<longleftrightarrow> guid_u64 g < guid_u64 h"

instance
  by standard (auto simp: less_eq_guid_def less_guid_def guid.expand)

end

definition guid_display :: "guid \<Rightarrow> string" where
  "guid_display g = pad_zero 16 (fmt_radix 16 (unat (guid_u64 g)))"

datatype parse_guid_error = ParseGuidError string

definition guid_from_zfs :: "string \<Rightarrow> parse_int_error + guid" where
  "guid_from_zfs s = map_sum id Guid (parse_u64 (trim s))"

definition guid_from_str :: "string \<Rightarrow> parse_guid_error + guid" where
  "guid_from_str s =
     (if length s = 16 \<and> list_all is_ascii_hexdigit s
      then map_sum (\<lambda>_. ParseGuidError s) Guid (parse_u64_radix 16 s)
      else Inl (ParseGuidError s))"

section \<open>Send flags\<close>

record send_flags =
  raw :: bool
  compressed :: bool
  large_blocks :: bool
  embedded :: bool
  holds :: bool
  props :: bool

definition send_flags_default :: send_flags where
  "send_flags_default = \<lparr>raw = False, compressed = False, large_blocks = False,
     embedded = False, holds = False, props = False\<rparr>"

definition zfs_args :: "send_flags \<Rightarrow> string list" where
  "zfs_args f =
     (if raw f then [''--raw''] else []) @
     (if compressed f then [''-c''] else []) @
     (if large_blocks f then [''-L''] else []) @
     (if embedded f then [''-e''] else []) @
     (if holds f then [''-h''] else []) @
     (if props f then [''-p''] else [])"

section \<open>Sizes and switches\<close>

datatype size_error = BadNumber string parse_int_error | SizeOverflow string

definition or_else :: "'a option \<Rightarrow> 'a option \<Rightarrow> 'a option" where
  "or_else x y = (case x of None \<Rightarrow> y | Some v \<Rightarrow> Some v)"

definition size_suffix :: "string \<Rightarrow> string \<times> u64" where
  "size_suffix t =
     (case or_else (strip_suffix ''GiB'' t) (strip_suffix ''G'' t) of
        Some n \<Rightarrow> (n, push_bit 30 1)
      | None \<Rightarrow>
          (case or_else (strip_suffix ''MiB'' t) (strip_suffix ''M'' t) of
             Some n \<Rightarrow> (n, push_bit 20 1)
           | None \<Rightarrow>
               (case or_else (strip_suffix ''KiB'' t) (strip_suffix ''K'' t) of
                  Some n \<Rightarrow> (n, push_bit 10 1)
                | None \<Rightarrow> (t, 1))))"

definition parse_size :: "string \<Rightarrow> size_error + u64" where
  "parse_size s =
     (case size_suffix (trim s) of (num, mult) \<Rightarrow>
        (case parse_u64 (trim num) of
           Inl e \<Rightarrow> Inl (BadNumber s e)
         | Inr v \<Rightarrow> ok_or (checked_mul v mult) (SizeOverflow s)))"

text \<open>The environment is a parameter: \<open>env key\<close> is the variable's value, if it is set.\<close>

definition env_enabled :: "(string \<Rightarrow> string option) \<Rightarrow> string \<Rightarrow> bool" where
  "env_enabled env key =
     (let v = (case env key of None \<Rightarrow> [] | Some s \<Rightarrow> s)
      in to_ascii_lowercase (trim v) \<in> set [''1'', ''true'', ''yes'', ''on''])"

section \<open>The hexadecimal form\<close>

lemma unat_guid_less: "unat (guid_u64 g) < 16 ^ Suc 15"
  using unsigned_less [of "guid_u64 g", where 'a = nat] by simp

lemma guid_digits:
  obtains ds where "length ds = 16" "\<forall>d \<in> set ds. d < 16" "guid_display g = map digit_char ds"
    "digits_val 16 0 ds = unat (guid_u64 g)"
proof
  let ?r = "radix_digits 16 (unat (guid_u64 g))"
  let ?ds = "replicate (16 - length ?r) 0 @ ?r"
  have "length ?r \<le> 16"
    using length_radix_digits [OF _ unat_guid_less [of g]] by simp
  then show "length ?ds = 16" by simp
  show "\<forall>d \<in> set ?ds. d < 16"
    using radix_digits_less [of 16 _ "unat (guid_u64 g)"] by auto
  show "guid_display g = map digit_char ?ds"
    by (simp only: guid_display_def pad_zero_fmt)
  show "digits_val 16 0 ?ds = unat (guid_u64 g)" by (simp add: digits_val_radix_digits)
qed

lemma length_guid_display [simp]: "length (guid_display g) = 16"
  by (rule guid_digits [of g]) simp

lemma guid_display_inject [simp]: "guid_display g = guid_display h \<longleftrightarrow> g = h"
proof
  assume "guid_display g = guid_display h"
  then have "unat (guid_u64 g) = unat (guid_u64 h)"
    unfolding guid_display_def by (rule pad_zero_fmt_inject [rotated 2]) simp_all
  then show "g = h" by (cases g; cases h) (simp add: word_unat_eq_iff)
qed simp

lemma guid_from_str_display: "guid_from_str (guid_display g) = Inr g"
proof -
  obtain ds where ds: "length ds = 16" "\<forall>d \<in> set ds. d < 16"
    "guid_display g = map digit_char ds" "digits_val 16 0 ds = unat (guid_u64 g)"
    by (rule guid_digits)
  have "digits_val 16 0 ds < 2 ^ 64"
    unfolding ds(4) using unat_guid_less [of g] by simp
  moreover have "ds \<noteq> []" using ds(1) by auto
  ultimately have "parse_u64_radix 16 (guid_display g) = Inr (guid_u64 g)"
    using parse_u64_radix_map [of 16 ds] ds by simp
  moreover have "list_all is_ascii_hexdigit (guid_display g)"
    using ds(2) by (auto simp: ds(3) list_all_iff is_ascii_hexdigit_def digit_value_digit_char)
  ultimately show ?thesis by (simp add: guid_from_str_def)
qed

lemma digit_char_lowercase:
  assumes "digit_value 16 c = Some d"
  shows "to_ascii_lowercase [c] = [digit_char d]"
proof -
  let ?n = "of_char c :: nat"
  have "char_of ?n = c" by simp
  then show ?thesis
    using assms
    by (auto simp: digit_value_def digit_char_def to_ascii_lowercase_def Let_def
        split: option.splits if_splits simp del: char_of_char)
qed

lemma to_ascii_lowercase_digits:
  "map (digit_value 16) s = map Some ds \<Longrightarrow> to_ascii_lowercase s = map digit_char ds"
proof (induction s arbitrary: ds)
  case (Cons c s)
  then obtain d ds' where "ds = d # ds'" "digit_value 16 c = Some d"
    "map (digit_value 16) s = map Some ds'" by (cases ds) auto
  with Cons.IH digit_char_lowercase [of c d] show ?case by (simp add: to_ascii_lowercase_def)
qed (simp add: to_ascii_lowercase_def)

lemma guid_from_str_InrD:
  assumes "guid_from_str s = Inr g"
  shows "guid_display g = to_ascii_lowercase s"
proof -
  have s: "length s = 16" "list_all is_ascii_hexdigit s" "parse_u64_radix 16 s = Inr (guid_u64 g)"
    using assms by (auto simp: guid_from_str_def split: if_splits)
      (cases "parse_u64_radix 16 s"; auto)+
  have "hd s \<in> set s" using s(1) by (cases s) auto
  then have "digit_value 16 (hd s) \<noteq> None" using s(2)
    by (auto simp: list_all_iff is_ascii_hexdigit_def)
  then have nosign: "hd s \<noteq> CHR ''+''" by (auto simp: digit_value_def)
  have "s \<noteq> []" "s \<noteq> ''+''" "s \<noteq> ''-''" using s(1) by auto
  with s(3) nosign obtain n where n: "parse_digits 16 (2 ^ 64) 0 s = Inr n" "guid_u64 g = of_nat n"
    by (auto simp: parse_u64_radix_def) (cases "parse_digits 16 (2 ^ 64) 0 s"; auto)+
  from parse_digits_InrD [OF n(1)] obtain ds where
    ds: "map (digit_value 16) s = map Some ds" "n = digits_val 16 0 ds" "n < 2 ^ 64" by auto
  have less: "\<forall>d \<in> set ds. d < 16"
    using ds(1) digit_value_less by (metis in_set_conv_nth length_map nth_map)
  obtain es where es: "length es = 16" "\<forall>d \<in> set es. d < 16"
    "guid_display g = map digit_char es" "digits_val 16 0 es = unat (guid_u64 g)"
    by (rule guid_digits)
  have "length ds = 16" using arg_cong [OF ds(1), of length] s(1) by simp
  moreover have "unat (guid_u64 g) = n" using n(2) ds(3) by (simp add: unat_of_nat_u64)
  ultimately have "es = ds" using es less ds(2) by (intro digits_val_inject [of es ds 16]) auto
  with es(3) to_ascii_lowercase_digits [OF ds(1)] show ?thesis by simp
qed

lemma digit_value_lowercase:
  "map (digit_value 16) (to_ascii_lowercase s) = map (digit_value 16) s"
  by (auto simp: to_ascii_lowercase_def digit_value_def Let_def)

lemma parse_digits_values:
  "map (digit_value r) s = map (digit_value r) t \<Longrightarrow> parse_digits r n a s = parse_digits r n a t"
proof (induction s arbitrary: a t)
  case (Cons c s)
  then obtain e u where "t = e # u" "digit_value r e = digit_value r c"
    "map (digit_value r) s = map (digit_value r) u" by (cases t) auto
  with Cons.IH [of u] show ?case by (simp split: option.split)
qed simp

lemma guid_from_str_iff:
  "guid_from_str s = Inr g \<longleftrightarrow> length s = 16 \<and> guid_display g = to_ascii_lowercase s"
proof
  assume h: "guid_from_str s = Inr g"
  then show "length s = 16 \<and> guid_display g = to_ascii_lowercase s"
    using guid_from_str_InrD [OF h] by (auto simp: guid_from_str_def split: if_splits)
next
  assume h: "length s = 16 \<and> guid_display g = to_ascii_lowercase s"
  let ?t = "guid_display g"
  have v: "map (digit_value 16) s = map (digit_value 16) ?t"
    using h digit_value_lowercase [of s] by simp
  obtain ds where ds: "\<forall>d \<in> set ds. d < 16" "?t = map digit_char ds" by (rule guid_digits [of g])
  then have "map (digit_value 16) ?t = map Some ds" by (simp add: digit_value_digit_char)
  then have "map (digit_value 16) s = map Some ds" using v by simp
  then have hex: "digit_value 16 c \<noteq> None" if "c \<in> set s" for c
    using that by (metis imageE image_set list.set_map option.distinct(1) imageI)
  have "CHR ''+'' \<notin> set s"
  proof
    assume "CHR ''+'' \<in> set s"
    from hex [OF this] show False by (simp add: digit_value_def)
  qed
  moreover have "CHR ''+'' \<notin> set ?t"
    using ds digit_char_nonsign by fastforce
  moreover have "length s = 16" "length ?t = 16" using h length_guid_display [of g] by (simp_all only:)
  then have "s \<noteq> []" "?t \<noteq> []" "s \<noteq> ''-''" "?t \<noteq> ''-''" "s \<noteq> ''+''" "?t \<noteq> ''+''" by fastforce+
  ultimately have "parse_u64_radix 16 s = parse_u64_radix 16 ?t"
    using parse_digits_values [OF v] by (auto simp: parse_u64_radix_def dest: hd_in_set)
  moreover have "list_all is_ascii_hexdigit s" using hex by (auto simp: list_all_iff is_ascii_hexdigit_def)
  ultimately show "guid_from_str s = Inr g"
    using guid_from_str_display [of g] h by (auto simp: guid_from_str_def split: if_splits)
      (cases "parse_u64_radix 16 ?t"; auto)+
qed

section \<open>The decimal form\<close>

lemma fmt_radix_ends:
  assumes "2 \<le> b" "b \<le> 16"
  shows "fmt_radix b n \<noteq> []" "hd (fmt_radix b n) \<in> digit_char ` {..<16}"
    "last (fmt_radix b n) \<in> digit_char ` {..<16}"
proof -
  have ne: "radix_digits b n \<noteq> []" by (subst radix_digits.simps) simp
  then show "fmt_radix b n \<noteq> []" by (simp add: fmt_radix_def)
  have "\<forall>d \<in> set (radix_digits b n). d < 16"
    using radix_digits_less [OF assms(1), of _ n] assms(2) by fastforce
  with ne show "hd (fmt_radix b n) \<in> digit_char ` {..<16}"
    "last (fmt_radix b n) \<in> digit_char ` {..<16}"
    by (simp_all add: fmt_radix_def hd_map last_map)
qed

lemma digit_char_black:
  assumes "c \<in> digit_char ` {..<16}"
  shows "c \<notin> hd ` set white_space" "c \<notin> last ` set white_space"
proof -
  obtain d where "c = digit_char d" "d < 16" using assms by auto
  then have "digit_value 16 c = Some d" by (simp add: digit_value_digit_char)
  moreover have "\<forall>e \<in> hd ` set white_space \<union> last ` set white_space. digit_value 16 e = None"
    by (simp add: white_space_def digit_value_def)
  ultimately show "c \<notin> hd ` set white_space" "c \<notin> last ` set white_space" by auto
qed

lemma trim_fmt [simp]: "2 \<le> b \<Longrightarrow> b \<le> 16 \<Longrightarrow> trim (fmt_radix b n) = fmt_radix b n"
  by (simp add: trim_black fmt_radix_ends digit_char_black)

lemma guid_from_zfs_fmt: "guid_from_zfs (fmt_radix 10 (unat w)) = Inr (Guid w)"
  using parse_u64_fmt [of "unat w"] unsigned_less [of w, where 'a = nat]
  by (simp add: guid_from_zfs_def)

section \<open>Sizes\<close>

lemma parse_size_Inr_iff:
  "parse_size s = Inr v \<longleftrightarrow>
     (\<exists>n. parse_u64 (trim (fst (size_suffix (trim s)))) = Inr n \<and>
          unat n * unat (snd (size_suffix (trim s))) = unat v)"
proof (cases "size_suffix (trim s)")
  case (Pair num mult)
  have "checked_mul n mult = Some v \<longleftrightarrow> unat n * unat mult = unat v" for n
  proof
    assume "unat n * unat mult = unat v"
    moreover have "unat v < 2 ^ 64" using unsigned_less [of v, where 'a = nat] by simp
    ultimately have "unat n * unat mult < 2 ^ 64" by simp
    then have "unat (n * mult) = unat v"
      using \<open>unat n * unat mult = unat v\<close> by (simp add: unat_mult_u64)
    then show "checked_mul n mult = Some v"
      using \<open>unat n * unat mult < 2 ^ 64\<close> by (simp add: checked_mul_def word_unat_eq_iff)
  qed (auto dest: checked_mul_Some)
  with Pair show ?thesis
    by (cases "parse_u64 (trim num)") (auto simp: parse_size_def ok_or_Inr)
qed

lemma parse_size_overflow_iff:
  "parse_size s = Inl (SizeOverflow t) \<longleftrightarrow> t = s \<and>
     (\<exists>n. parse_u64 (trim (fst (size_suffix (trim s)))) = Inr n \<and>
          2 ^ 64 \<le> unat n * unat (snd (size_suffix (trim s))))"
proof (cases "size_suffix (trim s)")
  case (Pair num mult)
  have "ok_or (checked_mul n mult) (SizeOverflow s) = Inl (SizeOverflow t) \<longleftrightarrow>
    t = s \<and> 2 ^ 64 \<le> unat n * unat mult" for n
    using checked_mul_None [of n mult] by (cases "checked_mul n mult") auto
  with Pair show ?thesis
    by (cases "parse_u64 (trim num)") (auto simp: parse_size_def)
qed

end
