(* ===== verification/Stream_Parser.thy ===== *)
theory Stream_Parser
  imports Fletcher Guid_Types
begin

unbundle bit_operations_syntax

text \<open>
  \<open>src/stream.rs\<close>: the push parser for \<open>zfs send\<close> streams. \<open>parser\<close> is
  \<open>StreamParser\<close>; an operation on \<open>&mut self\<close> is an \<open>io\<close> over it, so the parser an
  error leaves behind is part of the model. \<open>parse_record\<close> is \<open>record\<close>, split at the
  source's own paragraphs; \<open>feed_loop\<close> is the \<open>while\<close> loop of \<open>feed\<close>. Counters are
  machine words and wrap, as they do in a release build.
\<close>

section \<open>The format\<close>

definition RECORD_LEN :: nat where "RECORD_LEN = 312"
definition CKSUM_OFF :: nat where "CKSUM_OFF = RECORD_LEN - 32"
definition UNION_OFF :: nat where "UNION_OFF = 8"
definition DMU_BACKUP_MAGIC :: u64 where "DMU_BACKUP_MAGIC = 0x2f5bacbac"

datatype record_type =
  RBegin | RObject | RFreeObjects | RWrite | RFree | REnd | RWriteByRef | RSpill
| RWriteEmbedded | RObjectRange | RRedact

definition record_type_from_u32 :: "u32 \<Rightarrow> record_type option" where
  "record_type_from_u32 v =
     (if v = 0 then Some RBegin
      else if v = 1 then Some RObject
      else if v = 2 then Some RFreeObjects
      else if v = 3 then Some RWrite
      else if v = 4 then Some RFree
      else if v = 5 then Some REnd
      else if v = 6 then Some RWriteByRef
      else if v = 7 then Some RSpill
      else if v = 8 then Some RWriteEmbedded
      else if v = 9 then Some RObjectRange
      else if v = 10 then Some RRedact
      else None)"

fun record_type_code :: "record_type \<Rightarrow> u32" where
  "record_type_code RBegin = 0"
| "record_type_code RObject = 1"
| "record_type_code RFreeObjects = 2"
| "record_type_code RWrite = 3"
| "record_type_code RFree = 4"
| "record_type_code REnd = 5"
| "record_type_code RWriteByRef = 6"
| "record_type_code RSpill = 7"
| "record_type_code RWriteEmbedded = 8"
| "record_type_code RObjectRange = 9"
| "record_type_code RRedact = 10"

text \<open>The \<open>DMU_BACKUP_FEATURE_*\<close> table with the names \<open>feature::names\<close> prints.\<close>

definition feature_table :: "(u64 \<times> string) list" where
  "feature_table =
     [(push_bit 0 1, ''dedup''), (push_bit 1 1, ''dedupprops''), (push_bit 2 1, ''sa_spill''),
      (push_bit 16 1, ''embed_data''), (push_bit 17 1, ''lz4''), (push_bit 19 1, ''large_blocks''),
      (push_bit 20 1, ''resuming''), (push_bit 21 1, ''redacted''), (push_bit 22 1, ''compressed''),
      (push_bit 23 1, ''large_dnode''), (push_bit 24 1, ''raw''), (push_bit 25 1, ''zstd''),
      (push_bit 26 1, ''holds''), (push_bit 27 1, ''switch_to_large_blocks''),
      (push_bit 28 1, ''longname'')]"

definition feature_names :: "u64 \<Rightarrow> string list" where
  "feature_names bits = map snd (filter (\<lambda>(b, _). bits AND b \<noteq> 0) feature_table)"

datatype header_type = Substream | Compound

record begin_header =
  bh_header_type :: header_type
  bh_features :: u64
  bh_creation_time :: u64
  bh_objset_type :: u32
  bh_flags :: u32
  bh_to_guid :: guid
  bh_from_guid :: "guid option"
  bh_to_name :: string
  bh_byteswapped :: bool

definition bh_is_raw :: "begin_header \<Rightarrow> bool" where
  "bh_is_raw h \<longleftrightarrow> bh_features h AND push_bit 24 1 \<noteq> 0"

definition bh_has_large_blocks :: "begin_header \<Rightarrow> bool" where
  "bh_has_large_blocks h \<longleftrightarrow> bh_features h AND push_bit 19 1 \<noteq> 0"

record end_record =
  er_checksum :: fletcher4
  er_to_guid :: guid

datatype event = EvBegin begin_header | EvEnd end_record

datatype stream_error =
  BadMagic u64
| NoBegin
| UnknownRecordType u32
| RecordChecksum u64 u64 \<comment> \<open>offset, index\<close>
| EndChecksum u64 fletcher4 fletcher4 \<comment> \<open>offset, expected, actual\<close>
| UnalignedPayload u64
| Truncated u64

record stats =
  st_records :: u64
  st_bytes :: u64
  st_write_bytes :: u64
  st_writes :: u64
  st_objects :: u64
  st_frees :: u64

datatype phase = Header | Payload u64

record parser =
  buf :: bytes
  phase :: phase
  cksum :: fletcher4
  swap :: bool
  started :: bool
  depth :: u32
  stats :: stats
  begin_hdr :: "begin_header option"
  ends :: "end_record list"
  finished :: bool

definition stats_default :: stats where
  "stats_default = \<lparr>st_records = 0, st_bytes = 0, st_write_bytes = 0, st_writes = 0,
     st_objects = 0, st_frees = 0\<rparr>"

definition parser_new :: parser where
  "parser_new = \<lparr>buf = [], phase = Header, cksum = fletcher_zero, swap = False, started = False,
     depth = 0, stats = stats_default, begin_hdr = None, ends = [], finished = False\<rparr>"

section \<open>Payload bytes\<close>

definition checksum_ragged :: "bytes \<Rightarrow> parser \<Rightarrow> parser" where
  "checksum_ragged chunk p =
     (if buf p = [] \<and> length chunk mod 4 = 0
      then p\<lparr>cksum := fletcher_update (cksum p) chunk (swap p)\<rparr>
      else
        (let b = buf p @ chunk; aligned = length b - length b mod 4
         in if 0 < aligned
            then p\<lparr>buf := drop aligned b,
                   cksum := fletcher_update (cksum p) (take aligned b) (swap p)\<rparr>
            else p\<lparr>buf := b\<rparr>))"

text \<open>\<open>while tail.len() % 4 != 0: tail.push(0)\<close>.\<close>

definition pad4 :: "bytes \<Rightarrow> bytes" where
  "pad4 bs = bs @ replicate ((4 - length bs mod 4) mod 4) 0"

definition flush_ragged :: "parser \<Rightarrow> parser" where
  "flush_ragged p =
     (if buf p \<noteq> []
      then p\<lparr>buf := [], cksum := fletcher_update (cksum p) (pad4 (buf p)) (swap p)\<rparr>
      else p)"

section \<open>One record\<close>

definition hdr_u32 :: "parser \<Rightarrow> bytes \<Rightarrow> nat \<Rightarrow> u32" where
  "hdr_u32 p hdr off = read_word (swap p) (subseg off 4 hdr)"

definition hdr_u64 :: "parser \<Rightarrow> bytes \<Rightarrow> nat \<Rightarrow> u64" where
  "hdr_u64 p hdr off = read_u64 (swap p) (subseg off 8 hdr)"

text \<open>Endianness is decided by the very first BEGIN's magic.\<close>

definition start_stream :: "bytes \<Rightarrow> (parser, stream_error, unit) io" where
  "start_stream hdr p =
     (if started p then (Inr (), p)
      else
        (let magic_le = u64_from_le_bytes (subseg UNION_OFF 8 hdr);
             magic_be = u64_from_be_bytes (subseg UNION_OFF 8 hdr)
         in if magic_le = DMU_BACKUP_MAGIC \<or> magic_be = DMU_BACKUP_MAGIC
            then
              (let p1 = p\<lparr>swap := magic_le \<noteq> DMU_BACKUP_MAGIC\<rparr>
               in if hdr_u32 p1 hdr 0 \<noteq> record_type_code RBegin then (Inl NoBegin, p1)
                  else (Inr (), p1\<lparr>started := True\<rparr>))
            else (Inl (BadMagic magic_le), p)))"

text \<open>The checksum discipline of \<open>dump_record\<close>, then the counters.\<close>

definition check_header :: "record_type \<Rightarrow> bytes \<Rightarrow> (parser, stream_error, unit) io" where
  "check_header rtype hdr p =
     (let p1 = p\<lparr>cksum := fletcher_update (cksum p) (take CKSUM_OFF hdr) (swap p)\<rparr>;
          embedded = from_stream_bytes (drop CKSUM_OFF hdr) (swap p)
      in if rtype \<noteq> RBegin \<and> \<not> fletcher_is_zero embedded \<and> embedded \<noteq> cksum p1
         then (Inl (RecordChecksum (st_bytes (stats p)) (st_records (stats p))), p1)
         else (Inr (),
           p1\<lparr>cksum := fletcher_update (cksum p1) (drop CKSUM_OFF hdr) (swap p),
              stats := (stats p)\<lparr>st_records := st_records (stats p) + 1,
                                 st_bytes := st_bytes (stats p) + of_nat RECORD_LEN\<rparr>\<rparr>))"

text \<open>
  \<open>String::from_utf8_lossy\<close>: a well-formed sequence is kept, a maximal ill-formed prefix of
  one becomes U+FFFD. \<open>utf8_len\<close> gives whether the sequence that starts here is well-formed
  and how many bytes after the first belong to it.
\<close>

definition in_range :: "nat \<Rightarrow> nat \<Rightarrow> u8 list \<Rightarrow> nat \<Rightarrow> bool" where
  "in_range lo hi bs i \<longleftrightarrow> i < length bs \<and> lo \<le> unat (bs ! i) \<and> unat (bs ! i) \<le> hi"

definition utf8_len :: "u8 \<Rightarrow> bytes \<Rightarrow> bool \<times> nat" where
  "utf8_len b0 bs =
     (let b = unat b0; cont = in_range 0x80 0xBF bs;
          second = (if b = 0xE0 then in_range 0xA0 0xBF bs
                    else if b = 0xED then in_range 0x80 0x9F bs
                    else if b = 0xF0 then in_range 0x90 0xBF bs
                    else if b = 0xF4 then in_range 0x80 0x8F bs
                    else cont)
      in if b < 0x80 then (True, 0)
         else if 0xC2 \<le> b \<and> b \<le> 0xDF then (if cont 0 then (True, 1) else (False, 0))
         else if 0xE0 \<le> b \<and> b \<le> 0xEF then
           (if \<not> second 0 then (False, 0) else if cont 1 then (True, 2) else (False, 1))
         else if 0xF0 \<le> b \<and> b \<le> 0xF4 then
           (if \<not> second 0 then (False, 0) else if \<not> cont 1 then (False, 1)
            else if cont 2 then (True, 3) else (False, 2))
         else (False, 0))"

function utf8_lossy :: "bytes \<Rightarrow> bytes" where
  "utf8_lossy [] = []"
| "utf8_lossy (b # bs) =
     (case utf8_len b bs of (ok, n) \<Rightarrow>
        (if ok then b # take n bs else [0xEF, 0xBF, 0xBD]) @ utf8_lossy (drop n bs))"
  by pat_completeness auto
termination
  by (relation "measure length") auto

definition string_of_bytes :: "bytes \<Rightarrow> string" where
  "string_of_bytes bs = map (\<lambda>b. char_of (unat b)) bs"

definition decode_begin :: "parser \<Rightarrow> bytes \<Rightarrow> begin_header" where
  "decode_begin p u =
     (let versioninfo = hdr_u64 p u 8;
          from = hdr_u64 p u 40;
          name_raw = subseg 48 256 u
      in \<lparr>bh_header_type = (if versioninfo AND 0x3 = 2 then Compound else Substream),
          bh_features = drop_bit 2 versioninfo AND 0x3fffffff,
          bh_creation_time = hdr_u64 p u 16,
          bh_objset_type = hdr_u32 p u 24,
          bh_flags = hdr_u32 p u 28,
          bh_to_guid = Guid (hdr_u64 p u 32),
          bh_from_guid = (if from \<noteq> 0 then Some (Guid from) else None),
          bh_to_name = string_of_bytes (utf8_lossy (takeWhile (\<lambda>b. b \<noteq> 0) name_raw)),
          bh_byteswapped = swap p\<rparr>)"

definition begin_payload :: "bytes \<Rightarrow> u64 \<Rightarrow> (parser, stream_error, event option \<times> u64) io" where
  "begin_payload u payloadlen p =
     (let bh = decode_begin p u
      in (Inr (Some (EvBegin bh), payloadlen),
          p\<lparr>begin_hdr := (case begin_hdr p of None \<Rightarrow> Some bh | Some b \<Rightarrow> Some b),
            depth := depth p + 1\<rparr>))"

definition end_payload ::
  "bytes \<Rightarrow> u64 \<Rightarrow> fletcher4 \<Rightarrow> (parser, stream_error, event option \<times> u64) io" where
  "end_payload u offset before p =
     (let e = \<lparr>er_checksum = from_stream_bytes (take 32 u) (swap p),
               er_to_guid = Guid (hdr_u64 p u 32)\<rparr>
      in if \<not> fletcher_is_zero (er_checksum e) \<and> er_checksum e \<noteq> before
         then (Inl (EndChecksum offset (er_checksum e) before), p)
         else
           (let d = depth p - (if depth p = 0 then 0 else 1)
            in (Inr (Some (EvEnd e), 0),
                p\<lparr>ends := ends p @ [e], depth := d, finished := (d = 0 \<or> finished p)\<rparr>)))"

definition round_up8 :: "u64 \<Rightarrow> u64" where
  "round_up8 n = (n + 7) AND NOT 7"

text \<open>The payload length by record type, and the counters the type bumps.\<close>

definition record_payload ::
  "record_type \<Rightarrow> bytes \<Rightarrow> u64 \<Rightarrow> u64 \<Rightarrow> fletcher4 \<Rightarrow> (parser, stream_error, event option \<times> u64) io"
where
  "record_payload rtype u payloadlen offset before p =
     (let st = stats p in
      case rtype of
        RBegin \<Rightarrow> begin_payload u payloadlen p
      | REnd \<Rightarrow> end_payload u offset before p
      | RObject \<Rightarrow>
          (let bonuslen = ucast (hdr_u32 p u 20); raw_bonuslen = ucast (hdr_u32 p u 28)
           in (Inr (None, if raw_bonuslen \<noteq> 0 then raw_bonuslen else round_up8 bonuslen),
               p\<lparr>stats := st\<lparr>st_objects := st_objects st + 1\<rparr>\<rparr>))
      | RWrite \<Rightarrow>
          (let logical = hdr_u64 p u 24; compressed = hdr_u64 p u 88;
               n = (if compressed \<noteq> 0 then compressed else logical)
           in (Inr (None, n),
               p\<lparr>stats := st\<lparr>st_writes := st_writes st + 1,
                             st_write_bytes := st_write_bytes st + n\<rparr>\<rparr>))
      | RSpill \<Rightarrow>
          (let len = hdr_u64 p u 8; compressed = hdr_u64 p u 40
           in (Inr (None, if compressed \<noteq> 0 then compressed else len), p))
      | RWriteEmbedded \<Rightarrow> (Inr (None, round_up8 (ucast (hdr_u32 p u 44))), p)
      | RFree \<Rightarrow> (Inr (None, 0), p\<lparr>stats := st\<lparr>st_frees := st_frees st + 1\<rparr>\<rparr>)
      | RFreeObjects \<Rightarrow> (Inr (None, 0), p\<lparr>stats := st\<lparr>st_frees := st_frees st + 1\<rparr>\<rparr>)
      | _ \<Rightarrow> (Inr (None, 0), p))"

definition set_phase :: "event option \<times> u64 \<Rightarrow> (parser, stream_error, event option) io" where
  "set_phase r p =
     (case r of (ev, payload) \<Rightarrow>
        if payload mod 4 \<noteq> 0 then (Inl (UnalignedPayload payload), p)
        else (Inr ev, p\<lparr>phase := (if 0 < payload then Payload payload else Header)\<rparr>))"

definition parse_record :: "bytes \<Rightarrow> (parser, stream_error, event option) io" where
  "parse_record hdr p0 =
     (let offset = st_bytes (stats p0) in
      bind_io (start_stream hdr) (\<lambda>_ p.
        case record_type_from_u32 (hdr_u32 p hdr 0) of
          None \<Rightarrow> (Inl (UnknownRecordType (hdr_u32 p hdr 0)), p)
        | Some rtype \<Rightarrow>
            (let payloadlen = ucast (hdr_u32 p hdr 4); u = drop UNION_OFF hdr
             in bind_io (check_header rtype hdr)
                  (\<lambda>_. bind_io (record_payload rtype u payloadlen offset (cksum p)) set_phase) p))
        p0)"

section \<open>Feeding and finishing\<close>

text \<open>The two arms of the loop body; each returns the data it leaves.\<close>

definition feed_payload :: "u64 \<Rightarrow> bytes \<Rightarrow> parser \<Rightarrow> bytes \<times> parser" where
  "feed_payload remaining data p =
     (let n = min (unat remaining) (length data);
          p1 = checksum_ragged (take n data) p;
          p2 = p1\<lparr>stats := (stats p1)\<lparr>st_bytes := st_bytes (stats p1) + of_nat n\<rparr>\<rparr>;
          rest = remaining - of_nat n
      in (drop n data,
          if rest = 0 then (flush_ragged p2)\<lparr>phase := Header\<rparr> else p2\<lparr>phase := Payload rest\<rparr>))"

definition fill_header :: "bytes \<Rightarrow> parser \<Rightarrow> bytes \<times> parser" where
  "fill_header data p =
     (let n = min (RECORD_LEN - length (buf p)) (length data)
      in (drop n data, p\<lparr>buf := buf p @ take n data\<rparr>))"

lemma start_stream_buf: "start_stream hdr p = (r, q) \<Longrightarrow> buf q = buf p"
  by (auto simp: start_stream_def Let_def split: if_splits)

lemma check_header_buf: "check_header t hdr p = (r, q) \<Longrightarrow> buf q = buf p"
  by (auto simp: check_header_def Let_def split: if_splits)

lemma record_payload_buf: "record_payload t u l off bef p = (r, q) \<Longrightarrow> buf q = buf p"
  by (cases t) (auto simp: record_payload_def begin_payload_def end_payload_def Let_def split: if_splits)

lemma set_phase_buf: "set_phase x p = (r, q) \<Longrightarrow> buf q = buf p"
  by (auto simp: set_phase_def split: prod.splits if_splits)

lemma bind_io_buf:
  assumes "bind_io m f p = (r, q)" "\<And>s p'. m p = (s, p') \<Longrightarrow> buf p' = buf p"
    "\<And>x s p' q'. f x p' = (s, q') \<Longrightarrow> buf q' = buf p'"
  shows "buf q = buf p"
proof (cases "m p")
  case (Pair s p')
  show ?thesis
  proof (cases s)
    case (Inl e)
    with assms(1) Pair have "q = p'" by (simp add: bind_io_def)
    with assms(2) Pair show ?thesis by simp
  next
    case (Inr x)
    with assms(1) Pair have "f x p' = (r, q)" by (simp add: bind_io_def)
    then have "buf q = buf p'" by (rule assms(3))
    with assms(2) Pair show ?thesis by simp
  qed
qed

lemma parse_record_buf:
  assumes "parse_record hdr p = (r, q)"
  shows "buf q = buf p"
proof -
  have tail: "buf q' = buf p'"
    if "bind_io (record_payload t u l off bef) set_phase p' = (s, q')" for t u l off bef p' s q'
    using that by (rule bind_io_buf) (simp_all add: record_payload_buf set_phase_buf)
  have rest: "buf q' = buf p'"
    if "bind_io (check_header t hdr) (\<lambda>_. bind_io (record_payload t u l off bef) set_phase) p' = (s, q')"
    for t u l off bef p' s q'
    using that by (rule bind_io_buf) (simp_all add: check_header_buf tail)
  show ?thesis
    using assms [unfolded parse_record_def Let_def]
    by (rule bind_io_buf) (auto simp: start_stream_buf rest split: option.splits)
qed

lemma feed_payload_0: "feed_payload 0 data p = (rest, q) \<Longrightarrow> rest = data \<and> buf q = [] \<and> phase q = Header"
  by (auto simp: feed_payload_def Let_def flush_ragged_def)

lemma feed_payload_shorter:
  "feed_payload r data p = (rest, q) \<Longrightarrow> data \<noteq> [] \<Longrightarrow> r \<noteq> 0 \<Longrightarrow> length rest < length data"
  by (auto simp: feed_payload_def Let_def unat_pos)

function feed_loop :: "bytes \<Rightarrow> event list \<Rightarrow> (parser, stream_error, event list) io" where
  "feed_loop data events p =
     (if data = [] then (Inr events, p)
      else case phase p of
        Payload remaining \<Rightarrow>
          (case feed_payload remaining data p of (rest, q) \<Rightarrow> feed_loop rest events q)
      | Header \<Rightarrow>
          (case fill_header data p of (rest, q) \<Rightarrow>
             if length (buf q) < RECORD_LEN then (Inr events, q)
             else
               (case parse_record (take RECORD_LEN (buf q))
                       (q\<lparr>buf := drop RECORD_LEN (buf q)\<rparr>) of
                  (Inl e, q') \<Rightarrow> (Inl e, q')
                | (Inr ev, q') \<Rightarrow>
                    feed_loop rest (case ev of None \<Rightarrow> events | Some x \<Rightarrow> events @ [x]) q')))"
  by pat_completeness auto
termination
proof (relation "measures [\<lambda>(d, e, p). length d, \<lambda>(d, e, p). length (buf p),
    \<lambda>(d, e, p). if phase p = Header then 0 else 1]")
  fix data events p remaining rest q
  assume "data \<noteq> []" "phase p = Payload remaining" "(rest, q) = feed_payload remaining data p"
  then show "((rest, events, q), data, events, p) \<in> measures [\<lambda>(d, e, p). length d,
      \<lambda>(d, e, p). length (buf p), \<lambda>(d, e, p). if phase p = Header then 0 else 1]"
    using feed_payload_0 [of data p rest q] feed_payload_shorter [of remaining data p rest q]
    by (cases "remaining = 0") auto
next
  fix data events p rest q res q' ev
  assume h: "data \<noteq> []" "phase p = Header" "(rest, q) = fill_header data p"
    "\<not> length (buf q) < RECORD_LEN"
    "(res, q') = parse_record (take RECORD_LEN (buf q)) (q\<lparr>buf := drop RECORD_LEN (buf q)\<rparr>)"
    "res = Inr ev"
  have "buf q' = drop RECORD_LEN (buf q)"
    using parse_record_buf [OF h(5) [symmetric]] by simp
  moreover have "length rest < length data \<or> (rest = data \<and> buf q = buf p)"
    using h(1,3)
    by (cases "length (buf p) < RECORD_LEN") (auto simp: fill_header_def Let_def)
  ultimately show "((rest, case ev of None \<Rightarrow> events | Some x \<Rightarrow> events @ [x], q'), data, events, p)
     \<in> measures [\<lambda>(d, e, p). length d, \<lambda>(d, e, p). length (buf p),
        \<lambda>(d, e, p). if phase p = Header then 0 else 1]"
    using h(4) by (auto simp: RECORD_LEN_def)
qed auto

declare feed_loop.simps [simp del]

definition feed :: "bytes \<Rightarrow> (parser, stream_error, event list) io" where
  "feed data = feed_loop data []"

definition parser_finish :: "parser \<Rightarrow> stream_error + unit" where
  "parser_finish p =
     (if phase p = Header \<and> buf p = [] then Inr () else Inl (Truncated (st_bytes (stats p))))"

end
