(* ===== verification/Stream_Laws.thy ===== *)
theory Stream_Laws
  imports Stream_Parser
begin

text \<open>
  What the stream parser promises. \<open>parser_ok\<close> is its well-formedness invariant: in the
  header phase fewer than 312 bytes are buffered, in the payload phase at most three, and the
  bytes still to come complete the last word. Every operation keeps it, so the padding branch
  of \<open>flush_ragged\<close> never runs. From it follow the independence of the slicing of the
  input (\<open>feed_loop_append\<close>), the byte accounting, and the detection of a changed word.
\<close>

definition parser_ok :: "parser \<Rightarrow> bool" where
  "parser_ok p \<longleftrightarrow>
     (case phase p of
        Header \<Rightarrow> length (buf p) < RECORD_LEN
      | Payload r \<Rightarrow> r \<noteq> 0 \<and> length (buf p) < 4 \<and> 4 dvd unat r + length (buf p))"

lemma parser_ok_new: "parser_ok parser_new"
  by (simp add: parser_ok_def parser_new_def RECORD_LEN_def)

section \<open>Ragged slices of a payload\<close>

text \<open>The number of bytes of whole words among \<open>n\<close>.\<close>

definition whole :: "nat \<Rightarrow> nat" where
  "whole n = n - n mod 4"

lemma whole_le [simp]: "whole n \<le> n"
  by (simp add: whole_def)

lemma four_dvd_whole [simp]: "4 dvd whole n"
  by (simp add: whole_def dvd_minus_mod)

lemma whole_add: "whole m + whole (m - whole m + n) = whole (m + n)"
proof -
  have k: "(m mod 4 + n) mod 4 = (m + n) mod 4" by (simp add: mod_simps)
  have "m - whole m = m mod 4" by (simp add: whole_def)
  then have "whole m + whole (m - whole m + n) = m - m mod 4 + (m mod 4 + n - (m + n) mod 4)"
    by (simp add: whole_def k)
  moreover have "(m + n) mod 4 \<le> m mod 4 + n" using k by (metis mod_less_eq_dividend)
  moreover have "m mod 4 \<le> m" by simp
  ultimately show ?thesis by (simp add: whole_def)
qed

lemma whole_eq: "4 dvd n \<Longrightarrow> whole n = n"
  by (simp add: whole_def)

lemma whole_rest: "n - whole n = n mod 4"
  by (simp add: whole_def)

lemma checksum_ragged_eq:
  "checksum_ragged c p =
     p\<lparr>buf := drop (whole (length (buf p @ c))) (buf p @ c),
       cksum := fletcher_update (cksum p) (take (whole (length (buf p @ c))) (buf p @ c)) (swap p)\<rparr>"
  by (cases p) (auto simp: checksum_ragged_def Let_def whole_eq whole_def [symmetric])

lemma checksum_ragged_append:
  "checksum_ragged d (checksum_ragged c p) = checksum_ragged (c @ d) p"
proof -
  let ?t = "buf p @ c"
  let ?n = "whole (length ?t)"
  let ?s = "drop ?n ?t @ d"
  let ?m = "whole (length ?s)"
  have len: "?n + ?m = whole (length (?t @ d))"
    using whole_add [of "length ?t" "length d"] by (simp only: length_append length_drop add.assoc)
  have split: "take (?n + ?m) (?t @ d) = take ?n ?t @ take ?m ?s"
    "drop (?n + ?m) (?t @ d) = drop ?m ?s"
  proof -
    have eq: "?t @ d = take ?n ?t @ ?s" by (metis append.assoc append_take_drop_id)
    have l: "length (take ?n ?t) = ?n" by (simp only: length_take min_absorb2 whole_le)
    show "take (?n + ?m) (?t @ d) = take ?n ?t @ take ?m ?s"
      unfolding eq using l by (simp only: take_append) simp
    show "drop (?n + ?m) (?t @ d) = drop ?m ?s"
      unfolding eq using l by (simp only: drop_append) simp
  qed
  have "4 dvd length (take ?n ?t)" by (simp only: length_take min_absorb2 whole_le four_dvd_whole)
  then have "fletcher_update (fletcher_update f (take ?n ?t) sw) (take ?m ?s) sw
      = fletcher_update f (take (?n + ?m) (?t @ d)) sw" for f sw
    by (simp only: fletcher_update_append split)
  then show ?thesis
    unfolding checksum_ragged_eq using split len by simp
qed

lemma checksum_ragged_Nil: "length (buf p) < 4 \<Longrightarrow> checksum_ragged [] p = p"
  by (simp add: checksum_ragged_eq whole_def)

text \<open>\<open>checksum_ragged\<close> touches the buffer and the checksum only.\<close>

lemma checksum_ragged_frame [simp]:
  "phase (checksum_ragged c p) = phase p" "swap (checksum_ragged c p) = swap p"
  "started (checksum_ragged c p) = started p" "depth (checksum_ragged c p) = depth p"
  "stats (checksum_ragged c p) = stats p" "begin_hdr (checksum_ragged c p) = begin_hdr p"
  "ends (checksum_ragged c p) = ends p" "finished (checksum_ragged c p) = finished p"
  by (simp_all add: checksum_ragged_eq)

lemma checksum_ragged_stats:
  "checksum_ragged c (p\<lparr>stats := s, phase := ph\<rparr>) = (checksum_ragged c p)\<lparr>stats := s, phase := ph\<rparr>"
  by (simp add: checksum_ragged_eq)

lemma length_buf_ragged: "length (buf (checksum_ragged c p)) = length (buf p @ c) mod 4"
  using whole_rest [of "length (buf p @ c)"] by (simp add: checksum_ragged_eq)

text \<open>In a well-formed parser the payload ends on a word: \<open>flush_ragged\<close> finds nothing.\<close>

lemma ragged_complete:
  assumes "parser_ok p" "phase p = Payload r" "length c = unat r"
  shows "buf (checksum_ragged c p) = []"
proof -
  have "4 dvd length (buf p @ c)" using assms by (simp add: parser_ok_def add.commute)
  then have "length (buf (checksum_ragged c p)) = 0"
    unfolding length_buf_ragged by (simp add: dvd_eq_mod_eq_0)
  then show ?thesis by simp
qed

section \<open>The payload arm of the loop\<close>

definition bump_bytes :: "nat \<Rightarrow> parser \<Rightarrow> parser" where
  "bump_bytes n p = p\<lparr>stats := (stats p)\<lparr>st_bytes := st_bytes (stats p) + of_nat n\<rparr>\<rparr>"

lemma unat_minus_of_nat: "n \<le> unat r \<Longrightarrow> unat (r - of_nat n) = unat r - n" for r :: u64
proof -
  assume n: "n \<le> unat r"
  then have "n < 2 ^ 64" using unsigned_less [of r, where 'a = nat] by simp
  then have "unat (of_nat n :: u64) = n" by (rule unat_of_nat_u64)
  with n show ?thesis by (simp add: unat_sub word_le_nat_alt)
qed

lemma feed_payload_full:
  assumes "parser_ok p" "phase p = Payload r" "unat r \<le> length data"
  shows "feed_payload r data p =
    (drop (unat r) data,
     (bump_bytes (unat r) (checksum_ragged (take (unat r) data) p))\<lparr>phase := Header\<rparr>)"
proof -
  have "buf (checksum_ragged (take (unat r) data) p) = []"
    using assms by (intro ragged_complete) auto
  with assms(3) show ?thesis
    by (simp add: feed_payload_def Let_def flush_ragged_def bump_bytes_def min_absorb1)
qed

lemma feed_payload_part:
  assumes "phase p = Payload r" "length data < unat r"
  shows "feed_payload r data p =
    ([], (bump_bytes (length data) (checksum_ragged data p))
           \<lparr>phase := Payload (r - of_nat (length data))\<rparr>)"
proof -
  have "unat (r - of_nat (length data)) \<noteq> 0"
    using assms(2) by (simp add: unat_minus_of_nat)
  then have "r - of_nat (length data) \<noteq> 0" by auto
  with assms(2) show ?thesis
    by (simp add: feed_payload_def Let_def bump_bytes_def min_absorb2)
qed

lemma parser_ok_part:
  assumes "parser_ok p" "phase p = Payload r" "length data < unat r"
  shows "parser_ok ((bump_bytes (length data) (checksum_ragged data p))
           \<lparr>phase := Payload (r - of_nat (length data))\<rparr>)"
proof -
  have u: "unat (r - of_nat (length data)) = unat r - length data"
    using assms(3) by (simp add: unat_minus_of_nat)
  then have "r - of_nat (length data) \<noteq> 0" using assms(3) by auto
  moreover have "4 dvd unat r + length (buf p)" using assms by (simp add: parser_ok_def)
  then have "4 dvd (unat r - length data) + (length (buf p) + length data) mod 4"
    using assms(3) by presburger
  ultimately show ?thesis
    by (simp add: parser_ok_def bump_bytes_def length_buf_ragged u)
qed

lemma parser_ok_full:
  assumes "parser_ok p" "phase p = Payload r" "length c = unat r"
  shows "parser_ok ((bump_bytes n (checksum_ragged c p))\<lparr>phase := Header\<rparr>)"
  using ragged_complete [OF assms] by (simp add: parser_ok_def bump_bytes_def RECORD_LEN_def)

text \<open>A payload slice split in two is the same as the whole slice.\<close>

lemma feed_payload_split:
  assumes ok: "parser_ok p" and ph: "phase p = Payload r" and lt: "length xs < unat r"
  defines "q \<equiv> (bump_bytes (length xs) (checksum_ragged xs p))
                 \<lparr>phase := Payload (r - of_nat (length xs))\<rparr>"
  shows "feed_payload (r - of_nat (length xs)) ys q = feed_payload r (xs @ ys) p"
proof -
  let ?r' = "r - of_nat (length xs)"
  have q: "parser_ok q" "phase q = Payload ?r'"
    using parser_ok_part [OF ok ph lt] by (simp_all add: q_def)
  have u: "unat ?r' = unat r - length xs" using lt by (simp add: unat_minus_of_nat)
  have rag: "checksum_ragged c q = (bump_bytes (length xs) (checksum_ragged (xs @ c) p))
      \<lparr>phase := Payload ?r'\<rparr>" for c
    by (simp add: q_def bump_bytes_def checksum_ragged_stats checksum_ragged_append)
  have st: "(of_nat (length xs) :: u64) + of_nat (unat r - length xs) = of_nat (unat r)"
    using lt by (metis less_imp_le of_nat_add le_add_diff_inverse)
  show ?thesis
  proof (cases "length (xs @ ys) < unat r")
    case True
    then have "length ys < unat ?r'" using u by simp
    from feed_payload_part [OF q(2) this] feed_payload_part [OF ph True] show ?thesis
      by (simp add: rag bump_bytes_def algebra_simps)
  next
    case False
    then have le: "unat r \<le> length (xs @ ys)" "unat ?r' \<le> length ys" using u by simp_all
    have tk: "take (unat r) (xs @ ys) = xs @ take (unat r - length xs) ys" using lt by simp
    have dr: "drop (unat r) (xs @ ys) = drop (unat r - length xs) ys" using lt by simp
    have "feed_payload ?r' ys q = (drop (unat r - length xs) ys,
        (bump_bytes (unat r - length xs)
           (checksum_ragged (take (unat r - length xs) ys) q))\<lparr>phase := Header\<rparr>)"
      using feed_payload_full [OF q le(2)] by (simp only: u)
    also have "\<dots> = (drop (unat r) (xs @ ys),
        (bump_bytes (unat r) (checksum_ragged (take (unat r) (xs @ ys)) p))\<lparr>phase := Header\<rparr>)"
      unfolding rag tk dr using st by (simp add: bump_bytes_def add.assoc)
    finally show ?thesis using feed_payload_full [OF ok ph le(1)] by simp
  qed
qed

section \<open>The loop, one step at a time\<close>

lemma four_dvd_unat:
  fixes w :: u64
  assumes "w mod 4 = 0"
  shows "4 dvd unat w"
proof -
  have "unat (w mod 4) = unat w mod 4" by (simp add: unat_mod)
  with assms have "unat w mod 4 = 0" by simp
  then show ?thesis by (rule dvd_eq_mod_eq_0 [THEN iffD2])
qed

lemma set_phase_ok:
  assumes "set_phase x p = (Inr ev, q)" "buf p = []"
  shows "parser_ok q"
proof -
  from assms(1) have "snd x mod 4 = 0"
    "q = p\<lparr>phase := (if 0 < snd x then Payload (snd x) else Header)\<rparr>"
    by (auto simp: set_phase_def simp del: mod_eq_0_iff_dvd split: prod.splits if_splits)
  with assms(2) four_dvd_unat [of "snd x"] show ?thesis
    by (auto simp: parser_ok_def RECORD_LEN_def)
qed

lemma parse_record_ok:
  assumes "parse_record hdr p = (Inr ev, q)" "buf p = []"
  shows "parser_ok q"
proof -
  have "buf q = []" using parse_record_buf [OF assms(1)] assms(2) by simp
  from assms(1) obtain x p' where "set_phase x p' = (Inr ev, q)"
    by (auto simp: parse_record_def Let_def bind_io_Inr split: option.splits)
  moreover from set_phase_buf [OF this] have "buf p' = []" using \<open>buf q = []\<close> by simp
  ultimately show ?thesis by (rule set_phase_ok)
qed

definition add_event :: "event list \<Rightarrow> event option \<Rightarrow> event list" where
  "add_event events ev = (case ev of None \<Rightarrow> events | Some x \<Rightarrow> events @ [x])"

definition after_record ::
  "bytes \<Rightarrow> event list \<Rightarrow> (stream_error + event option) \<times> parser \<Rightarrow> (stream_error + event list) \<times> parser"
where
  "after_record rest events r =
     (case r of (Inl e, q) \<Rightarrow> (Inl e, q) | (Inr ev, q) \<Rightarrow> feed_loop rest (add_event events ev) q)"

lemma feed_loop_Nil [simp]: "feed_loop [] events p = (Inr events, p)"
  by (simp add: feed_loop.simps)

lemma feed_loop_payload:
  "data \<noteq> [] \<Longrightarrow> phase p = Payload r \<Longrightarrow> feed_payload r data p = (rest, q) \<Longrightarrow>
   feed_loop data events p = feed_loop rest events q"
  by (subst feed_loop.simps) simp

lemma feed_loop_header_part:
  assumes "phase p = Header" "length (buf p) + length data < RECORD_LEN"
  shows "feed_loop data events p = (Inr events, p\<lparr>buf := buf p @ data\<rparr>)"
  using assms by (subst feed_loop.simps) (auto simp: fill_header_def Let_def min_absorb2)

lemma feed_loop_header_full:
  assumes "phase p = Header" "length (buf p) < RECORD_LEN" "n = RECORD_LEN - length (buf p)"
    "n \<le> length data"
  shows "feed_loop data events p =
    after_record (drop n data) events (parse_record (buf p @ take n data) (p\<lparr>buf := []\<rparr>))"
proof -
  have "data \<noteq> []" using assms by auto
  moreover have "length (buf p @ take n data) = RECORD_LEN" using assms by simp
  ultimately show ?thesis
    using assms by (subst feed_loop.simps)
      (auto simp: fill_header_def Let_def min_absorb1 after_record_def add_event_def
        simp del: take_append drop_append split: prod.split sum.split)
qed

text \<open>The cases of a non-empty slice, as the proofs below use them.\<close>

lemma feed_cases [consumes 1, case_names header_part header_full payload_part payload_full]:
  assumes "parser_ok p"
    and "phase p = Header \<Longrightarrow> length (buf p) + length data < RECORD_LEN \<Longrightarrow> P"
    and "\<And>n. phase p = Header \<Longrightarrow> length (buf p) < RECORD_LEN \<Longrightarrow>
           n = RECORD_LEN - length (buf p) \<Longrightarrow> n \<le> length data \<Longrightarrow> 0 < n \<Longrightarrow> P"
    and "\<And>r. phase p = Payload r \<Longrightarrow> length data < unat r \<Longrightarrow> P"
    and "\<And>r. phase p = Payload r \<Longrightarrow> 0 < unat r \<Longrightarrow> unat r \<le> length data \<Longrightarrow> P"
  shows P
proof (cases "phase p")
  case Header
  then have "length (buf p) < RECORD_LEN" using assms(1) by (simp add: parser_ok_def)
  with Header assms(2) assms(3) [of "RECORD_LEN - length (buf p)"] show ?thesis by fastforce
next
  case (Payload r)
  then have "0 < unat r" using assms(1) by (simp add: parser_ok_def unat_pos)
  with Payload assms(4,5) show ?thesis by (meson not_le)
qed

section \<open>Slicing independence\<close>

lemma feed_loop_append:
  "parser_ok p \<Longrightarrow>
   feed_loop (xs @ ys) events p =
     (case feed_loop xs events p of
        (Inl e, q) \<Rightarrow> (Inl e, q)
      | (Inr evs, q) \<Rightarrow> feed_loop ys evs q)"
proof (induction xs arbitrary: events p rule: length_induct)
  case (1 xs)
  note IH = "1.IH" [rule_format]
  show ?case
  proof (cases "xs = [] \<or> ys = []")
    case True
    then show ?thesis
      by (cases "feed_loop xs events p"; cases "fst (feed_loop xs events p)") auto
  next
    case False
    from \<open>parser_ok p\<close> show ?thesis
    proof (cases rule: feed_cases [where data = xs])
      case header_part
      let ?q = "p\<lparr>buf := buf p @ xs\<rparr>"
      have xs: "feed_loop xs events p = (Inr events, ?q)"
        using header_part by (rule feed_loop_header_part)
      show ?thesis
      proof (cases "length (buf p) + length (xs @ ys) < RECORD_LEN")
        case True
        with header_part(1) xs show ?thesis by (simp add: feed_loop_header_part)
      next
        case ge: False
        let ?n = "RECORD_LEN - length (buf p)"
        let ?m = "RECORD_LEN - length (buf ?q)"
        have n: "?n \<le> length (xs @ ys)" "?m \<le> length ys" "length xs \<le> ?n" "?n - length xs = ?m"
          using ge header_part(2) by auto
        have "feed_loop (xs @ ys) events p = after_record (drop ?m ys) events
            (parse_record (buf p @ xs @ take ?m ys) (p\<lparr>buf := []\<rparr>))"
          using feed_loop_header_full [OF header_part(1) _ refl n(1), of events] header_part(2) n(3,4)
          by simp
        also have "\<dots> = feed_loop ys events ?q"
          using feed_loop_header_full [OF _ _ refl n(2), of events] header_part by simp
        finally show ?thesis by (simp add: xs)
      qed
    next
      case (header_full n)
      let ?r = "parse_record (buf p @ take n xs) (p\<lparr>buf := []\<rparr>)"
      have full: "feed_loop xs events p = after_record (drop n xs) events ?r"
        using header_full(1-4) by (rule feed_loop_header_full)
      have "feed_loop (xs @ ys) events p = after_record (drop n xs @ ys) events ?r"
        using feed_loop_header_full [OF header_full(1-3), of "xs @ ys" events] header_full(4) by simp
      moreover have "length (drop n xs) < length xs" using header_full(4,5) by simp
      moreover have "parser_ok q" if "?r = (Inr ev, q)" for ev q
        using that by (rule parse_record_ok) simp
      ultimately show ?thesis
        using IH full by (auto simp: after_record_def split: prod.splits sum.splits)
    next
      case (payload_part r)
      let ?q = "(bump_bytes (length xs) (checksum_ragged xs p))
                  \<lparr>phase := Payload (r - of_nat (length xs))\<rparr>"
      have xs: "feed_loop xs events p = (Inr events, ?q)"
        using feed_loop_payload [OF _ payload_part(1) feed_payload_part [OF payload_part]] False
        by simp
      obtain rest q' where
        step: "feed_payload (r - of_nat (length xs)) ys ?q = (rest, q')" by fastforce
      then have step': "feed_payload r (xs @ ys) p = (rest, q')"
        using feed_payload_split [OF \<open>parser_ok p\<close> payload_part] by simp
      have "feed_loop ys events ?q = feed_loop rest events q'"
        using False by (intro feed_loop_payload [OF _ _ step]) simp_all
      moreover have "feed_loop (xs @ ys) events p = feed_loop rest events q'"
        using False by (intro feed_loop_payload [OF _ payload_part(1) step']) simp
      ultimately show ?thesis using xs by simp
    next
      case (payload_full r)
      let ?q = "(bump_bytes (unat r) (checksum_ragged (take (unat r) xs) p))\<lparr>phase := Header\<rparr>"
      have ok: "parser_ok ?q"
        using payload_full by (intro parser_ok_full [OF \<open>parser_ok p\<close>]) auto
      have xs: "feed_loop xs events p = feed_loop (drop (unat r) xs) events ?q"
        using feed_loop_payload [OF _ payload_full(1)
            feed_payload_full [OF \<open>parser_ok p\<close> payload_full(1,3)]] False
        by simp
      have "unat r \<le> length (xs @ ys)" using payload_full(3) by simp
      from feed_payload_full [OF \<open>parser_ok p\<close> payload_full(1) this]
      have "feed_loop (xs @ ys) events p = feed_loop (drop (unat r) xs @ ys) events ?q"
        using feed_loop_payload [of "xs @ ys" p r _ _ events, OF _ payload_full(1)] False
          payload_full(3)
        by simp
      also have "\<dots> = (case feed_loop (drop (unat r) xs) events ?q of
          (Inl e, q) \<Rightarrow> (Inl e, q) | (Inr evs, q) \<Rightarrow> feed_loop ys evs q)"
        using payload_full(2,3) by (intro IH ok) auto
      finally show ?thesis by (simp add: xs)
    qed
  qed
qed

lemma feed_loop_prefix:
  "feed_loop data (pre @ events) p =
     (case feed_loop data events p of
        (Inl e, q) \<Rightarrow> (Inl e, q)
      | (Inr evs, q) \<Rightarrow> (Inr (pre @ evs), q))"
proof (induction data events p rule: feed_loop.induct)
  case (1 data events p)
  show ?case
  proof (cases "data = []")
    case False
    show ?thesis
    proof (cases "phase p")
      case (Payload r)
      obtain rest q where step: "feed_payload r data p = (rest, q)" by fastforce
      show ?thesis
        using "1.IH"(2) [OF False Payload step [symmetric]] feed_loop_payload [OF False Payload step]
        by simp
    next
      case Header
      obtain rest q where fill: "fill_header data p = (rest, q)" by fastforce
      show ?thesis
      proof (cases "length (buf q) < RECORD_LEN")
        case True
        with False Header fill show ?thesis by (simp add: feed_loop.simps [of data])
      next
        case ge: False
        let ?r = "parse_record (take RECORD_LEN (buf q)) (q\<lparr>buf := drop RECORD_LEN (buf q)\<rparr>)"
        have eq: "feed_loop data evs p = after_record rest evs ?r" for evs
          using False Header fill ge
          by (subst feed_loop.simps)
            (auto simp: after_record_def add_event_def split: prod.split sum.split)
        have IH: "feed_loop rest (pre @ add_event events ev) q' =
            (case feed_loop rest (add_event events ev) q' of
               (Inl e, q) \<Rightarrow> (Inl e, q) | (Inr evs, q) \<Rightarrow> (Inr (pre @ evs), q))"
          if "?r = (Inr ev, q')" for ev q'
          using "1.IH"(1) [OF False Header fill [symmetric] ge that [symmetric] refl]
          by (simp add: add_event_def)
        have ev: "add_event (pre @ events) ev = pre @ add_event events ev" for ev
          by (simp add: add_event_def split: option.split)
        show ?thesis
          using IH by (cases ?r) (auto simp: eq after_record_def ev split: sum.split)
      qed
    qed
  qed simp
qed

lemma feed_loop_events:
  "feed_loop data events p =
     (case feed_loop data [] p of
        (Inl e, q) \<Rightarrow> (Inl e, q)
      | (Inr evs, q) \<Rightarrow> (Inr (events @ evs), q))"
  using feed_loop_prefix [of data events "[]" p] by simp

text \<open>The caller's loop: one \<open>feed\<close> per chunk, the events of all of them collected.\<close>

fun feed_all :: "bytes list \<Rightarrow> (parser, stream_error, event list) io" where
  "feed_all [] = ret []"
| "feed_all (c # cs) =
     bind_io (feed c) (\<lambda>evs. bind_io (feed_all cs) (\<lambda>evs'. ret (evs @ evs')))"

lemma feed_loop_ok: "parser_ok p \<Longrightarrow> feed_loop data events p = (Inr evs, q) \<Longrightarrow> parser_ok q"
proof (induction data arbitrary: events p rule: length_induct)
  case (1 data)
  note IH = "1.IH" [rule_format]
  show ?case
  proof (cases "data = []")
    case False
    from \<open>parser_ok p\<close> show ?thesis
    proof (cases rule: feed_cases [where data = data])
      case header_part
      with "1.prems"(2) show ?thesis
        by (auto simp: feed_loop_header_part parser_ok_def)
    next
      case (header_full n)
      from "1.prems"(2) [unfolded feed_loop_header_full [OF header_full(1-4)]]
      obtain ev q' where r: "parse_record (buf p @ take n data) (p\<lparr>buf := []\<rparr>) = (Inr ev, q')"
        "feed_loop (drop n data) (add_event events ev) q' = (Inr evs, q)"
        by (auto simp: after_record_def split: prod.splits sum.splits)
      then have "parser_ok q'" by (intro parse_record_ok [OF r(1)]) simp
      from IH [OF _ this r(2)] header_full(4,5) show ?thesis by simp
    next
      case (payload_part r)
      then show ?thesis
        using "1.prems"(2) False parser_ok_part [OF \<open>parser_ok p\<close> payload_part]
          feed_loop_payload [OF False payload_part(1) feed_payload_part [OF payload_part], of events]
        by auto
    next
      case (payload_full r)
      have "parser_ok ((bump_bytes (unat r) (checksum_ragged (take (unat r) data) p))\<lparr>phase := Header\<rparr>)"
        using payload_full by (intro parser_ok_full [OF \<open>parser_ok p\<close>]) auto
      from IH [OF _ this, of "drop (unat r) data" events] show ?thesis
        using "1.prems"(2) payload_full(2,3)
          feed_loop_payload [OF False payload_full(1)
            feed_payload_full [OF \<open>parser_ok p\<close> payload_full(1,3)], of events]
        by simp
    qed
  qed (use "1.prems" in simp)
qed

lemma feed_append:
  assumes "parser_ok p"
  shows "feed (xs @ ys) p = bind_io (feed xs) (\<lambda>evs. bind_io (feed ys) (\<lambda>evs'. ret (evs @ evs'))) p"
proof -
  have tail: "feed_loop ys evs q = bind_io (feed ys) (\<lambda>evs'. ret (evs @ evs')) q" for evs q
    unfolding feed_def by (subst feed_loop_events) (simp add: bind_io_def ret_def split: prod.split sum.split)
  obtain r q where xs: "feed_loop xs [] p = (r, q)" by fastforce
  show ?thesis
    using feed_loop_append [OF assms, of xs ys "[]"] xs tail
    by (cases r) (simp_all add: feed_def bind_io_def [of "feed_loop xs []"])
qed

lemma feed_all_concat: "parser_ok p \<Longrightarrow> feed_all cs p = feed (concat cs) p"
proof (induction cs arbitrary: p)
  case Nil
  then show ?case by (simp add: feed_def ret_def)
next
  case (Cons c cs)
  have "feed_all cs q = feed (concat cs) q" if "feed c p = (Inr evs, q)" for evs q
    using Cons that feed_loop_ok [of p c "[]" evs q] by (simp add: feed_def)
  then show ?case
    using feed_append [OF Cons.prems, of c "concat cs"]
    by (auto simp: bind_io_def split: prod.split sum.split)
qed

section \<open>Byte accounting\<close>

definition pending_header :: "parser \<Rightarrow> u64" where
  "pending_header p = (if phase p = Header then of_nat (length (buf p)) else 0)"

lemma parse_record_InrE:
  assumes "parse_record hdr p = (Inr ev, q)"
  obtains t p1 p2 x p3 where "start_stream hdr p = (Inr (), p1)"
    "check_header t hdr p1 = (Inr (), p2)"
    "record_payload t (drop UNION_OFF hdr) (ucast (hdr_u32 p1 hdr 4)) (st_bytes (stats p))
       (cksum p1) p2 = (Inr x, p3)"
    "set_phase x p3 = (Inr ev, q)" "record_type_from_u32 (hdr_u32 p1 hdr 0) = Some t"
proof -
  from assms [unfolded parse_record_def Let_def bind_io_Inr] obtain p1 where
    1: "start_stream hdr p = (Inr (), p1)" and
    2: "(case record_type_from_u32 (hdr_u32 p1 hdr 0) of
          None \<Rightarrow> (Inl (UnknownRecordType (hdr_u32 p1 hdr 0)), p1)
        | Some rtype \<Rightarrow> bind_io (check_header rtype hdr)
            (\<lambda>_. bind_io (record_payload rtype (drop UNION_OFF hdr) (ucast (hdr_u32 p1 hdr 4))
              (st_bytes (stats p)) (cksum p1)) set_phase) p1) = (Inr ev, q)"
    by auto
  from 2 obtain t where t: "record_type_from_u32 (hdr_u32 p1 hdr 0) = Some t" by (auto split: option.splits)
  with 2 show thesis using 1 that by (auto simp: bind_io_Inr)
qed

lemma parse_record_bytes:
  assumes "parse_record hdr p = (Inr ev, q)"
  shows "st_bytes (stats q) = st_bytes (stats p) + of_nat RECORD_LEN"
proof -
  have a: "st_bytes (stats p') = st_bytes (stats p)" if "start_stream hdr p = (Inr (), p')" for p'
    using that by (auto simp: start_stream_def Let_def split: if_splits)
  have b: "st_bytes (stats p') = st_bytes (stats p0) + of_nat RECORD_LEN"
    if "check_header t hdr p0 = (Inr (), p')" for t p0 p'
    using that by (auto simp: check_header_def Let_def split: if_splits)
  have c: "st_bytes (stats p') = st_bytes (stats p0)"
    if "record_payload t u l off bef p0 = (Inr x, p')" for t u l off bef x p0 p'
    using that
    by (cases t) (auto simp: record_payload_def begin_payload_def end_payload_def Let_def split: if_splits)
  have d: "st_bytes (stats p') = st_bytes (stats p0)" if "set_phase x p0 = (Inr y, p')" for x y p0 p'
    using that by (auto simp: set_phase_def split: prod.splits if_splits)
  from assms obtain t p1 p2 x p3 where
    1: "start_stream hdr p = (Inr (), p1)" "check_header t hdr p1 = (Inr (), p2)"
    and 2: "record_payload t (drop UNION_OFF hdr) (ucast (hdr_u32 p1 hdr 4)) (st_bytes (stats p))
        (cksum p1) p2 = (Inr x, p3)" "set_phase x p3 = (Inr ev, q)"
    by (rule parse_record_InrE)
  show ?thesis using a [OF 1(1)] b [OF 1(2)] c [OF 2(1)] d [OF 2(2)] by simp
qed

lemma parse_record_pending: "parse_record hdr p = (Inr ev, q) \<Longrightarrow> buf p = [] \<Longrightarrow> pending_header q = 0"
  using parse_record_buf [of hdr p "Inr ev" q] by (simp add: pending_header_def)

lemma feed_loop_bytes:
  "parser_ok p \<Longrightarrow> feed_loop data events p = (Inr evs, q) \<Longrightarrow>
   st_bytes (stats q) + pending_header q = st_bytes (stats p) + pending_header p + of_nat (length data)"
proof (induction data arbitrary: events p rule: length_induct)
  case (1 data)
  note IH = "1.IH" [rule_format]
  show ?case
  proof (cases "data = []")
    case False
    from \<open>parser_ok p\<close> show ?thesis
    proof (cases rule: feed_cases [where data = data])
      case header_part
      with "1.prems"(2) show ?thesis
        by (auto simp: feed_loop_header_part pending_header_def)
    next
      case (header_full n)
      from "1.prems"(2) [unfolded feed_loop_header_full [OF header_full(1-4)]]
      obtain ev q' where r: "parse_record (buf p @ take n data) (p\<lparr>buf := []\<rparr>) = (Inr ev, q')"
        "feed_loop (drop n data) (add_event events ev) q' = (Inr evs, q)"
        by (auto simp: after_record_def split: prod.splits sum.splits)
      then have "parser_ok q'" by (intro parse_record_ok [OF r(1)]) simp
      from IH [OF _ this r(2)] header_full(4,5)
      have "st_bytes (stats q) + pending_header q
          = st_bytes (stats q') + pending_header q' + of_nat (length data - n)" by simp
      moreover have "st_bytes (stats q') = st_bytes (stats p) + of_nat RECORD_LEN" "pending_header q' = 0"
        using parse_record_bytes [OF r(1)] parse_record_pending [OF r(1)] by simp_all
      moreover have "RECORD_LEN + (length data - n) = length (buf p) + length data"
        using header_full(2-4) by simp
      then have "(of_nat RECORD_LEN :: u64) + of_nat (length data - n) = of_nat (length (buf p)) + of_nat (length data)"
        by (metis of_nat_add)
      ultimately show ?thesis using header_full(1) by (simp add: pending_header_def add.assoc)
    next
      case (payload_part r)
      then show ?thesis
        using "1.prems"(2) False
          feed_loop_payload [OF False payload_part(1) feed_payload_part [OF payload_part], of events]
        by (auto simp: pending_header_def bump_bytes_def)
    next
      case (payload_full r)
      let ?q = "(bump_bytes (unat r) (checksum_ragged (take (unat r) data) p))\<lparr>phase := Header\<rparr>"
      have "parser_ok ?q"
        using payload_full by (intro parser_ok_full [OF \<open>parser_ok p\<close>]) auto
      from IH [OF _ this, of "drop (unat r) data" events]
      have "st_bytes (stats q) + pending_header q =
          st_bytes (stats ?q) + pending_header ?q + of_nat (length data - unat r)"
        using "1.prems"(2) payload_full(2,3)
          feed_loop_payload [OF False payload_full(1)
            feed_payload_full [OF \<open>parser_ok p\<close> payload_full(1,3)], of events]
        by simp
      moreover have "buf ?q = []"
        using ragged_complete [OF \<open>parser_ok p\<close> payload_full(1), of "take (unat r) data"] payload_full(3)
        by (simp add: bump_bytes_def)
      moreover have "(of_nat (unat r) :: u64) + of_nat (length data - unat r) = of_nat (length data)"
        using payload_full(3) by (metis le_add_diff_inverse of_nat_add)
      ultimately show ?thesis
        using payload_full(1) by (simp add: pending_header_def bump_bytes_def add.assoc)
    qed
  qed (use "1.prems" in simp)
qed

lemma feed_all_bytes:
  assumes "feed_all cs parser_new = (Inr evs, q)" "parser_finish q = Inr ()"
  shows "st_bytes (stats q) = of_nat (length (concat cs))"
proof -
  have "feed_loop (concat cs) [] parser_new = (Inr evs, q)"
    using assms(1) feed_all_concat [OF parser_ok_new] by (simp add: feed_def)
  from feed_loop_bytes [OF parser_ok_new this] assms(2) show ?thesis
    by (simp add: parser_finish_def pending_header_def parser_new_def stats_default_def split: if_splits)
qed

section \<open>Detection of a changed word\<close>

lemma fletcher_step_inject: "fletcher_step w f = fletcher_step w g \<Longrightarrow> f = g"
  by (cases f; cases g) (simp add: fletcher_step_def Let_def)

lemma fletcher_update_inject: "fletcher_update f xs swp = fletcher_update g xs swp \<Longrightarrow> f = g"
proof -
  have "fold fletcher_step ws f = fold fletcher_step ws g \<Longrightarrow> f = g" for ws
    by (induction ws arbitrary: f g) (auto dest: fletcher_step_inject)
  then show "fletcher_update f xs swp = fletcher_update g xs swp \<Longrightarrow> f = g"
    by (simp add: fletcher_update_def)
qed

text \<open>The parser after a payload that arrived whole.\<close>

definition payload_done :: "bytes \<Rightarrow> parser \<Rightarrow> parser" where
  "payload_done pl p = p\<lparr>phase := Header, cksum := fletcher_update (cksum p) pl (swap p),
     stats := (stats p)\<lparr>st_bytes := st_bytes (stats p) + of_nat (length pl)\<rparr>\<rparr>"

lemma feed_payload_header:
  assumes ok: "parser_ok p" and ph: "phase p = Payload r" and b: "buf p = []"
    and len: "length pl = unat r" "length hdr = RECORD_LEN"
  shows "feed (pl @ hdr) p = after_record [] [] (parse_record hdr (payload_done pl p))"
proof -
  have four: "4 dvd length pl" using ok ph b len by (simp add: parser_ok_def)
  have pos: "0 < unat r" using ok ph by (simp add: parser_ok_def unat_pos)
  have step: "feed_payload r (pl @ hdr) p = (hdr, payload_done pl p)"
    using feed_payload_full [OF ok ph, of "pl @ hdr"] len b whole_eq [OF four]
    by (simp add: checksum_ragged_eq bump_bytes_def payload_done_def)
  have nobuf: "(payload_done pl p)\<lparr>buf := []\<rparr> = payload_done pl p"
    using b by (cases p) (simp add: payload_done_def)
  have "feed_loop (pl @ hdr) [] p = feed_loop hdr [] (payload_done pl p)"
    using pos len by (intro feed_loop_payload [OF _ ph step]) auto
  also have "\<dots> = after_record [] [] (parse_record hdr (payload_done pl p))"
    using feed_loop_header_full [of "payload_done pl p" RECORD_LEN hdr "[]", unfolded nobuf] len b
    by (simp add: payload_done_def [of _ p] RECORD_LEN_def)
  finally show ?thesis by (simp add: feed_def)
qed

lemma check_header_detects:
  assumes "check_header t hdr p = (Inr u, q)" "t \<noteq> RBegin"
    "\<not> fletcher_is_zero (from_stream_bytes (drop CKSUM_OFF hdr) (swap p))"
    "cksum p' \<noteq> cksum p" "swap p' = swap p"
  shows "fst (check_header t hdr p') = Inl (RecordChecksum (st_bytes (stats p')) (st_records (stats p')))"
  using assms fletcher_update_inject [of "cksum p" "take CKSUM_OFF hdr" "swap p" "cksum p'"]
  by (auto simp: check_header_def Let_def split: if_splits)

lemma payload_change_detected:
  assumes ok: "parser_ok p" and ph: "phase p = Payload r" and b: "buf p = []" and st: "started p"
    and len: "length xs + 4 + length ys = unat r" "4 dvd length xs" "length v = 4" "length w = 4"
    and ne: "v \<noteq> w" and hdr: "length hdr = RECORD_LEN" "hdr_u32 p hdr 0 \<noteq> record_type_code RBegin"
      "\<not> fletcher_is_zero (from_stream_bytes (drop CKSUM_OFF hdr) (swap p))"
    and good: "feed ((xs @ v @ ys) @ hdr) p = (Inr evs, q)"
  shows "fst (feed ((xs @ w @ ys) @ hdr) p)
    = Inl (RecordChecksum (st_bytes (stats p) + r) (st_records (stats p)))"
proof -
  let ?d = "\<lambda>u. payload_done (xs @ u @ ys) p"
  have l: "length (xs @ v @ ys) = unat r" "length (xs @ w @ ys) = unat r" using len by simp_all
  have st': "start_stream hdr (?d u) = (Inr (), ?d u)" for u
    using st by (simp add: start_stream_def payload_done_def)
  have hu: "hdr_u32 (?d u) hdr i = hdr_u32 p hdr i" for u i
    by (simp add: hdr_u32_def payload_done_def)
  from good obtain ev q' where "parse_record hdr (?d v) = (Inr ev, q')"
    unfolding feed_payload_header [OF ok ph b l(1) hdr(1)]
    by (auto simp: after_record_def split: prod.splits sum.splits)
  then obtain t p2 where t: "check_header t hdr (?d v) = (Inr (), p2)"
    "record_type_from_u32 (hdr_u32 p hdr 0) = Some t"
    by (rule parse_record_InrE) (auto simp: st' hu)
  have "t \<noteq> RBegin"
    using t(2) hdr(2) by (auto simp: record_type_from_u32_def split: if_splits)
  moreover have "cksum (?d w) \<noteq> cksum (?d v)"
    using fletcher_update_word_change [OF len(2-4) ne] by (simp add: payload_done_def) metis
  moreover have "st_bytes (stats (?d w)) = st_bytes (stats p) + r"
    using l(2) by (simp add: payload_done_def del: length_append)
  moreover have "st_records (stats (?d w)) = st_records (stats p)" by (simp add: payload_done_def)
  ultimately have "fst (check_header t hdr (?d w))
      = Inl (RecordChecksum (st_bytes (stats p) + r) (st_records (stats p)))"
    using hdr(3) check_header_detects [OF t(1), of "?d w"] by (simp add: payload_done_def [of _ p])
  then obtain p3 where
    "check_header t hdr (?d w) = (Inl (RecordChecksum (st_bytes (stats p) + r) (st_records (stats p))), p3)"
    by (cases "check_header t hdr (?d w)") simp
  then show ?thesis
    unfolding feed_payload_header [OF ok ph b l(2) hdr(1)] parse_record_def Let_def
    by (simp add: bind_io_def st' hu t(2) after_record_def)
qed

end
