(* ===== verification/Stream_Synth.thy ===== *)
theory Stream_Synth
  imports Stream_Laws
begin

text \<open>
  \<open>src/stream.rs\<close>, module \<open>synth\<close>: the builder of checksum-correct streams, and the round
  trip through the parser. A panic (an odd payload, a name that does not fit) is \<open>None\<close>.
  \<open>synced b p evs\<close> says that parsing what the builder has written so far ends in \<open>p\<close>, between
  two records, with the builder's running checksum; every builder operation keeps it.
\<close>

record builder =
  bld_out :: bytes
  bld_cksum :: fletcher4

definition builder_new :: builder where
  "builder_new = \<lparr>bld_out = [], bld_cksum = fletcher_zero\<rparr>"

definition builder_record :: "bytes \<Rightarrow> bytes \<Rightarrow> builder \<Rightarrow> builder" where
  "builder_record hdr payload b =
     (let is_begin = u32_from_le_bytes (subseg 0 4 hdr) = 0;
          ck = fletcher_update (bld_cksum b) (take CKSUM_OFF hdr) False;
          hdr' = (if \<not> is_begin then put_at CKSUM_OFF (fletcher_to_bytes ck) hdr else hdr);
          ck' = fletcher_update ck (drop CKSUM_OFF hdr') False
      in \<lparr>bld_out = bld_out b @ hdr' @ payload, bld_cksum = fletcher_update ck' payload False\<rparr>)"

definition zero_hdr :: bytes where
  "zero_hdr = replicate RECORD_LEN 0"

text \<open>\<open>let u = &mut h[UNION_OFF..]; u[i..].copy_from_slice(xs)\<close>.\<close>

definition put_u :: "nat \<Rightarrow> bytes \<Rightarrow> bytes \<Rightarrow> bytes" where
  "put_u i xs h = put_at (UNION_OFF + i) xs h"

definition begin_bytes :: "u64 \<Rightarrow> u64 \<Rightarrow> u64 \<Rightarrow> string \<Rightarrow> bytes" where
  "begin_bytes to from features name =
     (let h0 = put_at 0 (u32_to_le_bytes 0) zero_hdr;
          h1 = put_u 0 (u64_to_le_bytes DMU_BACKUP_MAGIC) h0;
          h2 = put_u 8 (u64_to_le_bytes (push_bit 32 1 OR push_bit 2 features OR 1)) h1;
          h3 = put_u 16 (u64_to_le_bytes 1700000000) h2;
          h4 = put_u 24 (u32_to_le_bytes 2) h3;
          h5 = put_u 32 (u64_to_le_bytes to) h4;
          h6 = put_u 40 (u64_to_le_bytes from) h5
      in put_u 48 (name_bytes name) h6)"

definition builder_begin :: "u64 \<Rightarrow> u64 \<Rightarrow> u64 \<Rightarrow> string \<Rightarrow> builder \<Rightarrow> builder option" where
  "builder_begin to from features name b =
     (if 48 + length name \<le> RECORD_LEN - UNION_OFF
      then Some (builder_record (begin_bytes to from features name) [] b)
      else None)"

definition builder_write :: "bytes \<Rightarrow> builder \<Rightarrow> builder option" where
  "builder_write data b =
     (if length data mod 4 = 0
      then
        (let h = put_at 0 (u32_to_le_bytes 3) zero_hdr
         in Some (builder_record (put_u 24 (u64_to_le_bytes (of_nat (length data))) h) data b))
      else None)"

definition builder_free :: "builder \<Rightarrow> builder" where
  "builder_free b = builder_record (put_at 0 (u32_to_le_bytes 4) zero_hdr) [] b"

definition builder_end :: "u64 \<Rightarrow> builder \<Rightarrow> builder" where
  "builder_end to b =
     (let h0 = put_at 0 (u32_to_le_bytes 5) zero_hdr;
          h1 = put_u 0 (fletcher_to_bytes (bld_cksum b)) h0
      in builder_record (put_u 32 (u64_to_le_bytes to) h1) [] b)"

text \<open>
  \<open>Builder::stream\<close>: the xorshift generator fills the whole 8-byte chunks of the record
  buffer; a 4-byte tail keeps what the buffer held.
\<close>

definition xorshift :: "u64 \<Rightarrow> u64" where
  "xorshift x0 =
     (let x1 = x0 XOR push_bit 13 x0; x2 = x1 XOR drop_bit 7 x1 in x2 XOR push_bit 17 x2)"

fun fill_random :: "u64 \<Rightarrow> bytes \<Rightarrow> bytes \<times> u64" where
  "fill_random x (b0 # b1 # b2 # b3 # b4 # b5 # b6 # b7 # bs) =
     (let x' = xorshift x in
      case fill_random x' bs of (bs', x'') \<Rightarrow> (u64_to_le_bytes x' @ bs', x''))"
| "fill_random x bs = (bs, x)"

function write_records :: "nat \<Rightarrow> nat \<Rightarrow> bytes \<Rightarrow> u64 \<Rightarrow> builder \<Rightarrow> builder option" where
  "write_records left record rbuf x b =
     (if left = 0 then Some b
      else
        (let n = min left record - min left record mod 4
         in if n = 0 then Some b
            else
              (case fill_random x (take n rbuf) of (filled, x') \<Rightarrow>
                 (case builder_write filled b of
                    None \<Rightarrow> None
                  | Some b' \<Rightarrow> write_records (left - n) record (filled @ drop n rbuf) x' b'))))"
  by pat_completeness auto
termination
  by (relation "measure (\<lambda>(l, r, bu, x, b). l)") auto

declare write_records.simps [simp del]

definition synth_stream ::
  "u64 \<Rightarrow> u64 \<Rightarrow> u64 \<Rightarrow> string \<Rightarrow> nat \<Rightarrow> nat \<Rightarrow> u64 \<Rightarrow> bytes option" where
  "synth_stream to from features name n record seed =
     (case builder_begin to from features name builder_new of
        None \<Rightarrow> None
      | Some b \<Rightarrow>
          (case write_records n record (replicate record 0) (seed * 0x9E3779B97F4A7C15 OR 1) b of
             None \<Rightarrow> None
           | Some b' \<Rightarrow> Some (bld_out (builder_end to (builder_free b')))))"

section \<open>Reading a built header\<close>

lemma subseg_drop: "subseg i n (drop k xs) = subseg (k + i) n xs"
  by (simp add: subseg_def add.commute)

lemma length_zero_hdr [simp]: "length zero_hdr = RECORD_LEN"
  by (simp add: zero_hdr_def)

lemma length_fill_random: "length (fst (fill_random x bs)) = length bs"
  by (induction x bs rule: fill_random.induct) (auto simp: Let_def split: prod.splits)

lemma fletcher_four:
  "length hdr = RECORD_LEN \<Longrightarrow>
   fletcher_update (fletcher_update f (take CKSUM_OFF hdr) s) (drop CKSUM_OFF hdr) s
     = fletcher_update f hdr s"
  using fletcher_update_append [of "take CKSUM_OFF hdr" f "drop CKSUM_OFF hdr" s]
  by (simp add: CKSUM_OFF_def RECORD_LEN_def)

definition sealed :: "builder \<Rightarrow> bytes \<Rightarrow> bytes" where
  "sealed b hdr = put_at CKSUM_OFF
     (fletcher_to_bytes (fletcher_update (bld_cksum b) (take CKSUM_OFF hdr) False)) hdr"

lemma length_sealed [simp]: "length hdr = RECORD_LEN \<Longrightarrow> length (sealed b hdr) = RECORD_LEN"
  by (simp add: sealed_def CKSUM_OFF_def RECORD_LEN_def)

lemma sealed_take: "length hdr = RECORD_LEN \<Longrightarrow> take CKSUM_OFF (sealed b hdr) = take CKSUM_OFF hdr"
  by (simp add: sealed_def put_at_def CKSUM_OFF_def RECORD_LEN_def)

lemma sealed_drop:
  "length hdr = RECORD_LEN \<Longrightarrow>
   drop CKSUM_OFF (sealed b hdr) = fletcher_to_bytes (fletcher_update (bld_cksum b) (take CKSUM_OFF hdr) False)"
  by (simp add: sealed_def put_at_def CKSUM_OFF_def RECORD_LEN_def)

lemma subseg_sealed:
  "length hdr = RECORD_LEN \<Longrightarrow> i + n \<le> CKSUM_OFF \<Longrightarrow> subseg i n (sealed b hdr) = subseg i n hdr"
  by (simp add: sealed_def CKSUM_OFF_def RECORD_LEN_def subseg_simps)

lemma builder_record_sealed:
  assumes "length hdr = RECORD_LEN" "u32_from_le_bytes (subseg 0 4 hdr) \<noteq> 0"
  shows "builder_record hdr payload b =
    \<lparr>bld_out = bld_out b @ sealed b hdr @ payload,
     bld_cksum = fletcher_update (fletcher_update (bld_cksum b) (sealed b hdr) False) payload False\<rparr>"
  using assms fletcher_four [of "sealed b hdr" "bld_cksum b" False]
  by (simp add: builder_record_def Let_def sealed_take) (simp add: sealed_def)

section \<open>The parser follows the builder\<close>

definition between :: "builder \<Rightarrow> parser \<Rightarrow> bool" where
  "between b p \<longleftrightarrow> phase p = Header \<and> buf p = [] \<and> cksum p = bld_cksum b \<and> \<not> swap p"

definition synced :: "builder \<Rightarrow> parser \<Rightarrow> event list \<Rightarrow> bool" where
  "synced b p evs \<longleftrightarrow> feed (bld_out b) parser_new = (Inr evs, p) \<and> between b p \<and> started p"

lemma between_ok: "between b p \<Longrightarrow> parser_ok p"
  by (simp add: between_def parser_ok_def RECORD_LEN_def)

lemma feed_header:
  assumes "phase p = Header" "buf p = []" "length hdr = RECORD_LEN"
  shows "feed hdr p = after_record [] [] (parse_record hdr p)"
proof -
  have "p\<lparr>buf := []\<rparr> = p" using assms(2) by (cases p) simp
  with feed_loop_header_full [of p RECORD_LEN hdr "[]"] assms show ?thesis
    by (simp add: feed_def RECORD_LEN_def)
qed

lemma feed_payload_record:
  assumes "phase p = Payload (of_nat (length pl))" "buf p = []" "4 dvd length pl"
    "length pl < 2 ^ 64" "pl \<noteq> []"
  shows "feed pl p = (Inr [], payload_done pl p)"
proof -
  have u: "unat (of_nat (length pl) :: u64) = length pl" using assms(4) by (rule unat_of_nat_u64)
  have "(of_nat (length pl) :: u64) \<noteq> 0" using u assms(5) by (metis length_0_conv unat_0)
  then have "parser_ok p" using assms(1-3) u by (simp add: parser_ok_def)
  from feed_payload_full [OF this assms(1), of pl] u assms(2) whole_eq [OF assms(3)]
  have step: "feed_payload (of_nat (length pl)) pl p = ([], payload_done pl p)"
    by (simp add: checksum_ragged_eq bump_bytes_def payload_done_def)
  show ?thesis
    using feed_loop_payload [OF assms(5,1) step, of "[]"] by (simp add: feed_def)
qed

lemma check_header_sealed:
  assumes "between b p" "length hdr = RECORD_LEN"
  shows "check_header t (sealed b hdr) p = (Inr (),
    p\<lparr>cksum := fletcher_update (bld_cksum b) (sealed b hdr) False,
      stats := (stats p)\<lparr>st_records := st_records (stats p) + 1,
                         st_bytes := st_bytes (stats p) + of_nat RECORD_LEN\<rparr>\<rparr>)"
  using assms fletcher_four [of "sealed b hdr" "bld_cksum b" False]
  by (simp add: check_header_def Let_def sealed_take sealed_drop between_def)

lemma hdr_fields_sealed:
  assumes "between b p" "length hdr = RECORD_LEN"
  shows "i + 4 \<le> CKSUM_OFF \<Longrightarrow> hdr_u32 p (sealed b hdr) i = u32_from_le_bytes (subseg i 4 hdr)"
    "UNION_OFF + i + 8 \<le> CKSUM_OFF \<Longrightarrow>
     hdr_u64 p (drop UNION_OFF (sealed b hdr)) i = u64_from_le_bytes (subseg (UNION_OFF + i) 8 hdr)"
  using assms
  by (simp_all add: hdr_u32_def hdr_u64_def read_word_def read_u64_def between_def subseg_drop subseg_sealed)

lemma record_type_of_code: "record_type_from_u32 (record_type_code t) = Some t"
  by (cases t) (simp_all add: record_type_from_u32_def)

lemma parse_record_sealed:
  assumes b: "between b p" and st: "started p" and l: "length hdr = RECORD_LEN"
    and t: "u32_from_le_bytes (subseg 0 4 hdr) = record_type_code t"
  shows "parse_record (sealed b hdr) p =
    bind_io (record_payload t (drop UNION_OFF (sealed b hdr))
        (ucast (u32_from_le_bytes (subseg 4 4 hdr))) (st_bytes (stats p)) (bld_cksum b)) set_phase
      (p\<lparr>cksum := fletcher_update (bld_cksum b) (sealed b hdr) False,
         stats := (stats p)\<lparr>st_records := st_records (stats p) + 1,
                            st_bytes := st_bytes (stats p) + of_nat RECORD_LEN\<rparr>\<rparr>)"
proof -
  have f: "hdr_u32 p (sealed b hdr) 0 = record_type_code t"
    "hdr_u32 p (sealed b hdr) 4 = u32_from_le_bytes (subseg 4 4 hdr)"
    using hdr_fields_sealed [OF b l] t by (simp_all add: CKSUM_OFF_def RECORD_LEN_def)
  have c: "cksum p = bld_cksum b" using b by (simp add: between_def)
  show ?thesis
    by (simp add: parse_record_def Let_def bind_io_def [of "start_stream _"] start_stream_def st f c
        record_type_of_code bind_io_def [of "check_header _ _"] check_header_sealed [OF b l])
qed

text \<open>The header of each record, as the parser reads it.\<close>

lemmas header_layout = zero_hdr_def put_u_def RECORD_LEN_def CKSUM_OFF_def UNION_OFF_def
  subseg_simps subseg_replicate

lemma feed_free:
  assumes b: "between b p" and st: "started p"
  defines "out \<equiv> sealed b (put_at 0 (u32_to_le_bytes 4) zero_hdr)"
  shows "bld_out (builder_free b) = bld_out b @ out"
    and "\<exists>q. feed out p = (Inr [], q) \<and> between (builder_free b) q \<and> started q \<and>
           begin_hdr q = begin_hdr p \<and> depth q = depth p \<and> ends q = ends p"
proof -
  let ?h = "put_at 0 (u32_to_le_bytes 4) zero_hdr"
  have l: "length ?h = RECORD_LEN" by (simp add: header_layout)
  have t: "u32_from_le_bytes (subseg 0 4 ?h) = record_type_code RFree" by (simp add: header_layout)
  have bf: "builder_free b = \<lparr>bld_out = bld_out b @ out,
      bld_cksum = fletcher_update (bld_cksum b) out False\<rparr>"
    using builder_record_sealed [OF l, of "[]" b] t by (simp add: builder_free_def out_def)
  show "bld_out (builder_free b) = bld_out b @ out" by (simp add: bf)
  have "phase p = Header" "buf p = []" "\<not> swap p" using b by (simp_all add: between_def)
  then have "feed out p = after_record [] [] (parse_record out p)" "buf p = []" "\<not> swap p"
    using l by (simp_all add: feed_header out_def)
  then show "\<exists>q. feed out p = (Inr [], q) \<and> between (builder_free b) q \<and> started q \<and>
           begin_hdr q = begin_hdr p \<and> depth q = depth p \<and> ends q = ends p"
    using st parse_record_sealed [OF b st l t, folded out_def]
    by (simp add: record_payload_def Let_def bind_io_def set_phase_def after_record_def add_event_def
        between_def bf)
qed

lemma feed_write:
  assumes b: "between b p" and st: "started p" and d: "4 dvd length d" "length d < 2 ^ 64"
  defines "out \<equiv> sealed b (put_u 24 (u64_to_le_bytes (of_nat (length d)))
                    (put_at 0 (u32_to_le_bytes 3) zero_hdr))"
  shows "\<exists>b'. builder_write d b = Some b' \<and> bld_out b' = bld_out b @ out @ d \<and>
     (\<exists>q. feed (out @ d) p = (Inr [], q) \<and> between b' q \<and> started q \<and>
           begin_hdr q = begin_hdr p \<and> depth q = depth p \<and> ends q = ends p \<and>
           st_writes (stats q) = st_writes (stats p) + 1 \<and>
           st_write_bytes (stats q) = st_write_bytes (stats p) + of_nat (length d))"
proof -
  let ?h = "put_u 24 (u64_to_le_bytes (of_nat (length d))) (put_at 0 (u32_to_le_bytes 3) zero_hdr)"
  have l: "length ?h = RECORD_LEN" by (simp add: header_layout)
  have t: "u32_from_le_bytes (subseg 0 4 ?h) = record_type_code RWrite" by (simp add: header_layout)
  have f: "hdr_u64 p' (drop UNION_OFF out) 24 = of_nat (length d)" "hdr_u64 p' (drop UNION_OFF out) 88 = 0"
    if "\<not> swap p'" for p'
    using that l by (simp_all add: hdr_u64_def read_u64_def subseg_drop out_def subseg_sealed header_layout)
  define b' where "b' = \<lparr>bld_out = bld_out b @ out @ d,
      bld_cksum = fletcher_update (fletcher_update (bld_cksum b) out False) d False\<rparr>"
  have bw: "builder_write d b = Some b'"
    using builder_record_sealed [OF l, of d b] t d(1)
    by (simp add: builder_write_def Let_def out_def b'_def dvd_eq_mod_eq_0 [symmetric])
  have p: "phase p = Header" "buf p = []" "\<not> swap p" using b by (simp_all add: between_def)
  have four: "(of_nat (length d) :: u64) mod 4 = 0"
  proof -
    have "unat ((of_nat (length d) :: u64) mod 4) = 0"
      using d by (simp add: unat_mod unat_of_nat_u64)
    then show ?thesis by (simp only: unsigned_eq_0_iff)
  qed
  let ?q = "p\<lparr>cksum := fletcher_update (bld_cksum b) out False,
     stats := (stats p)\<lparr>st_records := st_records (stats p) + 1,
        st_bytes := st_bytes (stats p) + of_nat RECORD_LEN, st_writes := st_writes (stats p) + 1,
        st_write_bytes := st_write_bytes (stats p) + of_nat (length d)\<rparr>,
     phase := (if 0 < (of_nat (length d) :: u64) then Payload (of_nat (length d)) else Header)\<rparr>"
  have "parse_record out p = (Inr None, ?q)"
    using parse_record_sealed [OF b st l t, folded out_def] f p(3) four
    by (simp add: record_payload_def Let_def bind_io_def set_phase_def del: mod_eq_0_iff_dvd)
  then have one: "feed out p = (Inr [], ?q)"
    using feed_header [OF p(1,2), of out] l by (simp add: out_def after_record_def add_event_def)
  have two: "\<exists>q. feed d ?q = (Inr [], q) \<and> between b' q \<and> started q \<and>
       begin_hdr q = begin_hdr p \<and> depth q = depth p \<and> ends q = ends p \<and>
       st_writes (stats q) = st_writes (stats p) + 1 \<and>
       st_write_bytes (stats q) = st_write_bytes (stats p) + of_nat (length d)"
  proof (cases "d = []")
    case True
    then show ?thesis using p st by (simp add: feed_def between_def b'_def)
  next
    case False
    have "unat (of_nat (length d) :: u64) = length d" using d(2) by (rule unat_of_nat_u64)
    then have "0 < (of_nat (length d) :: u64)"
      using False by (metis length_greater_0_conv unat_0 word_greater_zero_iff less_irrefl)
    then have "feed d ?q = (Inr [], payload_done d ?q)"
      using p False d by (intro feed_payload_record) simp_all
    then show ?thesis using p st by (simp add: payload_done_def between_def b'_def)
  qed
  have "feed (out @ d) p = feed d ?q"
    using feed_append [OF between_ok [OF b], of out d] one
    by (simp add: bind_io_def ret_def split: prod.split sum.split)
  with two bw show ?thesis by (simp add: b'_def)
qed

lemma feed_end:
  assumes b: "between b p" and st: "started p" and dp: "depth p = 1"
  shows "\<exists>out. bld_out (builder_end to b) = bld_out b @ out \<and>
    (\<exists>q. feed out p = (Inr [EvEnd \<lparr>er_checksum = bld_cksum b, er_to_guid = Guid to\<rparr>], q) \<and>
      between (builder_end to b) q \<and> begin_hdr q = begin_hdr p \<and> depth q = 0 \<and> finished q \<and>
      ends q = ends p @ [\<lparr>er_checksum = bld_cksum b, er_to_guid = Guid to\<rparr>])"
proof -
  let ?h = "put_u 32 (u64_to_le_bytes to)
    (put_u 0 (fletcher_to_bytes (bld_cksum b)) (put_at 0 (u32_to_le_bytes 5) zero_hdr))"
  let ?e = "\<lparr>er_checksum = bld_cksum b, er_to_guid = Guid to\<rparr>"
  define out where "out = sealed b ?h"
  have l: "length ?h = RECORD_LEN" by (simp add: header_layout)
  have t: "u32_from_le_bytes (subseg 0 4 ?h) = record_type_code REnd" by (simp add: header_layout)
  have "subseg 8 32 out = fletcher_to_bytes (bld_cksum b)"
    using l by (simp add: out_def subseg_sealed header_layout)
  then have "take 32 (drop UNION_OFF out) = fletcher_to_bytes (bld_cksum b)"
    by (simp add: subseg_def UNION_OFF_def)
  moreover have "hdr_u64 p' (drop UNION_OFF out) 32 = to" if "\<not> swap p'" for p'
    using that l by (simp add: hdr_u64_def read_u64_def subseg_drop out_def subseg_sealed header_layout)
  ultimately have f: "from_stream_bytes (take 32 (drop UNION_OFF out)) False = bld_cksum b"
    "\<And>p'. \<not> swap p' \<Longrightarrow> hdr_u64 p' (drop UNION_OFF out) 32 = to" by simp_all
  have bf: "builder_end to b = \<lparr>bld_out = bld_out b @ out,
      bld_cksum = fletcher_update (bld_cksum b) out False\<rparr>"
    using builder_record_sealed [OF l, of "[]" b] t by (simp add: builder_end_def Let_def out_def)
  have p: "phase p = Header" "buf p = []" "\<not> swap p" using b by (simp_all add: between_def)
  then have "feed out p = after_record [] [] (parse_record out p)"
    using l by (simp add: feed_header out_def)
  then have "\<exists>q. feed out p = (Inr [EvEnd ?e], q) \<and>
      between (builder_end to b) q \<and> begin_hdr q = begin_hdr p \<and> depth q = 0 \<and> finished q \<and>
      ends q = ends p @ [?e]"
    using p st dp f parse_record_sealed [OF b st l t, folded out_def]
    by (simp add: record_payload_def end_payload_def Let_def bind_io_def set_phase_def after_record_def
        add_event_def between_def bf)
  then show ?thesis using bf by auto
qed

section \<open>The BEGIN record\<close>

definition built_begin :: "u64 \<Rightarrow> u64 \<Rightarrow> u64 \<Rightarrow> string \<Rightarrow> begin_header" where
  "built_begin to from features name =
     \<lparr>bh_header_type = Substream, bh_features = features AND 0x3fffffff,
      bh_creation_time = 1700000000, bh_objset_type = 2, bh_flags = 0, bh_to_guid = Guid to,
      bh_from_guid = (if from = 0 then None else Some (Guid from)), bh_to_name = name,
      bh_byteswapped = False\<rparr>"

definition plain_name :: "string \<Rightarrow> bool" where
  "plain_name s \<longleftrightarrow> (\<forall>c \<in> set s. 0 < (of_char c :: nat) \<and> (of_char c :: nat) < 128)"

lemma unat_name_byte: "unat (of_nat (of_char c) :: u8) = of_char c"
  using nat_of_char_less_256 [of c] by (simp add: unat_of_nat)

lemma utf8_lossy_plain: "plain_name s \<Longrightarrow> utf8_lossy (name_bytes s) = name_bytes s"
  unfolding plain_name_def name_bytes_def
  by (induction s) (simp_all add: utf8_len_def Let_def unat_name_byte)

lemma string_of_name_bytes: "string_of_bytes (name_bytes s) = s"
  unfolding string_of_bytes_def name_bytes_def by (induction s) (simp_all add: unat_name_byte)

lemma takeWhile_name:
  assumes "plain_name s"
  shows "takeWhile (\<lambda>b. b \<noteq> 0) (name_bytes s @ replicate k 0) = name_bytes s"
proof -
  have "of_nat (of_char c) \<noteq> (0 :: u8)" if "c \<in> set s" for c
    using assms that unat_name_byte [of c] by (auto simp: plain_name_def)
  then show ?thesis
    by (subst takeWhile_append2) (auto simp: name_bytes_def takeWhile_eq_Nil_iff)
qed

lemma version_bits:
  fixes f :: u64
  defines "v \<equiv> push_bit 32 1 OR push_bit 2 f OR 1"
  shows "v AND 3 = 1" "drop_bit 2 v AND 0x3fffffff = f AND 0x3fffffff"
proof -
  have three: "(3 :: u64) = mask 2" and m: "(0x3fffffff :: u64) = mask 30"
    by (simp_all add: mask_eq_exp_minus_1)
  show "v AND 3 = 1" unfolding v_def three
    by (rule bit_eqI) (auto simp: bit_simps less_2_cases_iff)
  have "bit (1073741824 :: u64) n \<Longrightarrow> n = 30" for n
  proof -
    have "(1073741824 :: u64) = 2 ^ 30" by simp
    then show "bit (1073741824 :: u64) n \<Longrightarrow> n = 30" by (simp only: bit_exp_iff)
  qed
  then show "drop_bit 2 v AND 0x3fffffff = f AND 0x3fffffff" unfolding v_def m
    by (intro bit_eqI) (auto simp: bit_simps)
qed

lemma length_name_bytes [simp]: "length (name_bytes s) = length s"
  by (simp add: name_bytes_def)

lemma subseg_put_at_prefix:
  "i \<le> length xs \<Longrightarrow> length ys \<le> n \<Longrightarrow>
   subseg i n (put_at i ys xs) = ys @ subseg (i + length ys) (n - length ys) xs"
  by (simp add: subseg_def put_at_def)

lemma begin_layout:
  fixes to "from" features :: u64
  assumes "length name \<le> 256"
  defines "h \<equiv> begin_bytes to from features name"
  shows "length h = RECORD_LEN" "subseg 0 4 h = u32_to_le_bytes 0" "subseg 4 4 h = replicate 4 0"
    "subseg 8 8 h = u64_to_le_bytes DMU_BACKUP_MAGIC"
    "subseg 16 8 h = u64_to_le_bytes (push_bit 32 1 OR push_bit 2 features OR 1)"
    "subseg 24 8 h = u64_to_le_bytes 1700000000" "subseg 32 4 h = u32_to_le_bytes 2"
    "subseg 36 4 h = replicate 4 0" "subseg 40 8 h = u64_to_le_bytes to"
    "subseg 48 8 h = u64_to_le_bytes from"
    "subseg 56 256 h = name_bytes name @ replicate (256 - length name) 0"
proof -
  show "length h = RECORD_LEN" "subseg 0 4 h = u32_to_le_bytes 0" "subseg 4 4 h = replicate 4 0"
    "subseg 8 8 h = u64_to_le_bytes DMU_BACKUP_MAGIC"
    "subseg 16 8 h = u64_to_le_bytes (push_bit 32 1 OR push_bit 2 features OR 1)"
    "subseg 24 8 h = u64_to_le_bytes 1700000000" "subseg 32 4 h = u32_to_le_bytes 2"
    "subseg 36 4 h = replicate 4 0" "subseg 40 8 h = u64_to_le_bytes to"
    "subseg 48 8 h = u64_to_le_bytes from"
    using assms(1) by (simp_all add: h_def begin_bytes_def Let_def header_layout)
  show "subseg 56 256 h = name_bytes name @ replicate (256 - length name) 0"
    using assms(1) by (simp add: h_def begin_bytes_def Let_def header_layout subseg_put_at_prefix)
qed

lemma feed_begin:
  assumes b: "builder_begin to from features name builder_new = Some b" and n: "plain_name name"
  shows "\<exists>q. feed (bld_out b) parser_new = (Inr [EvBegin (built_begin to from features name)], q) \<and>
    between b q \<and> started q \<and> begin_hdr q = Some (built_begin to from features name) \<and>
    depth q = 1 \<and> ends q = [] \<and> stats q = stats_default\<lparr>st_records := 1, st_bytes := 312\<rparr>"
proof -
  let ?h = "begin_bytes to from features name"
  from b have len: "length name \<le> 256" and bb: "b = builder_record ?h [] builder_new"
    by (auto simp: builder_begin_def RECORD_LEN_def UNION_OFF_def split: if_splits)
  note lay = begin_layout [OF len, of to "from" features]
  have bf: "b = \<lparr>bld_out = ?h, bld_cksum = fletcher_update fletcher_zero ?h False\<rparr>"
    using fletcher_four [OF lay(1), of fletcher_zero False] lay
    by (simp add: bb builder_record_def Let_def builder_new_def)
  let ?p = "parser_new\<lparr>swap := False, started := True\<rparr>"
  have pn: "phase parser_new = Header" "buf parser_new = []" by (simp_all add: parser_new_def)
  have u32: "hdr_u32 (parser_new\<lparr>swap := False\<rparr>) ?h 0 = 0" "hdr_u32 ?p ?h 0 = 0" "hdr_u32 ?p ?h 4 = 0"
    using lay by (simp_all add: hdr_u32_def read_word_def)
  have ss: "start_stream ?h parser_new = (Inr (), ?p)"
    using lay u32 by (simp add: start_stream_def Let_def UNION_OFF_def parser_new_def)
  have ch: "check_header RBegin ?h ?p = (Inr (), ?p\<lparr>cksum := bld_cksum b,
      stats := stats_default\<lparr>st_records := 1, st_bytes := 312\<rparr>\<rparr>)"
    using fletcher_four [OF lay(1), of fletcher_zero False]
    by (simp add: check_header_def Let_def bf parser_new_def stats_default_def RECORD_LEN_def)
  have d: "decode_begin p' (drop UNION_OFF ?h) = built_begin to from features name" if "\<not> swap p'" for p'
    using that lay version_bits [of features] takeWhile_name [OF n]
    by (simp add: decode_begin_def built_begin_def Let_def hdr_u64_def hdr_u32_def read_u64_def
        read_word_def subseg_drop UNION_OFF_def utf8_lossy_plain [OF n] string_of_name_bytes)
  have "parse_record ?h parser_new = (Inr (Some (EvBegin (built_begin to from features name))),
      ?p\<lparr>cksum := bld_cksum b, stats := stats_default\<lparr>st_records := 1, st_bytes := 312\<rparr>,
         begin_hdr := Some (built_begin to from features name), depth := 1\<rparr>)"
    using ss u32 ch d
    by (simp add: parse_record_def Let_def bind_io_def record_type_from_u32_def record_payload_def
        begin_payload_def set_phase_def parser_new_def)
  then show ?thesis
    using feed_header [OF pn lay(1)]
    by (simp add: bf after_record_def add_event_def between_def parser_new_def)
qed

section \<open>The whole stream\<close>

lemma synced_step:
  assumes s: "synced b p evs" and o: "bld_out b' = bld_out b @ out" "feed out p = (Inr evs', q)"
    "between b' q" "started q"
  shows "synced b' q (evs @ evs')"
  using s o feed_append [OF parser_ok_new, of "bld_out b" out]
  by (simp add: synced_def bind_io_def ret_def)

lemma synced_records:
  "synced b p evs \<Longrightarrow> record < 2 ^ 64 \<Longrightarrow> length bu = record \<Longrightarrow>
   \<exists>b' p'. write_records left record bu x b = Some b' \<and> synced b' p' evs \<and>
     begin_hdr p' = begin_hdr p \<and> depth p' = depth p \<and> ends p' = ends p"
proof (induction left "record" bu x b arbitrary: p rule: write_records.induct)
  case (1 left "record" bu x b)
  let ?n = "min left record - min left record mod 4"
  obtain d x' where d: "fill_random x (take ?n bu) = (d, x')" by fastforce
  show ?case
  proof (cases "left = 0 \<or> ?n = 0")
    case True
    with "1.prems" show ?thesis by (subst write_records.simps) (auto simp: Let_def)
  next
    case False
    have nle: "?n \<le> record" by simp
    have len: "length d = ?n"
      using length_fill_random [of x "take ?n bu"] d "1.prems"(3) by simp
    then have d4: "4 dvd length d" "length d < 2 ^ 64" "length (d @ drop ?n bu) = record"
      using "1.prems"(2,3) by (simp_all add: dvd_minus_mod)
    have sy: "between b p" "started p" using "1.prems"(1) by (simp_all add: synced_def)
    from feed_write [OF sy d4(1,2)] obtain b' out q where
      w: "builder_write d b = Some b'" "bld_out b' = bld_out b @ out @ d" and
      q: "feed (out @ d) p = (Inr [], q)" "between b' q" "started q"
      "begin_hdr q = begin_hdr p" "depth q = depth p" "ends q = ends p" by blast
    have "synced b' q evs" using synced_step [OF "1.prems"(1) w(2) q(1-3)] by simp
    from "1.IH" [OF _ refl _ d [symmetric] w(1) this "1.prems"(2) d4(3)] False
    obtain b'' p'' where "write_records (left - ?n) record (d @ drop ?n bu) x' b' = Some b''"
      "synced b'' p'' evs" "begin_hdr p'' = begin_hdr q" "depth p'' = depth q" "ends p'' = ends q"
      by auto
    moreover have "write_records left record bu x b
        = write_records (left - ?n) record (d @ drop ?n bu) x' b'"
      using False d w(1) by (subst write_records.simps) (auto simp: Let_def)
    ultimately show ?thesis using q by auto
  qed
qed

lemma synth_stream_parses:
  assumes "plain_name name" "length name \<le> 256" "record < 2 ^ 64"
  shows "\<exists>out q e. synth_stream to from features name n record seed = Some out \<and>
    feed out parser_new = (Inr [EvBegin (built_begin to from features name), EvEnd e], q) \<and>
    er_to_guid e = Guid to \<and> finished q \<and> parser_finish q = Inr () \<and>
    begin_hdr q = Some (built_begin to from features name) \<and> ends q = [e]"
proof -
  obtain b where b: "builder_begin to from features name builder_new = Some b"
    using assms(2) by (simp add: builder_begin_def RECORD_LEN_def UNION_OFF_def)
  from feed_begin [OF this assms(1)] obtain p where
    p: "synced b p [EvBegin (built_begin to from features name)]"
    "begin_hdr p = Some (built_begin to from features name)" "depth p = 1" "ends p = []"
    by (auto simp: synced_def)
  from synced_records [OF p(1) assms(3), of "replicate record 0" n "seed * 0x9E3779B97F4A7C15 OR 1"]
  obtain b1 p1 where
    w: "write_records n record (replicate record 0) (seed * 0x9E3779B97F4A7C15 OR 1) b = Some b1" and
    p1: "synced b1 p1 [EvBegin (built_begin to from features name)]"
    "begin_hdr p1 = Some (built_begin to from features name)" "depth p1 = 1" "ends p1 = []"
    using p by auto
  then have "between b1 p1" "started p1" by (simp_all add: synced_def)
  from feed_free [OF this] obtain p2 where p2: "synced (builder_free b1) p2
      [EvBegin (built_begin to from features name)]"
    "begin_hdr p2 = begin_hdr p1" "depth p2 = depth p1" "ends p2 = ends p1"
    using synced_step [OF p1(1)] by (metis append_Nil2)
  have "between (builder_free b1) p2" "started p2" "depth p2 = 1" using p1 p2 by (simp_all add: synced_def)
  from feed_end [OF this, of to] obtain out p3 where
    o: "bld_out (builder_end to (builder_free b1)) = bld_out (builder_free b1) @ out" and
    p3: "feed out p2 = (Inr [EvEnd \<lparr>er_checksum = bld_cksum (builder_free b1), er_to_guid = Guid to\<rparr>], p3)"
    "between (builder_end to (builder_free b1)) p3" "begin_hdr p3 = begin_hdr p2" "finished p3"
    "ends p3 = ends p2 @ [\<lparr>er_checksum = bld_cksum (builder_free b1), er_to_guid = Guid to\<rparr>]"
    by blast
  let ?e = "\<lparr>er_checksum = bld_cksum (builder_free b1), er_to_guid = Guid to\<rparr>"
  have "feed (bld_out (builder_end to (builder_free b1))) parser_new =
      (Inr [EvBegin (built_begin to from features name), EvEnd ?e], p3)"
    using feed_append [OF parser_ok_new, of "bld_out (builder_free b1)" out] p2(1) o p3(1)
    by (simp add: synced_def bind_io_def ret_def)
  moreover have "parser_finish p3 = Inr ()" using p3(2) by (simp add: parser_finish_def between_def)
  ultimately show ?thesis
    using b w p1 p2 p3 by (auto simp: synth_stream_def intro!: exI [of _ p3] exI [of _ ?e])
qed

end
