(* ===== verification/Stream_Properties.thy ===== *)
theory Stream_Properties
  imports Stream_Synth "HOL-Library.Code_Target_Nat"
begin

text \<open>
  What the stream layer (\<open>src/stream.rs\<close>, \<open>src/fletcher.rs\<close>) guarantees, each property with a
  witness where it has hypotheses.
\<close>

section \<open>The checksum\<close>

text \<open>C40: The four accumulators of \<open>Fletcher4::update\<close>, computed one word at a time with wrapping
  additions, are the closed sums of the checksum's definition: every word weighted with 1,
  with its distance from the end, and with the triangular and tetrahedral numbers of it,
  modulo two to the 64.\<close>

theorem fletcher_is_closed_form: "fletcher_update f bs swp = fletcher_closed f (words_of swp bs)"
  by (simp add: fletcher_update_def fold_fletcher_step_closed)

section \<open>The parser\<close>

text \<open>C13: How a stream is cut into chunks does not matter: feeding the pieces one after another
  gives the same events in the same order, the same error if there is one, and the same parser
  as feeding their concatenation at once. So the size of the reads of the sending pipe has no
  effect on what is recognised or on where an error is reported.\<close>

theorem feed_any_slicing: "feed_all cs parser_new = feed (concat cs) parser_new"
  using parser_ok_new by (rule feed_all_concat)

text \<open>C30: The parser's invariant is kept by every call of \<open>feed\<close> that succeeds: between headers
  fewer than 312 bytes are buffered, inside a payload fewer than four, and those together with
  what is still to come are whole words, so no checksum is ever computed over a ragged end.\<close>

theorem feed_keeps_invariant:
  assumes "parser_ok p" "feed data p = (Inr evs, q)"
  shows "parser_ok q"
  using assms unfolding feed_def by (rule feed_loop_ok)

theorem feed_keeps_invariant_witness:
  "\<exists>q. feed [1, 2, 3] parser_new = (Inr [], q) \<and> parser_ok q \<and> buf q = [1, 2, 3]"
proof -
  have "feed [1, 2, 3] parser_new = (Inr [], parser_new\<lparr>buf := [1, 2, 3]\<rparr>)"
    unfolding feed_def
    by (subst feed_loop_header_part) (simp_all add: parser_new_def RECORD_LEN_def)
  with feed_keeps_invariant [OF parser_ok_new this] show ?thesis by simp
qed

text \<open>A stream that the parser accepts to its end has been counted in full: when \<open>finish\<close>
  reports no truncation, the byte count of the statistics is the number of bytes fed. This is
  the count a send compares with what it uploaded.\<close>

theorem finished_stream_counted:
  assumes "feed_all cs parser_new = (Inr evs, q)" "parser_finish q = Inr ()"
  shows "st_bytes (stats q) = of_nat (length (concat cs))"
  using assms by (rule feed_all_bytes)

theorem finished_stream_counted_witness:
  "\<exists>cs evs q. length (concat cs) \<ge> 312 \<and> feed_all cs parser_new = (Inr evs, q) \<and>
     parser_finish q = Inr () \<and> st_bytes (stats q) = of_nat (length (concat cs))"
proof -
  obtain out e q where out: "feed out parser_new = (Inr [EvBegin (built_begin 7 0 0 ''x''), EvEnd e], q)"
    "parser_finish q = Inr ()"
    using synth_stream_parses [of "''x''" 8 7 0 0 1 1] by (auto simp: plain_name_def)
  have "312 \<le> length out"
  proof (rule ccontr)
    assume "\<not> 312 \<le> length out"
    then have "feed_loop out [] parser_new = (Inr [], parser_new\<lparr>buf := buf parser_new @ out\<rparr>)"
      by (intro feed_loop_header_part) (simp_all add: parser_new_def RECORD_LEN_def)
    with out(1) show False by (simp add: feed_def)
  qed
  moreover have fed: "feed_all [out] parser_new = (Inr [EvBegin (built_begin 7 0 0 ''x''), EvEnd e], q)"
    using out(1) feed_all_concat [OF parser_ok_new, of "[out]"] by simp
  ultimately show ?thesis using finished_stream_counted [OF fed out(2)] out(2) by (metis concat.simps append_Nil2)
qed

text \<open>C14: Damage inside a record's payload is noticed at the next record: if a payload followed by
  a header is accepted, the same bytes with one of the payload's words changed are refused with
  a checksum error that names the stream offset and the record at which the bad word was
  detected. (The next header must carry a checksum, which the BEGIN record and records with
  an all-zero field do not.)\<close>

theorem payload_corruption_detected:
  assumes "parser_ok p" "phase p = Payload r" "buf p = []" "started p"
    "length xs + 4 + length ys = unat r" "4 dvd length xs" "length v = 4" "length w = 4" "v \<noteq> w"
    "length hdr = RECORD_LEN" "hdr_u32 p hdr 0 \<noteq> record_type_code RBegin"
    "\<not> fletcher_is_zero (from_stream_bytes (drop CKSUM_OFF hdr) (swap p))"
    "feed ((xs @ v @ ys) @ hdr) p = (Inr evs, q)"
  shows "fst (feed ((xs @ w @ ys) @ hdr) p)
    = Inl (RecordChecksum (st_bytes (stats p) + r) (st_records (stats p)))"
  using assms by (rule payload_change_detected)

lemma fletcher_a_zeros: "f4_a (fletcher_update f (replicate (4 * k) 0) swp) = f4_a f"
proof (induction k arbitrary: f)
  case (Suc k)
  have "replicate (4 * Suc k) (0 :: u8) = replicate 4 0 @ replicate (4 * k) 0"
    by (simp add: replicate_add [symmetric])
  moreover have "read_word swp (replicate 4 0) = 0"
    by (cases swp) (simp_all add: numeral_eq_Suc; code_simp)+
  ultimately show ?case
    using Suc.IH by (simp add: fletcher_update_append fletcher_update_single fletcher_step_def Let_def)
qed simp

text \<open>A parser in the middle of a payload of two words, and the FREE record that follows it.\<close>

definition mid_payload :: parser where
  "mid_payload = parser_new\<lparr>phase := Payload 8, started := True, depth := 1\<rparr>"

definition next_header :: bytes where
  "next_header =
     sealed \<lparr>bld_out = [], bld_cksum = fletcher_update fletcher_zero [1, 2, 3, 4, 5, 6, 7, 8] False\<rparr>
       (put_at 0 (u32_to_le_bytes 4) zero_hdr)"

theorem payload_corruption_detected_witness:
  "fst (feed ([1, 2, 3, 4, 5, 6, 7, 8] @ next_header) mid_payload) = Inr [] \<and>
   fst (feed ([1, 2, 3, 4, 5, 6, 7, 9] @ next_header) mid_payload) = Inl (RecordChecksum 8 0)"
proof -
  let ?b = "\<lparr>bld_out = [], bld_cksum = fletcher_update fletcher_zero [1, 2, 3, 4, 5, 6, 7, 8] False\<rparr>"
  let ?h = "put_at 0 (u32_to_le_bytes 4) zero_hdr" and ?p = "payload_done [1, 2, 3, 4, 5, 6, 7, 8] mid_payload"
  have l: "length ?h = RECORD_LEN" by (simp add: header_layout)
  have ok: "parser_ok mid_payload" "phase mid_payload = Payload 8" "buf mid_payload = []" "started mid_payload"
    "\<not> swap mid_payload"
    by (simp_all add: mid_payload_def parser_ok_def parser_new_def)
  have b: "between ?b ?p" "started ?p"
    by (simp_all add: between_def payload_done_def mid_payload_def parser_new_def)
  from feed_free(2) [OF b] obtain q where "feed next_header ?p = (Inr [], q)"
    unfolding next_header_def by blast
  moreover have len: "length next_header = RECORD_LEN" by (simp add: next_header_def l)
  ultimately have good: "feed (([1, 2, 3, 4] @ [5, 6, 7, 8] @ []) @ next_header) mid_payload = (Inr [], q)"
    using feed_payload_header [OF ok(1-3) _ len, of "[1, 2, 3, 4, 5, 6, 7, 8]"] b(1)
    by (simp add: feed_header between_def)
  have t: "hdr_u32 mid_payload next_header 0 \<noteq> record_type_code RBegin"
    using hdr_fields_sealed(1) [OF b(1) l, of 0] ok(5)
    by (simp add: next_header_def header_layout CKSUM_OFF_def hdr_u32_def payload_done_def)
  have c: "\<not> fletcher_is_zero (from_stream_bytes (drop CKSUM_OFF next_header) (swap mid_payload))"
  proof -
    have h: "take CKSUM_OFF ?h = u32_to_le_bytes 4 @ replicate (4 * 69) 0"
      by (simp add: put_at_def header_layout)
    have "f4_a (fletcher_update (bld_cksum ?b) (take CKSUM_OFF ?h) False)
        = f4_a (fletcher_update (bld_cksum ?b) (u32_to_le_bytes 4) False)"
      unfolding h by (simp add: fletcher_update_append fletcher_a_zeros [where k = 69, simplified])
    also have "\<dots> \<noteq> 0" by code_simp
    finally show ?thesis
      using ok(5) sealed_drop [OF l, of ?b] by (auto simp: next_header_def fletcher_is_zero_def fletcher_zero_def)
  qed
  have "fst (feed (([1, 2, 3, 4] @ [5, 6, 7, 9] @ []) @ next_header) mid_payload)
      = Inl (RecordChecksum (st_bytes (stats mid_payload) + 8) (st_records (stats mid_payload)))"
    by (rule payload_corruption_detected [OF ok(1-4) _ _ _ _ _ len t c good]) (simp_all add: four_dvd_Suc)
  with good show ?thesis by (simp add: mid_payload_def parser_new_def stats_default_def)
qed

text \<open>C12: What the stream builder writes, the parser reads: for every plain snapshot name of at most
  256 bytes, any GUIDs, feature bits, seed and number of records, the synthetic stream is accepted whole, with
  one BEGIN event that carries the fields given to the builder and one END event with the GUID,
  and the parser has seen the whole of it.\<close>

theorem builder_parser_roundtrip:
  assumes "plain_name name" "length name \<le> 256" "record < 2 ^ 64"
  shows "\<exists>out q e. synth_stream to from features name n record seed = Some out \<and>
    feed out parser_new = (Inr [EvBegin (built_begin to from features name), EvEnd e], q) \<and>
    er_to_guid e = Guid to \<and> finished q \<and> parser_finish q = Inr () \<and>
    begin_hdr q = Some (built_begin to from features name) \<and> ends q = [e]"
  using assms by (rule synth_stream_parses)

theorem builder_parser_roundtrip_witness:
  "\<exists>out q e. synth_stream 0xABCD 0 4 ''tank/data@snap'' 100 16 7 = Some out \<and>
     feed out parser_new = (Inr [EvBegin (built_begin 0xABCD 0 4 ''tank/data@snap''), EvEnd e], q) \<and>
     er_to_guid e = Guid 0xABCD \<and> finished q"
  using builder_parser_roundtrip [of "''tank/data@snap''" 16 "0xABCD" 0 4 100 7]
  by (auto simp: plain_name_def)

end
