(* ===== verification/Manifests.thy ===== *)
theory Manifests
  imports Guid_Types
begin

text \<open>
  \<open>src/manifest.rs\<close>: what lives in the bucket, and under which key. The JSON codec
  (\<open>serde_json\<close>) is a parameter of the definitions that use it; times are nanoseconds. The laws
  say that no two objects of a bucket share a key: keys are injective in the GUIDs and the
  sequence number, and manifests, chunks, markers and pins never meet.
\<close>

section \<open>The records\<close>

definition FORMAT_VERSION :: u32 where "FORMAT_VERSION = 1"

record chunk =
  ck_seq :: u32
  ck_bytes :: u64
  ck_blake3 :: string

record manifest =
  mf_format_version :: u32
  mf_dataset :: string
  mf_dataset_guid :: guid
  mf_snapshot :: string
  mf_snapshot_guid :: guid
  mf_from_guid :: "guid option"
  mf_createtxg :: u64
  mf_created_at :: int \<comment> \<open>nanoseconds since the epoch\<close>
  mf_send_flags :: send_flags
  mf_bytes :: u64
  mf_stream_blake3 :: string
  mf_end_checksum :: "string option"
  mf_chunks :: "chunk list"

record pending =
  pd_from_guid :: "guid option"
  pd_send_flags :: send_flags
  pd_chunk_size :: u64
  pd_run_id :: nat \<comment> \<open>the UUID's 128 bits\<close>
  pd_refreshed_at :: int

definition LEASE :: int where "LEASE = 5 * 60 * 1000000000"

definition same_stream :: "pending \<Rightarrow> pending \<Rightarrow> bool" where
  "same_stream p q \<longleftrightarrow>
     pd_from_guid p = pd_from_guid q \<and> pd_send_flags p = pd_send_flags q \<and>
     pd_chunk_size p = pd_chunk_size q"

definition lease_live :: "pending \<Rightarrow> int \<Rightarrow> bool" where
  "lease_live p now \<longleftrightarrow> now - pd_refreshed_at p < LEASE"

definition is_full :: "manifest \<Rightarrow> bool" where
  "is_full m \<longleftrightarrow> mf_from_guid m = None"

definition check_version :: "manifest \<Rightarrow> string + unit" where
  "check_version m =
     (if mf_format_version m = FORMAT_VERSION then Inr ()
      else Inl (''manifest format version '' @ fmt_radix 10 (unat (mf_format_version m)) @
        '' (this build understands '' @ fmt_radix 10 (unat FORMAT_VERSION) @
        ''); upgrade zfsbackup-rs''))"

section \<open>Keys\<close>

abbreviation slash :: char where "slash \<equiv> CHR ''/''"

definition key_root :: "string \<Rightarrow> string" where
  "key_root prefix = (if prefix = [] then ''zb/v1'' else trim_matches slash prefix @ ''/zb/v1'')"

definition snapshot_dir :: "string \<Rightarrow> guid \<Rightarrow> guid \<Rightarrow> string" where
  "snapshot_dir prefix ds snap = key_root prefix @ ''/'' @ guid_display ds @ ''/'' @ guid_display snap"

definition manifest_key :: "string \<Rightarrow> guid \<Rightarrow> guid \<Rightarrow> string" where
  "manifest_key prefix ds snap = snapshot_dir prefix ds snap @ ''/manifest.json''"

definition chunk_key :: "string \<Rightarrow> guid \<Rightarrow> guid \<Rightarrow> u32 \<Rightarrow> string" where
  "chunk_key prefix ds snap seq =
     snapshot_dir prefix ds snap @ ''/chunk-'' @ pad_zero 6 (fmt_radix 10 (unat seq))"

definition pending_key :: "string \<Rightarrow> guid \<Rightarrow> guid \<Rightarrow> string" where
  "pending_key prefix ds snap = snapshot_dir prefix ds snap @ ''/pending.json''"

definition all_manifests_prefix :: "string \<Rightarrow> string" where
  "all_manifests_prefix prefix = key_root prefix @ ''/''"

definition pin_key :: "string \<Rightarrow> guid \<Rightarrow> string" where
  "pin_key prefix snap = key_root prefix @ ''/pins/'' @ guid_display snap"

definition pins_prefix :: "string \<Rightarrow> string" where
  "pins_prefix prefix = key_root prefix @ ''/pins/''"

section \<open>The resume marker\<close>

lemma same_stream_refl [simp]: "same_stream p p"
  by (simp add: same_stream_def)

lemma same_stream_refresh [simp]: "same_stream p (q\<lparr>pd_refreshed_at := t\<rparr>) = same_stream p q"
  by (simp add: same_stream_def)

lemma lease_live_iff: "lease_live p now \<longleftrightarrow> now < pd_refreshed_at p + LEASE"
  by (auto simp: lease_live_def)

section \<open>Keys are distinct\<close>

lemma guid_display_chars: "c \<in> set (guid_display g) \<Longrightarrow> c \<in> digit_char ` {..<16}"
proof -
  obtain ds where "length ds = 16" "\<forall>d \<in> set ds. d < 16" "guid_display g = map digit_char ds"
    "digits_val 16 0 ds = unat (guid_u64 g)" by (rule guid_digits)
  then show "c \<in> set (guid_display g) \<Longrightarrow> c \<in> digit_char ` {..<16}" by auto
qed

lemma digit_char_hex: "c \<in> digit_char ` {..<16} \<Longrightarrow> \<exists>d. digit_value 16 c = Some d"
  by (auto simp: digit_value_digit_char)

lemma guid_display_no_slash [simp]: "slash \<notin> set (guid_display g)"
proof
  assume "slash \<in> set (guid_display g)"
  then have "\<exists>d. digit_value 16 slash = Some d" by (intro digit_char_hex guid_display_chars)
  then show False by (simp add: digit_value_def)
qed

lemma guid_display_not_pins: "guid_display g \<noteq> ''pins'' @ s"
proof
  assume "guid_display g = ''pins'' @ s"
  then have "CHR ''p'' \<in> set (guid_display g)" by simp
  then have "\<exists>d. digit_value 16 (CHR ''p'') = Some d" by (intro digit_char_hex guid_display_chars)
  then show False by (simp add: digit_value_def)
qed

lemma snapshot_file_inject:
  "snapshot_dir p d s @ f = snapshot_dir p d' s' @ f' \<longleftrightarrow> d = d' \<and> s = s' \<and> f = f'"
  by (auto simp: snapshot_dir_def append_eq_append_conv)

lemma snapshot_dir_inject: "snapshot_dir p d s = snapshot_dir p d' s' \<longleftrightarrow> d = d' \<and> s = s'"
  using snapshot_file_inject [of p d s "[]" d' s' "[]"] by simp

text \<open>Every object of a backup, by the name of its file.\<close>

definition chunk_file :: "u32 \<Rightarrow> string" where
  "chunk_file seq = ''chunk-'' @ pad_zero 6 (fmt_radix 10 (unat seq))"

lemma key_files:
  "manifest_key p d s = snapshot_dir p d s @ slash # ''manifest.json''"
  "pending_key p d s = snapshot_dir p d s @ slash # ''pending.json''"
  "chunk_key p d s q = snapshot_dir p d s @ slash # chunk_file q"
  by (simp_all add: manifest_key_def pending_key_def chunk_key_def chunk_file_def)

lemma chunk_file_inject [simp]: "chunk_file q = chunk_file q' \<longleftrightarrow> q = q'"
  using pad_zero_fmt_inject [of 10 6 "unat q" "unat q'"]
  by (auto simp: chunk_file_def word_unat_eq_iff)

lemma chunk_file_ne [simp]:
  "chunk_file q \<noteq> ''manifest.json''" "chunk_file q \<noteq> ''pending.json''"
  "''manifest.json'' \<noteq> chunk_file q" "''pending.json'' \<noteq> chunk_file q"
  by (simp_all add: chunk_file_def)

lemma pad_digits_no_slash: "slash \<notin> set (pad_zero w (fmt_radix 10 n))"
proof
  assume "slash \<in> set (pad_zero w (fmt_radix 10 n))"
  then obtain d where "slash = digit_char d" "d < 10"
    using radix_digits_less [of 10 _ n] by (fastforce simp: pad_zero_fmt)
  then have "digit_value 16 slash = Some d" by (simp add: digit_value_digit_char)
  then show False by (simp add: digit_value_def)
qed

lemma chunk_file_no_slash [simp]: "slash \<notin> set (chunk_file q)"
  using pad_digits_no_slash [of 6 "unat q"] by (simp add: chunk_file_def)

lemma key_inject:
  "manifest_key p d s = manifest_key p d' s' \<longleftrightarrow> d = d' \<and> s = s'"
  "pending_key p d s = pending_key p d' s' \<longleftrightarrow> d = d' \<and> s = s'"
  "chunk_key p d s q = chunk_key p d' s' q' \<longleftrightarrow> d = d' \<and> s = s' \<and> q = q'"
  "pin_key p s = pin_key p s' \<longleftrightarrow> s = s'"
  by (simp_all add: key_files snapshot_file_inject snapshot_dir_inject) (simp add: pin_key_def)

lemma key_kinds:
  "chunk_key p d s q \<noteq> manifest_key p d' s'" "chunk_key p d s q \<noteq> pending_key p d' s'"
  "manifest_key p d s \<noteq> pending_key p d' s'"
  by (simp_all add: key_files snapshot_file_inject)

lemma pin_not_snapshot: "pin_key p g \<noteq> snapshot_dir p d s @ f"
proof
  assume "pin_key p g = snapshot_dir p d s @ f"
  then have "''pins/'' @ guid_display g = guid_display d @ slash # guid_display s @ f"
    by (simp add: pin_key_def snapshot_dir_def)
  then have "take 4 (''pins/'' @ guid_display g) = take 4 (guid_display d)" by simp
  then have "guid_display d = ''pins'' @ drop 4 (guid_display d)"
    using append_take_drop_id [of 4 "guid_display d"] by simp
  then show False using guid_display_not_pins by blast
qed

lemmas key_simps = key_inject key_kinds key_kinds [symmetric] pin_not_snapshot
  pin_not_snapshot [symmetric]

lemma pin_kinds [simp]:
  "pin_key p g \<noteq> manifest_key p d s" "pin_key p g \<noteq> pending_key p d s" "pin_key p g \<noteq> chunk_key p d s q"
  "manifest_key p d s \<noteq> pin_key p g" "pending_key p d s \<noteq> pin_key p g" "chunk_key p d s q \<noteq> pin_key p g"
  using pin_not_snapshot [of p g d s] not_sym [OF pin_not_snapshot [of p g d s]]
  by (simp_all only: key_files not_False_eq_True)

text \<open>A key read back: the path below the root has three components.\<close>

lemma split_rel_key:
  "slash \<notin> set f \<Longrightarrow>
   split_on slash (guid_display d @ slash # guid_display s @ slash # f)
     = [guid_display d, guid_display s, f]"
  by (simp add: split_on_append_sep split_on_no_sep)

lemma rel_key:
  "strip_prefix (all_manifests_prefix p) (snapshot_dir p d s @ slash # f)
     = Some (guid_display d @ slash # guid_display s @ slash # f)"
  by (simp add: strip_prefix_Some all_manifests_prefix_def snapshot_dir_def)

lemma pin_key_guid: "rsplit_first slash (pin_key p g) = guid_display g"
  using rsplit_first_append [of slash "guid_display g" "key_root p @ ''/pins''"]
  by (simp add: pin_key_def)

end
