(* ===== verification/Zfs_Cli.thy ===== *)
theory Zfs_Cli
  imports Manifests Stream_Parser
begin

text \<open>
  \<open>src/zfs.rs\<close>: the typed wrapper around the \<open>zfs\<close> command. The command itself is the
  parameter \<open>sh\<close>: it takes the argument list and the state of the machine and returns what
  \<open>tokio\<close> reports of the child process (a timeout, a spawn failure, or an exit code with the
  two outputs) with the machine it leaves. Everything this file says about ZFS is a hypothesis
  of a theorem; the parsers and the classification of errors are the code's.
\<close>

section \<open>Errors\<close>

datatype outcome =
  TimedOut
| SpawnFailed string
| Exited "int option" bytes bytes \<comment> \<open>code, stdout, stderr\<close>

type_synonym 'x runner = "string list \<Rightarrow> 'x \<Rightarrow> outcome \<times> 'x"

datatype zfs_error =
  Spawn string string
| Failed string "int option" string
| Parse string string
| ZfsNotFound string
| Timeout

fun is_not_found :: "zfs_error \<Rightarrow> bool" where
  "is_not_found (ZfsNotFound _) = True"
| "is_not_found (Failed _ _ stderr) =
     (contains_str ''does not exist'' stderr \<or> contains_str ''dataset does not exist'' stderr)"
| "is_not_found _ = False"

section \<open>What the commands print\<close>

record zfs_snapshot =
  zs_name :: string
  zs_dataset :: string
  zs_snapname :: string
  zs_guid :: guid
  zs_createtxg :: u64
  zs_creation :: int
  zs_referenced :: u64

record zfs_dataset =
  zd_name :: string
  zd_guid :: guid
  zd_encrypted :: bool
  zd_compression :: string
  zd_recordsize :: u64

record zfs_bookmark =
  zb_name :: string
  zb_guid :: guid
  zb_createtxg :: u64

record send_spec =
  sp_to :: string
  sp_from :: "string option"
  sp_flags :: send_flags

definition send_args :: "send_spec \<Rightarrow> string list" where
  "send_args s =
     [''send''] @ zfs_args (sp_flags s) @
     (case sp_from s of None \<Rightarrow> [] | Some f \<Rightarrow> [''-i'', f]) @ [sp_to s]"

abbreviation tab :: char where "tab \<equiv> CHR 0x09"

text \<open>The ellipsis of the messages, in UTF-8.\<close>

definition ellipsis :: string where
  "ellipsis = [CHR 0xE2, CHR 0x80, CHR 0xA6]"

definition zfs_run :: "'x runner \<Rightarrow> string list \<Rightarrow> ('x, zfs_error, string) io" where
  "zfs_run sh args x =
     (let joined = join '' '' args in
      case sh args x of (out, x') \<Rightarrow>
        (case out of
           TimedOut \<Rightarrow> (Inl Timeout, x')
         | SpawnFailed e \<Rightarrow> (Inl (Spawn (''zfs '' @ joined) e), x')
         | Exited code stdout stderr \<Rightarrow>
             (if code = Some 0 then (Inr (string_of_bytes (utf8_lossy stdout)), x')
              else
                (let err = trim (string_of_bytes (utf8_lossy stderr))
                 in if contains_str ''does not exist'' err then (Inl (ZfsNotFound joined), x')
                    else (Inl (Failed joined code err), x')))))"

definition map_err :: "('e \<Rightarrow> 'f) \<Rightarrow> 'e + 'a \<Rightarrow> 'f + 'a" where
  "map_err f r = map_sum f id r"

definition parse_dataset :: "string \<Rightarrow> string \<Rightarrow> zfs_error + zfs_dataset" where
  "parse_dataset name out =
     (let v = str_lines out in
      if length v < 4 then Inl (Parse (''get '' @ ellipsis @ '' '' @ name) out)
      else
        bind_result (map_err (\<lambda>_. Parse ''get guid'' (v ! 0)) (guid_from_zfs (v ! 0))) (\<lambda>g.
        bind_result (map_err (\<lambda>_. Parse ''get recordsize'' (v ! 3)) (parse_u64 (v ! 3))) (\<lambda>rs.
          Inr \<lparr>zd_name = name, zd_guid = g, zd_encrypted = (v ! 1 \<noteq> ''off''),
               zd_compression = v ! 2, zd_recordsize = rs\<rparr>)))"

definition dataset :: "'x runner \<Rightarrow> string \<Rightarrow> ('x, zfs_error, zfs_dataset) io" where
  "dataset sh name =
     bind_io (zfs_run sh [''get'', ''-Hp'', ''-o'', ''value'', ''guid,encryption,compression,recordsize'', name])
       (\<lambda>out. lift_result (parse_dataset name out))"

definition parse_snapshot :: "string \<Rightarrow> zfs_error + zfs_snapshot" where
  "parse_snapshot line =
     (let f = split_on tab line; e = (\<lambda>_. Parse ''list -t snapshot'' line) in
      if length f \<noteq> 5 then Inl (e ())
      else
        bind_result (ok_or (split_once (CHR ''@'') (f ! 0)) (e ())) (\<lambda>(ds, snap).
        bind_result (map_err (\<lambda>_. e ()) (guid_from_zfs (f ! 1))) (\<lambda>g.
        bind_result (map_err (\<lambda>_. e ()) (parse_u64 (f ! 2))) (\<lambda>txg.
        bind_result (map_err (\<lambda>_. e ()) (parse_i64 (f ! 3))) (\<lambda>cr.
        bind_result (map_err (\<lambda>_. e ()) (parse_u64 (f ! 4))) (\<lambda>ref.
          Inr \<lparr>zs_name = f ! 0, zs_dataset = ds, zs_snapname = snap, zs_guid = g,
               zs_createtxg = txg, zs_creation = cr, zs_referenced = ref\<rparr>))))))"

definition snapshots :: "'x runner \<Rightarrow> string \<Rightarrow> ('x, zfs_error, zfs_snapshot list) io" where
  "snapshots sh ds =
     bind_io (zfs_run sh [''list'', ''-Hp'', ''-t'', ''snapshot'', ''-s'', ''createtxg'', ''-o'',
         ''name,guid,createtxg,creation,referenced'', ''-d'', ''1'', ds])
       (\<lambda>out. lift_result (map_result parse_snapshot (str_lines out)))"

definition snapshot :: "'x runner \<Rightarrow> string \<Rightarrow> ('x, zfs_error, zfs_snapshot) io" where
  "snapshot sh name =
     bind_io (lift_result (ok_or (split_once (CHR ''@'') name) (ZfsNotFound name))) (\<lambda>(ds, _).
     bind_io (snapshots sh ds) (\<lambda>ss.
       lift_result (ok_or (List.find (\<lambda>s. zs_name s = name) ss) (ZfsNotFound name))))"

definition parse_bookmark :: "string \<Rightarrow> zfs_error + zfs_bookmark" where
  "parse_bookmark line =
     (let f = split_on tab line; e = (\<lambda>_. Parse ''list -t bookmark'' line) in
      if length f \<noteq> 3 then Inl (e ())
      else
        bind_result (map_err (\<lambda>_. e ()) (guid_from_zfs (f ! 1))) (\<lambda>g.
        bind_result (map_err (\<lambda>_. e ()) (parse_u64 (f ! 2))) (\<lambda>txg.
          Inr \<lparr>zb_name = f ! 0, zb_guid = g, zb_createtxg = txg\<rparr>)))"

definition bookmarks :: "'x runner \<Rightarrow> string \<Rightarrow> ('x, zfs_error, zfs_bookmark list) io" where
  "bookmarks sh ds =
     bind_io (zfs_run sh [''list'', ''-Hp'', ''-t'', ''bookmark'', ''-o'', ''name,guid,createtxg'',
         ''-d'', ''1'', ds])
       (\<lambda>out. lift_result (map_result parse_bookmark (str_lines out)))"

text \<open>The first line that starts with \<open>size\<close> and goes on with a number.\<close>

fun size_line :: "string list \<Rightarrow> u64 option" where
  "size_line [] = None"
| "size_line (l # ls) =
     (case strip_prefix ''size'' l of
        None \<Rightarrow> size_line ls
      | Some rest \<Rightarrow> (case parse_u64 (trim rest) of Inl _ \<Rightarrow> size_line ls | Inr n \<Rightarrow> Some n))"

definition estimate :: "'x runner \<Rightarrow> send_spec \<Rightarrow> ('x, zfs_error, u64) io" where
  "estimate sh spec =
     (let a = take 1 (send_args spec) @ [''-nvP''] @ drop 1 (send_args spec) in
      bind_io (zfs_run sh a)
        (\<lambda>out. lift_result (ok_or (size_line (str_lines out)) (Parse (join '' '' a) out))))"

section \<open>Commands that are idempotent\<close>

text \<open>\<open>hold\<close> says whether the hold was placed now.\<close>

definition hold :: "'x runner \<Rightarrow> string \<Rightarrow> string \<Rightarrow> ('x, zfs_error, bool) io" where
  "hold sh tag snap =
     try_io (zfs_run sh [''hold'', tag, snap]) (\<lambda>r.
       case r of
         Inr _ \<Rightarrow> ret True
       | Inl (Failed a c stderr) \<Rightarrow>
           (if contains_str ''tag already exists'' stderr then ret False
            else throw (Failed a c stderr))
       | Inl e \<Rightarrow> throw e)"

definition release :: "'x runner \<Rightarrow> string \<Rightarrow> string \<Rightarrow> ('x, zfs_error, unit) io" where
  "release sh tag snap =
     try_io (zfs_run sh [''release'', tag, snap]) (\<lambda>r.
       case r of
         Inr _ \<Rightarrow> ret ()
       | Inl e \<Rightarrow>
           (if is_not_found e then ret ()
            else (case e of
                    Failed a c stderr \<Rightarrow>
                      (if contains_str ''no such tag'' stderr then ret () else throw e)
                  | _ \<Rightarrow> throw e)))"

definition bookmark_exists :: "'x runner \<Rightarrow> string \<Rightarrow> ('x, zfs_error, bool) io" where
  "bookmark_exists sh bm =
     try_io (zfs_run sh [''list'', ''-H'', ''-t'', ''bookmark'', ''-o'', ''name'', bm]) (\<lambda>r.
       case r of
         Inr out \<Rightarrow> ret (\<exists>l \<in> set (str_lines out). trim l = bm)
       | Inl e \<Rightarrow> (if is_not_found e then ret False else throw e))"

definition bookmark :: "'x runner \<Rightarrow> string \<Rightarrow> string \<Rightarrow> ('x, zfs_error, unit) io" where
  "bookmark sh snap bm =
     try_io (zfs_run sh [''bookmark'', snap, bm]) (\<lambda>r.
       case r of
         Inr _ \<Rightarrow> ret ()
       | Inl e \<Rightarrow> bind_io (bookmark_exists sh bm) (\<lambda>there. if there then ret () else throw e))"

definition destroy_bookmark :: "'x runner \<Rightarrow> string \<Rightarrow> ('x, zfs_error, unit) io" where
  "destroy_bookmark sh bm =
     try_io (zfs_run sh [''destroy'', bm]) (\<lambda>r.
       case r of Inr _ \<Rightarrow> ret () | Inl e \<Rightarrow> (if is_not_found e then ret () else throw e))"

definition receive_args :: "string \<Rightarrow> bool \<Rightarrow> string list" where
  "receive_args target force = [''receive'', ''-s'', ''-u''] @ (if force then [''-F''] else []) @ [target]"

definition receive_abort :: "'x runner \<Rightarrow> string \<Rightarrow> ('x, zfs_error, unit) io" where
  "receive_abort sh target =
     try_io (zfs_run sh [''receive'', ''-A'', target]) (\<lambda>r.
       case r of
         Inr _ \<Rightarrow> ret ()
       | Inl e \<Rightarrow>
           (if is_not_found e then ret ()
            else (case e of
                    Failed a c stderr \<Rightarrow>
                      (if contains_str ''does not have any resumable receive state'' stderr
                       then ret () else throw e)
                  | _ \<Rightarrow> throw e)))"

text \<open>\<open>wait_child\<close>: the end of a piped child, whose stderr was collected as a string.\<close>

definition wait_child :: "(string + int option) \<Rightarrow> string \<Rightarrow> string \<Rightarrow> zfs_error + unit" where
  "wait_child status stderr what =
     (case status of
        Inl e \<Rightarrow> Inl (Spawn (''zfs '' @ what) e)
      | Inr code \<Rightarrow> (if code = Some 0 then Inr () else Inl (Failed what code (trim stderr))))"

section \<open>Hold and bookmark names\<close>

definition hold_tag :: "string \<Rightarrow> string" where
  "hold_tag job = ''zb:'' @ job"

definition bookmark_short :: "string \<Rightarrow> guid \<Rightarrow> string" where
  "bookmark_short job g = ''zb_'' @ job @ ''_'' @ guid_display g"

definition bookmark_name :: "string \<Rightarrow> string \<Rightarrow> guid \<Rightarrow> string" where
  "bookmark_name job snap g = hd (split_on (CHR ''@'') snap) @ ''#'' @ bookmark_short job g"

definition bookmark_guid :: "string \<Rightarrow> string \<Rightarrow> guid option" where
  "bookmark_guid job name =
     (case strip_prefix (''zb_'' @ job @ ''_'') (rsplit_first (CHR ''#'') name) of
        None \<Rightarrow> None
      | Some rest \<Rightarrow> (case guid_from_str rest of Inl _ \<Rightarrow> None | Inr g \<Rightarrow> Some g))"


section \<open>Classification of failures\<close>

lemma zfs_run_Failed:
  assumes "zfs_run sh args x = (Inl (Failed a c err), x')"
  shows "a = join '' '' args" "c \<noteq> Some 0" "\<not> contains_str ''does not exist'' err"
  using assms by (auto simp: zfs_run_def Let_def split: prod.splits outcome.splits if_splits)

lemma contains_str_iff: "contains_str p s \<longleftrightarrow> (\<exists>a b. s = a @ p @ b)"
proof (induction s)
  case Nil
  then show ?case by (auto simp: contains_str_def)
next
  case (Cons c s)
  have "contains_str p (c # s) \<longleftrightarrow> starts_with p (c # s) \<or> contains_str p s"
    by (auto simp: contains_str_def)
  also have "\<dots> \<longleftrightarrow> (\<exists>a b. c # s = a @ p @ b)"
    unfolding Cons.IH starts_with_iff by (metis append_Cons append_Nil list.exhaust list.inject)
  finally show ?case .
qed

lemma contains_str_longer: "contains_str (q @ p) s \<Longrightarrow> contains_str p s"
  unfolding contains_str_iff by (metis append.assoc)

text \<open>The errors of a command that mean "the thing is not there" are exactly the NotFounds.\<close>

lemma zfs_run_not_found:
  assumes "zfs_run sh args x = (Inl e, x')"
  shows "is_not_found e \<longleftrightarrow> e = ZfsNotFound (join '' '' args)"
proof
  assume nf: "is_not_found e"
  show "e = ZfsNotFound (join '' '' args)"
  proof (cases e)
    case (Failed a c err)
    with assms have "\<not> contains_str ''does not exist'' err" by (auto dest: zfs_run_Failed)
    moreover have "\<not> contains_str ''dataset does not exist'' err"
      using calculation contains_str_longer [of "''dataset ''" "''does not exist''" err] by auto
    ultimately show ?thesis using nf Failed by simp
  next
    case (ZfsNotFound s)
    with assms show ?thesis
      by (auto simp: zfs_run_def Let_def split: prod.splits outcome.splits if_splits)
  qed (use nf in auto)
qed simp

section \<open>Listings read back\<close>

definition print_int :: "int \<Rightarrow> string" where
  "print_int i = (if i < 0 then CHR ''-'' # fmt_radix 10 (nat (- i)) else fmt_radix 10 (nat i))"

definition print_u64 :: "u64 \<Rightarrow> string" where
  "print_u64 w = fmt_radix 10 (unat w)"

text \<open>A line of \<open>zfs list -Hp\<close>: decimal numbers, fields separated by tabs.\<close>

definition snapshot_line :: "zfs_snapshot \<Rightarrow> string" where
  "snapshot_line s = zs_name s @ tab # print_u64 (guid_u64 (zs_guid s)) @ tab #
     print_u64 (zs_createtxg s) @ tab # print_int (zs_creation s) @ tab # print_u64 (zs_referenced s)"

definition listable :: "zfs_snapshot \<Rightarrow> bool" where
  "listable s \<longleftrightarrow> zs_name s = zs_dataset s @ CHR ''@'' # zs_snapname s \<and> CHR ''@'' \<notin> set (zs_dataset s) \<and>
     tab \<notin> set (zs_name s) \<and> newline \<notin> set (zs_name s) \<and>
     - (2 ^ 63) \<le> zs_creation s \<and> zs_creation s < 2 ^ 63"

lemma fmt_digits: "c \<in> set (fmt_radix 10 n) \<Longrightarrow> c \<in> digit_char ` {..<10}"
  using radix_digits_less [of 10 _ n] by (auto simp: fmt_radix_def)

lemma digit_char_not:
  "tab \<notin> digit_char ` {..<10}" "newline \<notin> digit_char ` {..<10}" "CHR 0x0D \<notin> digit_char ` {..<10}"
proof -
  have "\<exists>d. digit_value 16 c = Some d" if "c \<in> digit_char ` {..<10}" for c
    using that by (intro digit_char_hex) auto
  moreover have "digit_value 16 tab = None" "digit_value 16 newline = None" "digit_value 16 (CHR 0x0D) = None"
    by (simp_all add: digit_value_def)
  ultimately show "tab \<notin> digit_char ` {..<10}" "newline \<notin> digit_char ` {..<10}"
    "CHR 0x0D \<notin> digit_char ` {..<10}" by fastforce+
qed

lemma print_no_sep [simp]:
  "tab \<notin> set (fmt_radix 10 n)" "newline \<notin> set (fmt_radix 10 n)" "CHR 0x0D \<notin> set (fmt_radix 10 n)"
  using fmt_digits [of _ n] digit_char_not by blast+

lemma print_no_tab [simp]: "tab \<notin> set (print_u64 w)" "tab \<notin> set (print_int i)"
  by (simp_all add: print_u64_def print_int_def)

lemma split_lines_append:
  "newline \<notin> set l \<Longrightarrow> str_lines (l @ newline # s) = strip_cr l # str_lines s"
  by (simp add: str_lines_def Let_def split_on_append_sep)

lemma str_lines_concat:
  assumes "\<forall>l \<in> set ls. newline \<notin> set l \<and> l \<noteq> [] \<and> last l \<noteq> CHR 0x0D"
  shows "str_lines (concat (map (\<lambda>l. l @ [newline]) ls)) = ls"
  using assms
  by (induction ls) (auto simp: str_lines_def Let_def split_on_append_sep strip_cr_def)

lemma parse_digits_fmt: "n < bound \<Longrightarrow> parse_digits 10 bound 0 (fmt_radix 10 n) = Inr n"
  using parse_digits_map [of 10 "radix_digits 10 n" 0 bound] radix_digits_less [of 10 _ n]
  by (simp add: fmt_radix_def digits_val_radix_digits)

lemma hd_fmt: "hd (fmt_radix 10 n) \<noteq> CHR ''+''" "hd (fmt_radix 10 n) \<noteq> CHR ''-''"
proof -
  obtain d where "hd (fmt_radix 10 n) = digit_char d" "d < 16"
    using fmt_radix_ends(2) [of 10 n] by auto
  then show "hd (fmt_radix 10 n) \<noteq> CHR ''+''" "hd (fmt_radix 10 n) \<noteq> CHR ''-''"
    using digit_char_nonsign by simp_all
qed

lemma fmt_ne [simp]: "fmt_radix 10 n \<noteq> []"
  by (rule fmt_radix_ends) simp_all

lemma parse_i64_print: "- (2 ^ 63) \<le> i \<Longrightarrow> i < 2 ^ 63 \<Longrightarrow> parse_i64 (print_int i) = Inr i"
proof -
  assume i: "- (2 ^ 63) \<le> i" "i < 2 ^ 63"
  have ne: "fmt_radix 10 n \<noteq> ''+''" "fmt_radix 10 n \<noteq> ''-''" for n
    using hd_fmt [of n] by auto
  show ?thesis
  proof (cases "i < 0")
    case True
    with i have "nat (- i) < 2 ^ 63 + 1" by simp
    with True show ?thesis
      using parse_digits_fmt [of "nat (- i)" "2 ^ 63 + 1"] by (simp add: parse_i64_def print_int_def)
  next
    case False
    with i have "nat i < 2 ^ 63" by simp
    with False show ?thesis
      using parse_digits_fmt [of "nat i" "2 ^ 63"] hd_fmt [of "nat i"] ne [of "nat i"]
      by (simp add: parse_i64_def print_int_def)
  qed
qed

lemma parse_u64_print [simp]: "parse_u64 (print_u64 w) = Inr w"
  using parse_u64_fmt [of "unat w"] unsigned_less [of w, where 'a = nat] by (simp add: print_u64_def)

lemma parse_snapshot_line: "listable s \<Longrightarrow> parse_snapshot (snapshot_line s) = Inr s"
proof -
  assume l: "listable s"
  then have n: "tab \<notin> set (zs_name s)" unfolding listable_def by blast
  have sp: "split_on tab (snapshot_line s) = [zs_name s, print_u64 (guid_u64 (zs_guid s)),
      print_u64 (zs_createtxg s), print_int (zs_creation s), print_u64 (zs_referenced s)]"
    using n by (simp add: snapshot_line_def split_on_append_sep split_on_no_sep)
  have "split_once (CHR ''@'') (zs_name s) = Some (zs_dataset s, zs_snapname s)"
    using l by (simp add: listable_def split_once_append)
  moreover have "guid_from_zfs (print_u64 (guid_u64 (zs_guid s))) = Inr (zs_guid s)"
    using guid_from_zfs_fmt [of "guid_u64 (zs_guid s)"] by (simp add: print_u64_def)
  moreover have "parse_i64 (print_int (zs_creation s)) = Inr (zs_creation s)"
    using l by (intro parse_i64_print) (simp_all add: listable_def)
  ultimately show ?thesis
    by (simp add: parse_snapshot_def Let_def sp map_err_def)
qed

lemma map_result_map: "(\<And>x. x \<in> set xs \<Longrightarrow> f (g x) = Inr x) \<Longrightarrow> map_result f (map g xs) = Inr xs"
  by (induction xs) auto

text \<open>A listing of snapshots printed by \<open>zfs list -Hp\<close> is read back as it is.\<close>

lemma snapshots_read_back:
  assumes "\<forall>s \<in> set ss. listable s"
  shows "map_result parse_snapshot (str_lines (concat (map (\<lambda>s. snapshot_line s @ [newline]) ss))) = Inr ss"
proof -
  have line: "newline \<notin> set (snapshot_line s)" "snapshot_line s \<noteq> []" "last (snapshot_line s) \<noteq> CHR 0x0D"
    if "s \<in> set ss" for s
  proof -
    have "last (fmt_radix 10 n) \<in> set (fmt_radix 10 n)" for n by simp
    then have "last (fmt_radix 10 n) \<noteq> CHR 0x0D" for n using print_no_sep(3) [of n] by metis
    then show "newline \<notin> set (snapshot_line s)" "snapshot_line s \<noteq> []" "last (snapshot_line s) \<noteq> CHR 0x0D"
      using assms that
      by (auto simp: snapshot_line_def listable_def print_u64_def print_int_def)
  qed
  have "str_lines (concat (map (\<lambda>s. snapshot_line s @ [newline]) ss)) = map snapshot_line ss"
    using str_lines_concat [of "map snapshot_line ss"] line by (simp add: comp_def)
  then show ?thesis
    using assms by (simp add: map_result_map parse_snapshot_line)
qed

section \<open>Names that carry a GUID\<close>

lemma bookmark_short_no_hash: "CHR ''#'' \<notin> set job \<Longrightarrow> CHR ''#'' \<notin> set (bookmark_short job g)"
proof -
  have "CHR ''#'' \<notin> set (guid_display g)"
  proof
    assume "CHR ''#'' \<in> set (guid_display g)"
    then have "\<exists>d. digit_value 16 (CHR ''#'') = Some d" by (intro digit_char_hex guid_display_chars)
    then show False by (simp add: digit_value_def)
  qed
  then show "CHR ''#'' \<notin> set job \<Longrightarrow> CHR ''#'' \<notin> set (bookmark_short job g)"
    by (simp add: bookmark_short_def)
qed

lemma bookmark_guid_name:
  assumes "CHR ''#'' \<notin> set job" "CHR ''#'' \<notin> set job'"
  shows "bookmark_guid job (bookmark_name job' snap g) = (if job = job' then Some g else None)"
proof -
  have r: "rsplit_first (CHR ''#'') (bookmark_name job' snap g) = bookmark_short job' g"
    using rsplit_first_append [OF bookmark_short_no_hash [OF assms(2)]]
    by (simp add: bookmark_name_def)
  show ?thesis
  proof (cases "strip_prefix (''zb_'' @ job @ ''_'') (bookmark_short job' g)")
    case None
    moreover have "strip_prefix (''zb_'' @ job @ ''_'') (bookmark_short job g) = Some (guid_display g)"
      by (simp add: strip_prefix_Some bookmark_short_def)
    ultimately show ?thesis using None r by (auto simp: bookmark_guid_def)
  next
    case (Some rest)
    then have eq: "job' @ ''_'' @ guid_display g = job @ ''_'' @ rest"
      by (simp add: strip_prefix_Some bookmark_short_def)
    show ?thesis
    proof (cases "job = job'")
      case True
      with eq have "rest = guid_display g" by simp
      with True Some r show ?thesis by (simp add: bookmark_guid_def guid_from_str_display)
    next
      case False
      have "length rest \<noteq> 16"
      proof
        assume "length rest = 16"
        then have "length (guid_display g) = length rest" by simp
        moreover have "(job' @ ''_'') @ guid_display g = (job @ ''_'') @ rest" using eq by simp
        ultimately have "job' @ ''_'' = job @ ''_''"
          using append_eq_append_conv [of "job' @ ''_''" "job @ ''_''" "guid_display g" rest] by blast
        with False show False by simp
      qed
      with Some r False show ?thesis by (simp add: bookmark_guid_def guid_from_str_def)
    qed
  qed
qed

section \<open>Idempotence\<close>

lemma bookmark_Ok:
  assumes "bookmark sh snap bm x = (Inr (), x')"
  shows "(\<exists>out. zfs_run sh [''bookmark'', snap, bm] x = (Inr out, x')) \<or>
    (\<exists>e x1. zfs_run sh [''bookmark'', snap, bm] x = (Inl e, x1) \<and>
       bookmark_exists sh bm x1 = (Inr True, x'))"
  using assms
  by (auto simp: bookmark_def try_io_def bind_io_def split: prod.splits sum.splits if_splits)

end
