(* ===== verification/Format_Properties.thy ===== *)
theory Format_Properties
  imports Zfs_Cli Stream_Synth "HOL-Library.Code_Target_Nat"
begin

text \<open>
  What the formats guarantee: GUIDs and sizes (\<open>src/types.rs\<close>), object keys
  (\<open>src/manifest.rs\<close>), and the text the \<open>zfs\<close> command prints and is given (\<open>src/zfs.rs\<close>).
\<close>

section \<open>GUIDs and sizes\<close>

text \<open>C37: A GUID's sixteen hexadecimal digits and the GUID determine each other: printing and then
  parsing gives the GUID back, and whatever parses prints as the same digits in lower case, so
  two keys that differ name different snapshots. (Nothing else of sixteen digits is refused.)\<close>

theorem guid_roundtrip:
  "guid_from_str (guid_display g) = Inr g \<and>
   (guid_from_str s = Inr g) = (length s = 16 \<and> guid_display g = to_ascii_lowercase s)"
proof
  show "guid_from_str (guid_display g) = Inr g" by (rule guid_from_str_display)
  show "(guid_from_str s = Inr g) = (length s = 16 \<and> guid_display g = to_ascii_lowercase s)"
    by (rule guid_from_str_iff)
qed


section \<open>Keys\<close>

text \<open>C31: No two objects of one bucket prefix share a key: manifests, resume markers, chunks and pins
  are told apart by their names, and within each kind equal keys mean equal GUIDs and sequence
  numbers. Hence two backups never overwrite each other's objects.\<close>

theorem keys_never_collide:
  "(manifest_key p d s = manifest_key p d' s') = (d = d' \<and> s = s') \<and>
   (pending_key p d s = pending_key p d' s') = (d = d' \<and> s = s') \<and>
   (chunk_key p d s q = chunk_key p d' s' q') = (d = d' \<and> s = s' \<and> q = q') \<and>
   (pin_key p s = pin_key p s') = (s = s') \<and>
   distinct [manifest_key p d s, pending_key p d' s', chunk_key p d'' s'' q, pin_key p g]"
  using key_kinds [symmetric] by (simp add: key_inject key_kinds)

section \<open>The \<open>zfs\<close> command\<close>

text \<open>C39: The listing of snapshots is read exactly: when \<open>zfs list\<close> prints one line per snapshot, with
  decimal GUIDs and sizes and names without tabs and line feeds, the result is those snapshots, all of them,
  in the order printed, with every field as printed.\<close>

theorem snapshots_read_exactly:
  assumes "zfs_run sh [''list'', ''-Hp'', ''-t'', ''snapshot'', ''-s'', ''createtxg'', ''-o'',
         ''name,guid,createtxg,creation,referenced'', ''-d'', ''1'', ds] x
      = (Inr (concat (map (\<lambda>s. snapshot_line s @ [newline]) ss)), x')"
    and "list_all listable ss"
  shows "snapshots sh ds x = (Inr ss, x')"
  using assms(1) snapshots_read_back [of ss] assms(2)
  by (simp add: snapshots_def bind_io_def lift_result_def list_all_iff)

definition zfs_two :: "zfs_snapshot list" where
  "zfs_two =
     [\<lparr>zs_name = ''tank/a@1'', zs_dataset = ''tank/a'', zs_snapname = ''1'', zs_guid = Guid 4660,
       zs_createtxg = 77, zs_creation = 1700000000, zs_referenced = 4096\<rparr>,
      \<lparr>zs_name = ''tank/a@2 b'', zs_dataset = ''tank/a'', zs_snapname = ''2 b'', zs_guid = Guid 4661,
       zs_createtxg = 99, zs_creation = - 5, zs_referenced = 0\<rparr>]"

definition zfs_two_answer :: "unit runner" where
  "zfs_two_answer _ x =
     (Exited (Some 0) (name_bytes (concat (map (\<lambda>s. snapshot_line s @ [newline]) zfs_two))) [], x)"

theorem snapshots_read_exactly_witness: "snapshots zfs_two_answer ''tank/a'' () = (Inr zfs_two, ())"
proof (rule snapshots_read_exactly)
  show "list_all listable zfs_two" by (simp add: zfs_two_def listable_def)
  show "zfs_run zfs_two_answer [''list'', ''-Hp'', ''-t'', ''snapshot'', ''-s'', ''createtxg'', ''-o'',
         ''name,guid,createtxg,creation,referenced'', ''-d'', ''1'', ''tank/a''] ()
      = (Inr (concat (map (\<lambda>s. snapshot_line s @ [newline]) zfs_two)), ())"
  proof -
    have "plain_name (concat (map (\<lambda>s. snapshot_line s @ [newline]) zfs_two))" by code_simp
    then show ?thesis
      by (simp add: zfs_run_def Let_def zfs_two_answer_def utf8_lossy_plain string_of_name_bytes)
  qed
qed

text \<open>A \<open>zfs\<close> call that fails because the dataset, snapshot or bookmark is gone is reported as "not
  found", and nothing else is: the text \<open>does not exist\<close> in the error output decides, so the
  callers' \<open>is_not_found\<close> and the variant agree for every outcome of the command.\<close>

theorem zfs_not_found_exact:
  assumes "zfs_run sh args x = (Inl e, x')"
  shows "is_not_found e = (e = ZfsNotFound (join '' '' args)) \<and>
    is_not_found e = (\<exists>code out err. fst (sh args x) = Exited code out err \<and> code \<noteq> Some 0 \<and>
      contains_str ''does not exist'' (trim (string_of_bytes (utf8_lossy err))))"
proof
  show iff: "is_not_found e = (e = ZfsNotFound (join '' '' args))" using assms by (rule zfs_run_not_found)
  show "is_not_found e = (\<exists>code out err. fst (sh args x) = Exited code out err \<and> code \<noteq> Some 0 \<and>
      contains_str ''does not exist'' (trim (string_of_bytes (utf8_lossy err))))"
    unfolding iff using assms
    by (auto simp: zfs_run_def Let_def split: prod.splits outcome.splits if_splits)
qed

theorem zfs_not_found_exact_witness:
  "\<exists>e. zfs_run (\<lambda>_ x. (Exited (Some 1) [] (name_bytes ''x: does not exist''), x)) [''get'', ''x''] () = (Inl e, ()) \<and>
     is_not_found e = (e = ZfsNotFound ''get x'') \<and> is_not_found e"
proof -
  let ?sh = "\<lambda>_ x. (Exited (Some 1) [] (name_bytes ''x: does not exist''), x)"
  have "contains_str ''does not exist'' (trim ''x: does not exist'')" by code_simp
  moreover have "plain_name ''x: does not exist''" by code_simp
  ultimately have "zfs_run ?sh [''get'', ''x''] () = (Inl (ZfsNotFound ''get x''), ())"
    by (simp add: zfs_run_def Let_def utf8_lossy_plain string_of_name_bytes)
  with zfs_not_found_exact [OF this] show ?thesis by simp
qed

text \<open>A bookmark that a send leaves behind is recognised later, and only by the job that made it: the
  GUID in its name is read back for the same job, for any snapshot name, and a bookmark of another job never is
  taken for one of ours.\<close>

theorem bookmark_recognised:
  assumes "CHR ''#'' \<notin> set job" "CHR ''#'' \<notin> set job'"
  shows "bookmark_guid job (bookmark_name job' snap g) = (if job = job' then Some g else None)"
  using assms by (rule bookmark_guid_name)

theorem bookmark_recognised_witness:
  "bookmark_guid ''nightly'' (bookmark_name ''nightly'' ''tank/a@1'' (Guid 255)) = Some (Guid 255) \<and>
   bookmark_guid ''hourly'' (bookmark_name ''nightly'' ''tank/a@1'' (Guid 255)) = None"
  using bookmark_recognised [of "''nightly''" "''nightly''" "''tank/a@1''" "Guid 255"]
    bookmark_recognised [of "''hourly''" "''nightly''" "''tank/a@1''" "Guid 255"] by simp

end
