(* ===== verification/Object_Store.thy ===== *)
theory Object_Store
  imports Manifests
begin

text \<open>
  \<open>src/store/mod.rs\<close>: the handle to one bucket. The \<open>object_store\<close> crate and the bucket
  calls of \<open>store/admin.rs\<close> are parameters: \<open>backend\<close> and \<open>admin_api\<close> are records of
  their operations over an arbitrary outside world \<open>'x\<close>. The store's own state is the flag
  \<open>crc32c_on\<close>, shared by its clones. The locale \<open>s3_backend\<close> states what the crate and the
  service promise to a client that is alone, a failed write that may or may not have landed
  included; \<open>object_bucket\<close> is the contract the commands use, which the store provides.
\<close>

section \<open>Errors\<close>

text \<open>
  Of \<open>object_store::Error\<close> the code looks at two variants, at the text of their source and
  at the text of the whole.
\<close>

datatype os_error =
  OsGeneric string string \<comment> \<open>source, display\<close>
| OsNotFound string string
| OsOther string

fun os_display :: "os_error \<Rightarrow> string" where
  "os_display (OsGeneric _ d) = d"
| "os_display (OsNotFound _ d) = d"
| "os_display (OsOther d) = d"

datatype admin_error =
  AdHttp string
| AdS3 string nat string string \<comment> \<open>operation, status, code, message\<close>
| AdEndpoint string

datatype store_error =
  NotFound string
| NoSuchUpload string string
| Config string
| Backend os_error
| Admin admin_error

definition is_terminal_s3 :: "string \<Rightarrow> bool" where
  "is_terminal_s3 msg \<longleftrightarrow>
     list_ex (\<lambda>c. contains_str c msg)
       [''NoSuchBucket'', ''AccessDenied'', ''InvalidAccessKeyId'', ''SignatureDoesNotMatch'',
        ''AuthorizationHeaderMalformed'', ''PermanentRedirect'', ''InvalidBucketName'']"

fun is_retryable :: "store_error \<Rightarrow> bool" where
  "is_retryable (Backend (OsGeneric source _)) = (\<not> is_terminal_s3 source)"
| "is_retryable (Backend (OsNotFound source _)) = (\<not> is_terminal_s3 source)"
| "is_retryable (Backend (OsOther _)) = False"
| "is_retryable (Admin (AdHttp _)) = True"
| "is_retryable (Admin (AdS3 _ status code _)) =
     (500 \<le> status \<or>
      code \<in> {''SlowDown'', ''RequestTimeout'', ''InternalError'', ''ServiceUnavailable'', ''BadDigest''})"
| "is_retryable _ = False"

definition admin_store_error :: "admin_error \<Rightarrow> string \<Rightarrow> string \<Rightarrow> store_error" where
  "admin_store_error e key upload_id =
     (case e of
        AdS3 _ _ code _ \<Rightarrow> (if code = ''NoSuchUpload'' then NoSuchUpload key upload_id else Admin e)
      | _ \<Rightarrow> Admin e)"

definition map_nf :: "os_error \<Rightarrow> string \<Rightarrow> store_error" where
  "map_nf e key = (case e of OsNotFound _ _ \<Rightarrow> NotFound key | _ \<Rightarrow> Backend e)"

definition is_no_such_upload :: "os_error \<Rightarrow> bool" where
  "is_no_such_upload e \<longleftrightarrow>
     contains_str ''NoSuchUpload'' (os_display e) \<or> contains_str ''no such upload'' (os_display e) \<or>
     contains_str ''UploadNotFound'' (os_display e)"

section \<open>Configuration\<close>

record s3_config =
  endpoint :: string
  region :: string
  bucket :: string
  access_key_id :: string
  secret_access_key :: string
  path_style :: bool
  allow_http :: bool
  insecure_tls :: bool
  sha256_checksums :: bool
  max_retries :: nat
  retry_timeout_secs :: u64
  request_timeout_secs :: u64

text \<open>The endpoint handed to the crate: virtual-hosted addressing puts the bucket in the host.\<close>

definition split_scheme :: "string \<Rightarrow> (string \<times> string) option" where
  "split_scheme s =
     (case find_str ''://'' s of None \<Rightarrow> None | Some i \<Rightarrow> Some (take i s, drop (i + 3) s))"

definition store_endpoint :: "s3_config \<Rightarrow> string" where
  "store_endpoint cfg =
     (if path_style cfg then endpoint cfg
      else
        (case split_scheme (endpoint cfg) of
           Some (scheme, host) \<Rightarrow> scheme @ ''://'' @ bucket cfg @ ''.'' @ host
         | None \<Rightarrow> bucket cfg @ ''.'' @ endpoint cfg))"

definition store_label :: "s3_config \<Rightarrow> string" where
  "store_label cfg = ''s3://'' @ bucket cfg @ ''@'' @ endpoint cfg"

section \<open>The store\<close>

record 'x backend =
  be_path :: "string \<Rightarrow> string" \<comment> \<open>\<open>Path::from\<close>, printed\<close>
  be_put :: "string \<Rightarrow> bytes \<Rightarrow> ('x, os_error, unit) io"
  be_get :: "string \<Rightarrow> ('x, os_error, bytes) io"
  be_delete :: "string \<Rightarrow> ('x, os_error, unit) io"
  be_list :: "string \<Rightarrow> ('x, os_error, (string \<times> u64) list) io"
  be_list_dirs :: "string \<Rightarrow> ('x, os_error, string list) io"
  be_create_multipart :: "string \<Rightarrow> ('x, os_error, string) io"
  be_abort_multipart :: "string \<Rightarrow> string \<Rightarrow> ('x, os_error, unit) io"

record 'x admin_api =
  ad_put_object_crc32c :: "string \<Rightarrow> bytes \<Rightarrow> u32 \<Rightarrow> ('x, admin_error, unit) io"
  ad_list_uploads :: "string \<Rightarrow> ('x, admin_error, (string \<times> string) list) io"
  ad_list_versions :: "string \<Rightarrow> ('x, admin_error, (string \<times> string) list) io"
  ad_delete_version :: "string \<Rightarrow> string \<Rightarrow> ('x, admin_error, unit) io"
  ad_show :: "admin_error \<Rightarrow> string" \<comment> \<open>the error's text\<close>

record 'x store =
  st_inner :: "'x backend"
  st_admin :: "'x admin_api option"

record 'x sys =
  ext :: 'x
  crc32c_on :: bool

text \<open>A call on the outside world; \<open>k\<close> turns its error into the store's.\<close>

definition outside :: "('e \<Rightarrow> store_error) \<Rightarrow> ('x, 'e, 'a) io \<Rightarrow> ('x sys, store_error, 'a) io" where
  "outside k m s = (case m (ext s) of (r, x) \<Rightarrow> (map_sum k id r, s\<lparr>ext := x\<rparr>))"

definition store_path :: "'x store \<Rightarrow> string \<Rightarrow> string" where
  "store_path st key = be_path (st_inner st) key"

definition store_put :: "'x store \<Rightarrow> string \<Rightarrow> bytes \<Rightarrow> ('x sys, store_error, unit) io" where
  "store_put st key data = outside Backend (be_put (st_inner st) (store_path st key) data)"

definition store_put_verified ::
  "'x store \<Rightarrow> string \<Rightarrow> bytes \<Rightarrow> u32 \<Rightarrow> ('x sys, store_error, unit) io" where
  "store_put_verified st key data crc s =
     (case st_admin st of
        None \<Rightarrow> store_put st key data s
      | Some a \<Rightarrow>
          (if \<not> crc32c_on s then store_put st key data s
           else
             (case ad_put_object_crc32c a key data crc (ext s) of (r, x) \<Rightarrow>
                (case r of
                   Inr _ \<Rightarrow> (Inr (), s\<lparr>ext := x\<rparr>)
                 | Inl (AdS3 op status code msg) \<Rightarrow>
                     (if code = ''ChecksumNotEchoed''
                      then store_put st key data (s\<lparr>ext := x, crc32c_on := False\<rparr>)
                      else (Inl (admin_store_error (AdS3 op status code msg) key []), s\<lparr>ext := x\<rparr>))
                 | Inl e \<Rightarrow> (Inl (admin_store_error e key []), s\<lparr>ext := x\<rparr>)))))"

definition store_get :: "'x store \<Rightarrow> string \<Rightarrow> ('x sys, store_error, bytes) io" where
  "store_get st key = outside (\<lambda>e. map_nf e key) (be_get (st_inner st) (store_path st key))"

definition store_delete :: "'x store \<Rightarrow> string \<Rightarrow> ('x sys, store_error, unit) io" where
  "store_delete st key =
     try_io (outside Backend (be_delete (st_inner st) (store_path st key))) (\<lambda>r.
       case r of
         Inl (Backend (OsNotFound _ _)) \<Rightarrow> ret ()
       | _ \<Rightarrow> lift_result r)"

definition store_list :: "'x store \<Rightarrow> string \<Rightarrow> ('x sys, store_error, (string \<times> u64) list) io" where
  "store_list st prefix = outside Backend (be_list (st_inner st) (store_path st prefix))"

definition store_list_dirs :: "'x store \<Rightarrow> string \<Rightarrow> ('x sys, store_error, string list) io" where
  "store_list_dirs st prefix = outside Backend (be_list_dirs (st_inner st) (store_path st prefix))"

definition store_create_multipart :: "'x store \<Rightarrow> string \<Rightarrow> ('x sys, store_error, string) io" where
  "store_create_multipart st key =
     outside Backend (be_create_multipart (st_inner st) (store_path st key))"

definition store_abort_multipart :: "'x store \<Rightarrow> string \<Rightarrow> string \<Rightarrow> ('x sys, store_error, unit) io" where
  "store_abort_multipart st key upload_id =
     try_io (outside Backend (be_abort_multipart (st_inner st) (store_path st key) upload_id)) (\<lambda>r.
       case r of
         Inl (Backend e) \<Rightarrow> (if is_no_such_upload e then ret () else throw (Backend e))
       | _ \<Rightarrow> lift_result r)"

definition store_list_uploads ::
  "'x store \<Rightarrow> string \<Rightarrow> ('x sys, store_error, (string \<times> string) list) io" where
  "store_list_uploads st prefix =
     (case st_admin st of
        Some a \<Rightarrow> outside (\<lambda>e. Config (ad_show a e)) (ad_list_uploads a prefix)
      | None \<Rightarrow> ret [])"

definition store_list_versions ::
  "'x store \<Rightarrow> string \<Rightarrow> ('x sys, store_error, (string \<times> string) list) io" where
  "store_list_versions st prefix =
     (case st_admin st of
        Some a \<Rightarrow> outside Admin (ad_list_versions a prefix)
      | None \<Rightarrow> bind_io (store_list st prefix) (\<lambda>items. ret (map (\<lambda>(k, _). (k, [])) items)))"

definition purge_version :: "'x store \<Rightarrow> string \<times> string \<Rightarrow> ('x sys, store_error, unit) io" where
  "purge_version st kv =
     (case st_admin st of
        Some a \<Rightarrow> outside Admin (ad_delete_version a (fst kv) (snd kv))
      | None \<Rightarrow> store_delete st (fst kv))"

definition purge_prefix :: "'x store \<Rightarrow> string \<Rightarrow> ('x sys, store_error, nat \<times> nat) io" where
  "purge_prefix st prefix =
     bind_io (store_list_versions st prefix) (\<lambda>vs.
     bind_io (for_each (purge_version st) vs) (\<lambda>_.
     bind_io (store_list_uploads st prefix) (\<lambda>us.
     bind_io (for_each (\<lambda>(key, i). store_abort_multipart st key i) us) (\<lambda>_.
       ret (length vs, length us)))))"

section \<open>What the backend promises\<close>

text \<open>
  The keys on which \<open>Path::from\<close> is the identity: segments between slashes, none empty, of
  characters the crate does not encode.
\<close>

definition safe_char :: "char \<Rightarrow> bool" where
  "safe_char c \<longleftrightarrow>
     (let n = of_char c :: nat in
      48 \<le> n \<and> n \<le> 57 \<or> 97 \<le> n \<and> n \<le> 122 \<or> 65 \<le> n \<and> n \<le> 90 \<or>
      c \<in> {CHR ''-'', CHR ''_'', CHR ''.''})"

definition safe_segment :: "string \<Rightarrow> bool" where
  "safe_segment s \<longleftrightarrow> s \<noteq> [] \<and> s \<noteq> ''.'' \<and> s \<noteq> ''..'' \<and> (\<forall>c \<in> set s. safe_char c)"

definition clean_path :: "string \<Rightarrow> bool" where
  "clean_path s \<longleftrightarrow> (\<forall>seg \<in> set (split_on slash s). safe_segment seg)"

text \<open>\<open>below p k\<close>: the object \<open>k\<close> lies in the directory \<open>p\<close>.\<close>

definition below :: "string \<Rightarrow> string \<Rightarrow> bool" where
  "below p k \<longleftrightarrow> starts_with (p @ ''/'') k"

definition bucket_dirs :: "(string \<Rightarrow> bytes option) \<Rightarrow> string \<Rightarrow> string set" where
  "bucket_dirs m p =
     {p @ slash # seg | seg rest. slash \<notin> set seg \<and> m (p @ slash # seg @ slash # rest) \<noteq> None}"


locale object_bucket =
  fixes put :: "string \<Rightarrow> bytes \<Rightarrow> ('s, store_error, unit) io"
    and get :: "string \<Rightarrow> ('s, store_error, bytes) io"
    and del :: "string \<Rightarrow> ('s, store_error, unit) io"
    and list_at :: "string \<Rightarrow> ('s, store_error, (string \<times> u64) list) io"
    and dirs_at :: "string \<Rightarrow> ('s, store_error, string list) io"
    and objects :: "'s \<Rightarrow> string \<Rightarrow> bytes option"
  assumes put_any: "clean_path k \<Longrightarrow> put k v s = (r, s') \<Longrightarrow>
      objects s' = objects s \<or> objects s' = (objects s)(k \<mapsto> v)"
    and put_ok: "clean_path k \<Longrightarrow> put k v s = (Inr u, s') \<Longrightarrow> objects s' = (objects s)(k \<mapsto> v)"
    and get_any: "clean_path k \<Longrightarrow> get k s = (rg, s') \<Longrightarrow> objects s' = objects s"
    and get_ok: "clean_path k \<Longrightarrow> get k s = (Inr v, s') \<Longrightarrow> objects s k = Some v"
    and get_missing: "clean_path k \<Longrightarrow> get k s = (Inl (NotFound n), s') \<Longrightarrow> objects s k = None"
    and del_any: "clean_path k \<Longrightarrow> del k s = (r, s') \<Longrightarrow>
      objects s' = objects s \<or> objects s' = (objects s)(k := None)"
    and del_ok: "clean_path k \<Longrightarrow> del k s = (Inr u, s') \<Longrightarrow> objects s' = (objects s)(k := None)"
    and list_any: "clean_path p \<Longrightarrow> list_at (p @ ''/'') s = (rl, s') \<Longrightarrow> objects s' = objects s"
    and list_ok: "clean_path p \<Longrightarrow> list_at (p @ ''/'') s = (Inr items, s') \<Longrightarrow>
      distinct (map fst items) \<and>
      (\<forall>k n. (k, n) \<in> set items \<longleftrightarrow>
         (\<exists>v. objects s k = Some v \<and> below p k \<and> n = of_nat (length v)))"
    and dirs_any: "clean_path p \<Longrightarrow> dirs_at (p @ ''/'') s = (rd, s') \<Longrightarrow> objects s' = objects s"
    and dirs_ok: "clean_path p \<Longrightarrow> dirs_at (p @ ''/'') s = (Inr ds, s') \<Longrightarrow>
      distinct ds \<and> set ds = bucket_dirs (objects s) p"
begin

text \<open>What a client may conclude about a predicate on the contents of the bucket.\<close>

lemma put_keeps:
  assumes "clean_path k" "\<And>m. P m \<Longrightarrow> P (m(k \<mapsto> v))"
  shows "keeps (\<lambda>s. P (objects s)) (put k v)"
  unfolding keeps_def using put_any [OF assms(1)] assms(2) by (metis prod.collapse)

lemma del_keeps:
  assumes "clean_path k" "\<And>m. P m \<Longrightarrow> P (m(k := None))"
  shows "keeps (\<lambda>s. P (objects s)) (del k)"
  unfolding keeps_def using del_any [OF assms(1)] assms(2) by (metis prod.collapse)

lemma get_keeps: "clean_path k \<Longrightarrow> keeps (\<lambda>s. P (objects s)) (get k)"
  unfolding keeps_def using get_any by (metis prod.collapse)

lemma list_keeps: "clean_path p \<Longrightarrow> keeps (\<lambda>s. P (objects s)) (list_at (p @ ''/''))"
  unfolding keeps_def using list_any by (metis prod.collapse)

lemma dirs_keeps: "clean_path p \<Longrightarrow> keeps (\<lambda>s. P (objects s)) (dirs_at (p @ ''/''))"
  unfolding keeps_def using dirs_any by (metis prod.collapse)

text \<open>Deleting a list of objects: on success they are gone, the rest is as it was.\<close>

lemma del_all:
  "\<forall>k \<in> set ks. clean_path k \<Longrightarrow> for_each del ks s = (Inr u, s') \<Longrightarrow>
   objects s' = (\<lambda>k. if k \<in> set ks then None else objects s k)"
proof (induction ks arbitrary: s)
  case (Cons k ks)
  from Cons.prems(2) obtain s1 where s1: "del k s = (Inr (), s1)" "for_each del ks s1 = (Inr u, s')"
    by (auto simp: bind_io_Inr)
  have "objects s1 = (objects s)(k := None)" using Cons.prems(1) s1(1) by (intro del_ok) auto
  with Cons.IH [OF _ s1(2)] Cons.prems(1) show ?case by (auto simp: fun_eq_iff)
qed simp

end

locale s3_backend =
  fixes be :: "'x backend" and view :: "'x \<Rightarrow> string \<Rightarrow> bytes option"
  assumes path_clean: "clean_path k \<Longrightarrow> be_path be k = k"
    and path_dir: "clean_path k \<Longrightarrow> be_path be (k @ ''/'') = k"
    and be_put_any: "be_put be k v x = (r, x') \<Longrightarrow> view x' = view x \<or> view x' = (view x)(k \<mapsto> v)"
    and be_put_ok: "be_put be k v x = (Inr u, x') \<Longrightarrow> view x' = (view x)(k \<mapsto> v)"
    and be_get_any: "be_get be k x = (rg, x') \<Longrightarrow> view x' = view x"
    and be_get_ok: "be_get be k x = (Inr v, x') \<Longrightarrow> view x k = Some v"
    and be_get_missing: "be_get be k x = (Inl (OsNotFound a b), x') \<Longrightarrow> view x k = None"
    and be_delete_any: "be_delete be k x = (r, x') \<Longrightarrow>
      view x' = view x \<or> view x' = (view x)(k := None)"
    and be_delete_ok: "be_delete be k x = (Inr u, x') \<Longrightarrow> view x' = (view x)(k := None)"
    and be_delete_missing: "be_delete be k x = (Inl (OsNotFound a b), x') \<Longrightarrow>
      view x' = (view x)(k := None)"
    and be_list_any: "be_list be p x = (rl, x') \<Longrightarrow> view x' = view x"
    and be_list_ok: "be_list be p x = (Inr items, x') \<Longrightarrow>
      distinct (map fst items) \<and>
      (\<forall>k n. (k, n) \<in> set items \<longleftrightarrow> (\<exists>v. view x k = Some v \<and> below p k \<and> n = of_nat (length v)))"
    and be_dirs_any: "be_list_dirs be p x = (rd, x') \<Longrightarrow> view x' = view x"
    and be_dirs_ok: "be_list_dirs be p x = (Inr ds, x') \<Longrightarrow> distinct ds \<and> set ds = bucket_dirs (view x) p"
begin

abbreviation contents :: "'x sys \<Rightarrow> string \<Rightarrow> bytes option" where
  "contents s \<equiv> view (ext s)"

lemma outside_split:
  "outside k m s = (r, s') \<longleftrightarrow>
   (\<exists>r0 x. m (ext s) = (r0, x) \<and> r = map_sum k id r0 \<and> s' = s\<lparr>ext := x\<rparr>)"
  by (auto simp: outside_def split: prod.splits)

end

text \<open>The store of a backend is a bucket in the sense of the contract.\<close>

locale s3_store = s3_backend be view
  for be :: "'x backend" and view :: "'x \<Rightarrow> string \<Rightarrow> bytes option" +
  fixes st :: "'x store"
  assumes inner: "st_inner st = be"
begin

lemma store_put_any:
  assumes "clean_path k" "store_put st k v s = (r, s')"
  shows "contents s' = contents s \<or> contents s' = (contents s)(k \<mapsto> v)"
    and "r = Inr u \<Longrightarrow> contents s' = (contents s)(k \<mapsto> v)"
proof -
  from assms obtain r0 x where p: "be_put be k v (ext s) = (r0, x)" "r = map_sum Backend id r0" "ext s' = x"
    by (auto simp: store_put_def store_path_def inner path_clean outside_split)
  show "contents s' = contents s \<or> contents s' = (contents s)(k \<mapsto> v)"
    using be_put_any [OF p(1)] p(3) by simp
  show "r = Inr u \<Longrightarrow> contents s' = (contents s)(k \<mapsto> v)"
    using p be_put_ok [of k v "ext s" _ x] by (cases r0) auto
qed

lemma store_get_any:
  assumes "clean_path k" "store_get st k s = (r, s')"
  shows "contents s' = contents s" "r = Inr v \<Longrightarrow> contents s k = Some v"
    "r = Inl (NotFound n) \<Longrightarrow> contents s k = None"
proof -
  from assms obtain r0 x where p: "be_get be k (ext s) = (r0, x)" "r = map_sum (\<lambda>e. map_nf e k) id r0"
    "ext s' = x"
    by (auto simp: store_get_def store_path_def inner path_clean outside_split)
  show "contents s' = contents s" using be_get_any [OF p(1)] p(3) by simp
  show "r = Inr v \<Longrightarrow> contents s k = Some v"
    using p be_get_ok [of k "ext s" v x] by (cases r0) auto
  show "r = Inl (NotFound n) \<Longrightarrow> contents s k = None"
    using p be_get_missing [of k "ext s" _ _ x]
    by (cases r0) (auto simp: map_nf_def split: os_error.splits)
qed

lemma store_delete_any:
  assumes "clean_path k" "store_delete st k s = (r, s')"
  shows "contents s' = contents s \<or> contents s' = (contents s)(k := None)"
    and "r = Inr u \<Longrightarrow> contents s' = (contents s)(k := None)"
proof -
  obtain r0 x where p0: "be_delete be k (ext s) = (r0, x)" by fastforce
  have r: "s' = s\<lparr>ext := x\<rparr> \<and> r = (case r0 of Inl (OsNotFound a b) \<Rightarrow> Inr ()
      | Inl e \<Rightarrow> Inl (Backend e) | Inr _ \<Rightarrow> Inr ())"
    using assms p0
    by (cases r0) (auto simp: store_delete_def store_path_def inner path_clean outside_def try_io_def
        ret_def lift_result_def split: os_error.splits)
  then have p: "be_delete be k (ext s) = (r0, x)" "ext s' = x" using p0 by simp_all
  show "contents s' = contents s \<or> contents s' = (contents s)(k := None)"
    using be_delete_any [OF p(1)] p(2) by simp
  show "r = Inr u \<Longrightarrow> contents s' = (contents s)(k := None)"
    using p r be_delete_ok [of k "ext s" _ x] be_delete_missing [of k "ext s" _ _ x]
    by (auto split: sum.splits os_error.splits)
qed

lemma store_list_any:
  assumes "clean_path p" "store_list st (p @ ''/'') s = (r, s')"
  shows "contents s' = contents s"
    "r = Inr items \<Longrightarrow> distinct (map fst items) \<and>
       (\<forall>k n. (k, n) \<in> set items \<longleftrightarrow>
          (\<exists>v. contents s k = Some v \<and> below p k \<and> n = of_nat (length v)))"
proof -
  from assms obtain r0 x where p: "be_list be p (ext s) = (r0, x)" "r = map_sum Backend id r0" "ext s' = x"
    by (auto simp: store_list_def store_path_def inner path_dir [simplified] outside_split)
  show "contents s' = contents s" using be_list_any [OF p(1)] p(3) by simp
  show "r = Inr items \<Longrightarrow> distinct (map fst items) \<and>
       (\<forall>k n. (k, n) \<in> set items \<longleftrightarrow>
          (\<exists>v. contents s k = Some v \<and> below p k \<and> n = of_nat (length v)))"
    using p be_list_ok [of p "ext s" items x] by (cases r0) auto
qed

lemma store_dirs_any:
  assumes "clean_path p" "store_list_dirs st (p @ ''/'') s = (r, s')"
  shows "contents s' = contents s"
    "r = Inr ds \<Longrightarrow> distinct ds \<and> set ds = bucket_dirs (contents s) p"
proof -
  from assms obtain r0 x where p: "be_list_dirs be p (ext s) = (r0, x)" "r = map_sum Backend id r0" "ext s' = x"
    by (auto simp: store_list_dirs_def store_path_def inner path_dir [simplified] outside_split)
  show "contents s' = contents s" using be_dirs_any [OF p(1)] p(3) by simp
  show "r = Inr ds \<Longrightarrow> distinct ds \<and> set ds = bucket_dirs (contents s) p"
    using p be_dirs_ok [of p "ext s" ds x] by (cases r0) auto
qed

end

sublocale s3_store \<subseteq> bk: object_bucket "store_put st" "store_get st" "store_delete st"
  "store_list st" "store_list_dirs st" contents
proof (unfold_locales, goal_cases)
  case (1 k v s r s')
  then show ?case by (rule store_put_any)
next
  case (2 k v s u s')
  then show ?case using store_put_any(2) by blast
next
  case (3 k s r s')
  then show ?case by (rule store_get_any)
next
  case (4 k s v s')
  then show ?case using store_get_any(2) by blast
next
  case (5 k s n s')
  then show ?case using store_get_any(3) by blast
next
  case (6 k s r s')
  then show ?case by (rule store_delete_any)
next
  case (7 k s u s')
  then show ?case using store_delete_any(2) by blast
next
  case (8 p s r s')
  then show ?case by (rule store_list_any)
next
  case (9 p s items s')
  then show ?case using store_list_any(2) by blast
next
  case (10 p s r s')
  then show ?case by (rule store_dirs_any)
next
  case (11 p s ds s')
  then show ?case using store_dirs_any(2) by blast
qed

context s3_store
begin

lemma store_is_bucket:
  "object_bucket (store_put st) (store_get st) (store_delete st) (store_list st) (store_list_dirs st) contents"
  by (rule bk.object_bucket_axioms)

end

section \<open>The keys of a backup are clean\<close>

lemma split_on_append: "split_on c (a @ c # b) = split_on c a @ split_on c b"
proof (induction a)
  case (Cons x a)
  then show ?case by (auto split: list.splits)
qed simp

lemma clean_path_append [simp]: "clean_path (a @ slash # b) \<longleftrightarrow> clean_path a \<and> clean_path b"
  by (auto simp: clean_path_def split_on_append)

lemma clean_path_segment: "slash \<notin> set s \<Longrightarrow> clean_path s \<longleftrightarrow> safe_segment s"
  by (simp add: clean_path_def split_on_no_sep)

lemma safe_digit: "d < 16 \<Longrightarrow> safe_char (digit_char d)"
proof -
  assume "d < 16"
  then have "d \<in> set [0..<16]" by simp
  moreover have "\<forall>d \<in> set [0..<16]. safe_char (digit_char d)"
    by (simp add: upt_rec safe_char_def digit_char_def)
  ultimately show ?thesis by blast
qed

lemma safe_segment_guid: "safe_segment (guid_display g)"
proof -
  have "guid_display g \<noteq> s" if "length s \<noteq> 16" for s
    using that length_guid_display [of g] by metis
  then have "guid_display g \<noteq> []" "guid_display g \<noteq> ''.''" "guid_display g \<noteq> ''..''" by simp_all
  moreover have "safe_char c" if "c \<in> set (guid_display g)" for c
    using guid_display_chars [OF that] safe_digit by auto
  ultimately show ?thesis by (simp add: safe_segment_def)
qed

lemma clean_guid [simp]: "clean_path (guid_display g)"
  by (simp add: clean_path_segment safe_segment_guid)

lemma safe_pad: "c \<in> set (pad_zero w (fmt_radix 10 n)) \<Longrightarrow> safe_char c"
  using radix_digits_less [of 10 _ n] safe_digit by (fastforce simp: pad_zero_fmt)

lemma clean_files [simp]:
  "clean_path ''manifest.json''" "clean_path ''pending.json''" "clean_path ''pins''"
  "clean_path (chunk_file q)"
proof -
  have "clean_path (chunk_file q) \<longleftrightarrow> safe_segment (chunk_file q)"
    by (rule clean_path_segment) simp
  moreover have "safe_char c" if "c \<in> set (chunk_file q)" for c
    using that safe_pad [of c 6 "unat q"] by (auto simp: chunk_file_def safe_char_def)
  ultimately show "clean_path (chunk_file q)"
    by (simp add: safe_segment_def) (simp add: chunk_file_def)
qed (simp_all add: clean_path_segment safe_segment_def safe_char_def)

lemma clean_dir: "clean_path (snapshot_dir p d s) \<longleftrightarrow> clean_path (key_root p)"
  by (simp add: snapshot_dir_def)

lemma clean_keys:
  assumes "clean_path (key_root p)"
  shows "clean_path (manifest_key p d s)" "clean_path (pending_key p d s)"
    "clean_path (chunk_key p d s q)" "clean_path (pin_key p s)"
  using assms clean_path_append [of "''pins''" "guid_display s"]
  by (simp_all add: key_files clean_dir) (simp add: pin_key_def)

end
