(* ===== verification/Mem_Bucket.thy ===== *)
theory Mem_Bucket
  imports Object_Store "HOL-Library.Code_Target_Nat"
begin

text \<open>
  A bucket in memory: the instance on which the interfaces are interpreted and every property
  of the commands is exercised. It is a faulty service, as the interfaces allow: a list of
  fates says which calls fail, and whether a failed write has landed. The same state carries
  the child process of a restore: what it has been fed and the streams it has applied.
\<close>

section \<open>The bucket\<close>

datatype fate = Works | FailsBefore | FailsAfter

record mem =
  me_objects :: "(string \<times> bytes) list"
  me_fates :: "fate list"
  me_clock :: int
  me_fed :: bytes
  me_applied :: "bytes list"
  me_uuids :: nat

definition mem_view :: "mem \<Rightarrow> string \<Rightarrow> bytes option" where
  "mem_view x = map_of (me_objects x)"

text \<open>The fate of the next call; without one it works.\<close>

definition next_fate :: "mem \<Rightarrow> fate \<times> mem" where
  "next_fate x =
     (case me_fates x of [] \<Rightarrow> (Works, x) | f # fs \<Rightarrow> (f, x\<lparr>me_fates := fs\<rparr>))"

definition unavailable :: os_error where
  "unavailable = OsGeneric ''503 Service Unavailable'' ''Generic S3 error: 503''"

definition mem_write :: "(mem \<Rightarrow> mem) \<Rightarrow> (mem, os_error, unit) io" where
  "mem_write f x =
     (case next_fate x of (fate, y) \<Rightarrow>
        (case fate of
           Works \<Rightarrow> (Inr (), f y)
         | FailsBefore \<Rightarrow> (Inl unavailable, y)
         | FailsAfter \<Rightarrow> (Inl unavailable, f y)))"

definition mem_read :: "(mem \<Rightarrow> os_error + 'a) \<Rightarrow> (mem, os_error, 'a) io" where
  "mem_read f x =
     (case next_fate x of (fate, y) \<Rightarrow> (if fate = Works then (f y, y) else (Inl unavailable, y)))"

definition without :: "string \<Rightarrow> mem \<Rightarrow> mem" where
  "without k x = x\<lparr>me_objects := filter (\<lambda>(k', _). k' \<noteq> k) (me_objects x)\<rparr>"

definition with_object :: "string \<Rightarrow> bytes \<Rightarrow> mem \<Rightarrow> mem" where
  "with_object k v x = x\<lparr>me_objects := (k, v) # me_objects (without k x)\<rparr>"

text \<open>The keys below a directory, each once, and the directories right below it.\<close>

definition mem_keys :: "mem \<Rightarrow> string \<Rightarrow> string list" where
  "mem_keys x p = filter (below p) (remdups (map fst (me_objects x)))"

definition mem_lookup :: "string \<Rightarrow> mem \<Rightarrow> os_error + bytes" where
  "mem_lookup k x = ok_or (mem_view x k) (OsNotFound ''404 Not Found'' k)"

definition mem_list :: "string \<Rightarrow> mem \<Rightarrow> os_error + (string \<times> u64) list" where
  "mem_list p x = Inr (map (\<lambda>k. (k, of_nat (length (the (mem_view x k))))) (mem_keys x p))"

definition dir_of :: "string \<Rightarrow> string \<Rightarrow> string option" where
  "dir_of p k =
     (case strip_prefix (p @ ''/'') k of
        None \<Rightarrow> None
      | Some rest \<Rightarrow> map_option (\<lambda>(seg, _). p @ ''/'' @ seg) (split_once slash rest))"

definition mem_dirs :: "string \<Rightarrow> mem \<Rightarrow> os_error + string list" where
  "mem_dirs p x =
     Inr (remdups (map the (filter (\<lambda>d. d \<noteq> None) (map (dir_of p) (map fst (me_objects x))))))"

text \<open>\<open>Path::from\<close> on the keys that need no encoding: empty segments go.\<close>

definition mem_path :: "string \<Rightarrow> string" where
  "mem_path k = join ''/'' (filter (\<lambda>seg. seg \<noteq> []) (split_on slash k))"

definition mem_backend :: "mem backend" where
  "mem_backend =
     \<lparr>be_path = mem_path,
      be_put = (\<lambda>k v. mem_write (with_object k v)),
      be_get = (\<lambda>k. mem_read (mem_lookup k)),
      be_delete = (\<lambda>k. mem_write (without k)),
      be_list = (\<lambda>p. mem_read (mem_list p)),
      be_list_dirs = (\<lambda>p. mem_read (mem_dirs p)),
      be_create_multipart = (\<lambda>k. mem_read (\<lambda>_. Inr ''upload'')),
      be_abort_multipart = (\<lambda>k i. mem_write id)\<rparr>"

definition mem_store :: "mem store" where
  "mem_store = \<lparr>st_inner = mem_backend, st_admin = None\<rparr>"

section \<open>It keeps the promises\<close>

lemma map_of_without: "map_of (filter (\<lambda>(k', _). k' \<noteq> k) xs) = (map_of xs)(k := None)"
  by (induction xs) (auto simp: fun_eq_iff)

lemma mem_view_simps [simp]:
  "mem_view (x\<lparr>me_fates := fs\<rparr>) = mem_view x" "mem_view (without k x) = (mem_view x)(k := None)"
  "mem_view (with_object k v x) = (mem_view x)(k \<mapsto> v)"
  by (simp_all add: mem_view_def without_def with_object_def map_of_without)

lemma mem_write_cases:
  assumes "mem_write f x = (r, x')" "\<And>fs y. mem_view (f y) = g (mem_view y)"
  shows "mem_view x' = mem_view x \<or> mem_view x' = g (mem_view x)"
    "r = Inr u \<Longrightarrow> mem_view x' = g (mem_view x)" "r \<noteq> Inl (OsNotFound a b)"
  using assms
  by (auto simp: mem_write_def next_fate_def unavailable_def split: prod.splits fate.splits list.splits)

lemma mem_read_cases:
  assumes "mem_read f x = (r, x')"
  shows "mem_view x' = mem_view x" "r = Inl unavailable \<or> (\<exists>y. mem_view y = mem_view x \<and>
    me_objects y = me_objects x \<and> f y = r)"
proof -
  show "mem_view x' = mem_view x"
    using assms by (auto simp: mem_read_def next_fate_def split: prod.splits list.splits if_splits)
  show "r = Inl unavailable \<or> (\<exists>y. mem_view y = mem_view x \<and> me_objects y = me_objects x \<and> f y = r)"
    using assms
    by (cases "me_fates x") (auto simp: mem_read_def next_fate_def split: if_splits intro: exI [of _ x]
        exI [of _ "x\<lparr>me_fates := tl (me_fates x)\<rparr>"])
qed

lemma mem_keys_iff: "k \<in> set (mem_keys x p) \<longleftrightarrow> mem_view x k \<noteq> None \<and> below p k"
  by (auto simp: mem_keys_def mem_view_def map_of_eq_None_iff)

lemma dir_of_Some: "dir_of p k = Some d \<longleftrightarrow>
    (\<exists>seg rest. slash \<notin> set seg \<and> k = p @ slash # seg @ slash # rest \<and> d = p @ slash # seg)"
proof
  assume "dir_of p k = Some d"
  then show "\<exists>seg rest. slash \<notin> set seg \<and> k = p @ slash # seg @ slash # rest \<and> d = p @ slash # seg"
    by (auto simp: dir_of_def strip_prefix_Some dest!: split_once_SomeD split: option.splits)
next
  assume "\<exists>seg rest. slash \<notin> set seg \<and> k = p @ slash # seg @ slash # rest \<and> d = p @ slash # seg"
  then obtain seg rest where k: "slash \<notin> set seg" "k = p @ slash # seg @ slash # rest" "d = p @ slash # seg"
    by blast
  then have "strip_prefix (p @ ''/'') k = Some (seg @ slash # rest)" by (simp add: strip_prefix_Some)
  with k show "dir_of p k = Some d" by (simp add: dir_of_def split_once_append)
qed

lemma mem_dirs_Inr:
  assumes "mem_dirs p x = Inr ds"
  shows "distinct ds" "set ds = bucket_dirs (mem_view x) p"
proof -
  have ds: "ds = remdups (map the (filter (\<lambda>d. d \<noteq> None) (map (dir_of p) (map fst (me_objects x)))))"
    using assms by (simp add: mem_dirs_def)
  then show "distinct ds" by simp
  have "d \<in> set ds \<longleftrightarrow> (\<exists>k \<in> set (map fst (me_objects x)). dir_of p k = Some d)" for d
    unfolding ds by force
  moreover have "k \<in> set (map fst (me_objects x)) \<longleftrightarrow> mem_view x k \<noteq> None" for k
    by (auto simp: mem_view_def map_of_eq_None_iff)
  ultimately show "set ds = bucket_dirs (mem_view x) p"
    unfolding bucket_dirs_def dir_of_Some by blast
qed

lemma join_split_on: "join ''/'' (split_on slash k) = k"
proof (induction k)
  case (Cons c k)
  then show ?case by (cases "split_on slash k"; cases "tl (split_on slash k)") auto
qed simp

lemma mem_path_clean:
  assumes "clean_path k"
  shows "mem_path k = k" "mem_path (k @ ''/'') = k"
proof -
  have "filter (\<lambda>seg. seg \<noteq> []) (split_on slash k) = split_on slash k"
    using assms by (intro filter_True) (auto simp: clean_path_def safe_segment_def)
  then show "mem_path k = k" "mem_path (k @ ''/'') = k"
    using split_on_append [of slash k "[]"] by (simp_all add: mem_path_def join_split_on)
qed

lemma mem_s3_backend: "s3_backend mem_backend mem_view"
proof (unfold_locales, goal_cases)
  case (1 k)
  then show ?case by (simp add: mem_backend_def mem_path_clean)
next
  case (2 k)
  then show ?case using mem_path_clean(2) by (simp add: mem_backend_def)
next
  case (3 k v x r x')
  then show ?case
    using mem_write_cases(1) [where g = "\<lambda>m. m(k \<mapsto> v)"] by (simp add: mem_backend_def)
next
  case (4 k v x u x')
  then show ?case
    using mem_write_cases(2) [where g = "\<lambda>m. m(k \<mapsto> v)"] by (simp add: mem_backend_def)
next
  case (5 k x rg x')
  then show ?case using mem_read_cases(1) by (simp add: mem_backend_def)
next
  case (6 k x v x')
  then have "mem_read (mem_lookup k) x = (Inr v, x')" by (simp add: mem_backend_def)
  from mem_read_cases(2) [OF this] show ?case by (auto simp: mem_lookup_def result_simps)
next
  case (7 k x a b x')
  then have "mem_read (mem_lookup k) x = (Inl (OsNotFound a b), x')" by (simp add: mem_backend_def)
  from mem_read_cases(2) [OF this] show ?case
    by (cases "mem_view x k") (auto simp: mem_lookup_def unavailable_def)
next
  case (8 k x r x')
  then show ?case
    using mem_write_cases(1) [where g = "\<lambda>m. m(k := None)"] by (simp add: mem_backend_def)
next
  case (9 k x u x')
  then show ?case
    using mem_write_cases(2) [where g = "\<lambda>m. m(k := None)"] by (simp add: mem_backend_def)
next
  case (10 k x a b x')
  then have "mem_write (without k) x = (Inl (OsNotFound a b), x')" by (simp add: mem_backend_def)
  from mem_write_cases(3) [where g = "\<lambda>m. m(k := None)", OF this] show ?case by fastforce
next
  case (11 p x rl x')
  then show ?case using mem_read_cases(1) by (simp add: mem_backend_def)
next
  case (12 p x items x')
  then have "mem_read (mem_list p) x = (Inr items, x')" by (simp add: mem_backend_def)
  from mem_read_cases(2) [OF this] obtain y where y: "mem_view y = mem_view x" "me_objects y = me_objects x"
    "items = map (\<lambda>k. (k, of_nat (length (the (mem_view y k))))) (mem_keys y p)"
    by (auto simp: mem_list_def)
  have "map fst items = mem_keys y p" by (simp add: y(3) comp_def)
  moreover have "distinct (mem_keys y p)" by (simp add: mem_keys_def)
  ultimately show ?case by (auto simp: y(3) mem_keys_iff y(1))
next
  case (13 p x rd x')
  then show ?case using mem_read_cases(1) by (simp add: mem_backend_def)
next
  case (14 p x ds x')
  then have "mem_read (mem_dirs p) x = (Inr ds, x')" by (simp add: mem_backend_def)
  from mem_read_cases(2) [OF this] obtain y where "mem_view y = mem_view x" "mem_dirs p y = Inr ds" by auto
  with mem_dirs_Inr [OF this(2)] show ?case by simp
qed

interpretation mem_backend: s3_backend mem_backend mem_view
  by (rule mem_s3_backend)

interpretation mem_bucket: s3_store mem_backend mem_view mem_store
  by unfold_locales (simp add: mem_store_def)

end
