(* ===== verification/Targets.thy ===== *)
theory Targets
  imports Mem_Bucket Zfs_Cli "HOL-Library.Product_Lexorder" "HOL-Library.Multiset"
begin

text \<open>
  \<open>src/cmd/mod.rs\<close>: reaching the store, the manifests of a bucket, the pick of one of them by
  name, and the retry loop. The JSON decoder and the order in which the concurrent downloads
  of \<open>manifests\<close> complete are parameters. The laws: \<open>manifests\<close> returns exactly what the
  bucket holds, sorted; a retried call runs at most seven times and keeps what the call keeps.
\<close>

section \<open>Errors of the commands\<close>

datatype age_error = EmptyAge | BadAgeNumber parse_int_error | NegativeAge | BadAgeUnit | AgeTooLong

datatype error =
  EStore store_error
| EZfs zfs_error
| EStream stream_error
| BadUri string
| EmptyBucket string
| NoEndpoint
| NoRegion
| EnvNotSet string
| UnreadableManifest string string
| WrongVersion string string
| NotArchived string
| Ambiguous string "(guid \<times> guid) list"
| BrokenChain guid string
| CircularChain string string guid
| SizeMismatch string u64 u64 \<comment> \<open>key, stored, recorded\<close>
| HashMismatch string
| TotalMismatch u64 u64
| StreamHashMismatch
| InvalidAge string age_error
| NoPolicy
| KeepNothing
| SendInProgress string nat int string \<comment> \<open>snapshot, run, last seen, marker\<close>
| Message string
| Context string error

text \<open>\<open>e.downcast_ref::<StoreError>()\<close>, which looks through contexts.\<close>

fun downcast_store :: "error \<Rightarrow> store_error option" where
  "downcast_store (EStore e) = Some e"
| "downcast_store (Context _ e) = downcast_store e"
| "downcast_store _ = None"

definition not_retryable :: "error \<Rightarrow> bool" where
  "not_retryable e \<longleftrightarrow>
     (case downcast_store e of None \<Rightarrow> False | Some s \<Rightarrow> \<not> is_retryable s)"

section \<open>The machine the command runs on\<close>

text \<open>
  What the commands use of the operating system and of third-party crates: the clock
  (nanoseconds), waiting, the \<open>zfs\<close> command, one child process with its pipes, and the BLAKE3
  and CRC32C functions. The child's exit is what \<open>wait_child\<close> looks at.
\<close>

record 'x host =
  ho_now :: "'x \<Rightarrow> int"
  ho_sleep :: "nat \<Rightarrow> 'x \<Rightarrow> 'x"
  ho_zfs :: "'x runner"
  ho_spawn :: "string list \<Rightarrow> ('x, string, unit) io"
  ho_read :: "nat \<Rightarrow> ('x, string, bytes) io"
  ho_write :: "bytes \<Rightarrow> ('x, string, unit) io"
  ho_flush :: "('x, string, unit) io"
  ho_wait :: "'x \<Rightarrow> ((string + int option) \<times> string) \<times> 'x"
  ho_blake3 :: "bytes \<Rightarrow> string"
  ho_crc32c :: "bytes \<Rightarrow> u32"
  ho_uuid :: "'x \<Rightarrow> nat \<times> 'x"

definition on_ext :: "('x, 'e, 'a) io \<Rightarrow> ('x sys, 'e, 'a) io" where
  "on_ext m s = (case m (ext s) of (r, x) \<Rightarrow> (r, s\<lparr>ext := x\<rparr>))"

definition sleep_sys :: "'x host \<Rightarrow> nat \<Rightarrow> 'x sys \<Rightarrow> 'x sys" where
  "sleep_sys h ms s = s\<lparr>ext := ho_sleep h ms (ext s)\<rparr>"

text \<open>\<open>spawn_piped\<close> and the end of the child.\<close>

definition finish_child :: "'x host \<Rightarrow> string \<Rightarrow> ('x sys, error, unit) io" where
  "finish_child h what s =
     (case ho_wait h (ext s) of ((status, stderr), x) \<Rightarrow>
        (map_err EZfs (wait_child status stderr what), s\<lparr>ext := x\<rparr>))"

definition spawn_child :: "'x host \<Rightarrow> string list \<Rightarrow> ('x sys, error, unit) io" where
  "spawn_child h args =
     err_io (\<lambda>e. EZfs (Spawn (''zfs '' @ join '' '' args) e)) (on_ext (ho_spawn h args))"

section \<open>The target\<close>

record conn =
  cn_endpoint :: "string option"
  cn_region :: "string option"
  cn_allow_http :: bool
  cn_insecure_tls :: bool

record 'x target =
  tg_store :: "'x store"
  tg_prefix :: string

definition target_config ::
  "(string \<Rightarrow> string option) \<Rightarrow> string \<Rightarrow> conn \<Rightarrow> error + s3_config \<times> string" where
  "target_config env uri c =
     bind_result (ok_or (strip_prefix ''s3://'' uri) (BadUri uri)) (\<lambda>rest.
       (case (case split_once slash rest of
                Some (b, p) \<Rightarrow> (b, trim_matches slash p)
              | None \<Rightarrow> (rest, [])) of
          (bkt, prefix) \<Rightarrow>
            if bkt = [] then Inl (EmptyBucket uri)
            else
              bind_result (ok_or (or_else (cn_endpoint c) (env ''AWS_ENDPOINT_URL'')) NoEndpoint) (\<lambda>ep.
              bind_result (ok_or (or_else (cn_region c) (env ''AWS_REGION'')) NoRegion) (\<lambda>reg.
              bind_result (ok_or (env ''AWS_ACCESS_KEY_ID'') (EnvNotSet ''AWS_ACCESS_KEY_ID'')) (\<lambda>ak.
              bind_result (ok_or (env ''AWS_SECRET_ACCESS_KEY'') (EnvNotSet ''AWS_SECRET_ACCESS_KEY''))
                (\<lambda>sk.
                 Inr (\<lparr>endpoint = ep, region = reg, bucket = bkt, access_key_id = ak,
                       secret_access_key = sk, path_style = True, allow_http = cn_allow_http c,
                       insecure_tls = cn_insecure_tls c, sha256_checksums = False,
                       max_retries = 10, retry_timeout_secs = 300, request_timeout_secs = 900\<rparr>,
                      prefix)))))))"

section \<open>Manifests\<close>

definition some_values :: "'a option list \<Rightarrow> 'a list" where
  "some_values xs = map the (filter (\<lambda>x. x \<noteq> None) xs)"

definition fetch_manifest ::
  "(bytes \<Rightarrow> string + manifest) \<Rightarrow> 'x target \<Rightarrow> string \<Rightarrow> ('x sys, error, manifest option) io" where
  "fetch_manifest dec t key =
     try_io (store_get (tg_store t) key) (\<lambda>r.
       case r of
         Inr b \<Rightarrow>
           bind_io (lift_result (map_err (UnreadableManifest key) (dec b))) (\<lambda>m.
           bind_io (lift_result (map_err (WrongVersion key) (check_version m))) (\<lambda>_. ret (Some m)))
       | Inl (NotFound _) \<Rightarrow> ret None
       | Inl e \<Rightarrow> throw (EStore e))"

definition manifest_order :: "manifest \<Rightarrow> guid \<times> u64 \<times> guid" where
  "manifest_order m = (mf_dataset_guid m, mf_createtxg m, mf_snapshot_guid m)"

text \<open>The keys of the manifests: one listing per directory, no walk over the chunks.\<close>

definition manifest_keys :: "'x target \<Rightarrow> ('x sys, error, string list) io" where
  "manifest_keys t =
     err_io EStore
       (bind_io (store_list_dirs (tg_store t) (all_manifests_prefix (tg_prefix t))) (\<lambda>ds_dirs.
        bind_io (map_io (\<lambda>d. store_list_dirs (tg_store t) (d @ ''/'')) ds_dirs) (\<lambda>snap_dirs.
          ret (map (\<lambda>d. d @ ''/manifest.json'') (concat snap_dirs)))))"

text \<open>\<open>arrival\<close> is the order in which the sixteen concurrent downloads complete.\<close>

definition manifests ::
  "(bytes \<Rightarrow> string + manifest) \<Rightarrow> (string list \<Rightarrow> string list) \<Rightarrow> 'x target
     \<Rightarrow> ('x sys, error, manifest list) io" where
  "manifests dec arrival t =
     bind_io (manifest_keys t) (\<lambda>ks.
     bind_io (map_io (fetch_manifest dec t) (arrival ks)) (\<lambda>fetched.
       ret (sort_key manifest_order (some_values fetched))))"

definition pick :: "manifest list \<Rightarrow> string \<Rightarrow> error + manifest" where
  "pick all snap =
     (let hits = filter (\<lambda>m. mf_snapshot m = snap) all
      in if length hits = 0 then Inl (NotArchived snap)
         else if length hits = 1 then Inr (hits ! 0)
         else Inl (Ambiguous snap (map (\<lambda>m. (mf_dataset_guid m, mf_snapshot_guid m)) hits)))"

definition manifest_for ::
  "(bytes \<Rightarrow> string + manifest) \<Rightarrow> (string list \<Rightarrow> string list) \<Rightarrow> 'x target \<Rightarrow> string
     \<Rightarrow> ('x sys, error, manifest) io" where
  "manifest_for dec arrival t snap =
     bind_io (manifests dec arrival t) (\<lambda>all. lift_result (pick all snap))"

definition parse_pin :: "string \<Rightarrow> guid option" where
  "parse_pin key = (case guid_from_str (rsplit_first slash key) of Inl _ \<Rightarrow> None | Inr g \<Rightarrow> Some g)"

definition pinned :: "'x target \<Rightarrow> ('x sys, error, guid list) io" where
  "pinned t =
     bind_io (err_io EStore (store_list (tg_store t) (pins_prefix (tg_prefix t)))) (\<lambda>items.
       ret (some_values (map (\<lambda>(key, _). parse_pin key) items)))"

text \<open>The \<open>--dataset\<close> pattern of \<open>list\<close> and \<open>retention\<close>: a name, or a prefix before a star.\<close>

definition name_matches :: "string \<Rightarrow> string \<Rightarrow> bool" where
  "name_matches d name =
     (case strip_suffix ''*'' d of Some p \<Rightarrow> starts_with p name | None \<Rightarrow> name = d)"

section \<open>Retrying\<close>

text \<open>
  \<open>sleep ms\<close> is what waiting does to the world. \<open>wait_ms\<close> is the capped exponential backoff.
\<close>

definition wait_ms :: "nat \<Rightarrow> nat" where
  "wait_ms attempt = 300 * 2 ^ min attempt 5"

function retry_from ::
  "nat \<Rightarrow> (nat \<Rightarrow> 'w \<Rightarrow> 'w) \<Rightarrow> string \<Rightarrow> ('w, error, 'a) io \<Rightarrow> ('w, error, 'a) io" where
  "retry_from attempt sleep what op w =
     (case op w of (r, w') \<Rightarrow>
        (case r of
           Inr v \<Rightarrow> (Inr v, w')
         | Inl e \<Rightarrow>
             (if not_retryable e then (Inl (Context (what @ '': not retryable'') e), w')
              else if attempt < 6
              then retry_from (attempt + 1) sleep what op (sleep (wait_ms (attempt + 1)) w')
              else (Inl (Context (what @ '': giving up after '' @ fmt_radix 10 attempt @ '' retries'') e), w'))))"
  by pat_completeness auto
termination
  by (relation "measure (\<lambda>(a, _). 6 - a)") auto

declare retry_from.simps [simp del]

definition retry ::
  "(nat \<Rightarrow> 'w \<Rightarrow> 'w) \<Rightarrow> string \<Rightarrow> ('w, error, 'a) io \<Rightarrow> ('w, error, 'a) io" where
  "retry sleep what op = retry_from 0 sleep what op"

section \<open>A sound bucket\<close>

text \<open>
  The chunk \<open>c\<close> of \<open>m\<close> is in the bucket \<open>b\<close>, with the length and the hash recorded; a bucket
  is sound when no manifest it holds lacks a chunk. A manifest filed under other GUIDs than
  its own is nobody's backup.
\<close>

definition chunk_good ::
  "(bytes \<Rightarrow> string) \<Rightarrow> string \<Rightarrow> (string \<Rightarrow> bytes option) \<Rightarrow> manifest \<Rightarrow> chunk \<Rightarrow> bytes \<Rightarrow> bool" where
  "chunk_good blake p b m c d \<longleftrightarrow>
     b (chunk_key p (mf_dataset_guid m) (mf_snapshot_guid m) (ck_seq c)) = Some d \<and>
     of_nat (length d) = ck_bytes c \<and> blake d = ck_blake3 c"

definition backup_good ::
  "(bytes \<Rightarrow> string) \<Rightarrow> string \<Rightarrow> (string \<Rightarrow> bytes option) \<Rightarrow> manifest \<Rightarrow> bool" where
  "backup_good blake p b m \<longleftrightarrow> (\<forall>c \<in> set (mf_chunks m). \<exists>d. chunk_good blake p b m c d)"

definition listed ::
  "(bytes \<Rightarrow> string + manifest) \<Rightarrow> string \<Rightarrow> (string \<Rightarrow> bytes option) \<Rightarrow> manifest \<Rightarrow> bool" where
  "listed dec p b m \<longleftrightarrow>
     (\<exists>v. b (manifest_key p (mf_dataset_guid m) (mf_snapshot_guid m)) = Some v \<and> dec v = Inr m)"

definition sound_bucket ::
  "(bytes \<Rightarrow> string + manifest) \<Rightarrow> (bytes \<Rightarrow> string) \<Rightarrow> string \<Rightarrow> (string \<Rightarrow> bytes option) \<Rightarrow> bool" where
  "sound_bucket dec blake p b \<longleftrightarrow> (\<forall>m. listed dec p b m \<longrightarrow> backup_good blake p b m)"

text \<open>The stream of a manifest, as the bucket holds it.\<close>

definition holds_stream ::
  "(bytes \<Rightarrow> string) \<Rightarrow> string \<Rightarrow> (string \<Rightarrow> bytes option) \<Rightarrow> manifest \<Rightarrow> bytes \<Rightarrow> bool" where
  "holds_stream blake p b m v \<longleftrightarrow>
     (\<exists>ds. list_all2 (chunk_good blake p b m) (mf_chunks m) ds \<and> v = concat ds)"

lemma holds_stream_unique: "holds_stream blake p b m v \<Longrightarrow> holds_stream blake p b m w \<Longrightarrow> v = w"
proof -
  have "list_all2 (chunk_good blake p b m) cs xs \<Longrightarrow> list_all2 (chunk_good blake p b m) cs ys \<Longrightarrow> xs = ys"
    for cs xs ys
  proof (induction cs arbitrary: xs ys)
    case (Cons c cs)
    then show ?case by (auto simp: list_all2_Cons1 chunk_good_def)
  qed simp
  then show "holds_stream blake p b m v \<Longrightarrow> holds_stream blake p b m w \<Longrightarrow> v = w"
    by (auto simp: holds_stream_def)
qed

lemma holds_stream_iff: "(\<exists>v. holds_stream blake p b m v) \<longleftrightarrow> backup_good blake p b m"
proof -
  have "(\<exists>ds. list_all2 (chunk_good blake p b m) cs ds) \<longleftrightarrow> (\<forall>c \<in> set cs. \<exists>d. chunk_good blake p b m c d)" for cs
    by (induction cs) (auto simp: list_all2_Cons1)
  then show ?thesis by (auto simp: holds_stream_def backup_good_def)
qed

text \<open>What one write or one delete does to soundness.\<close>

lemma sound_no_manifest:
  assumes "sound_bucket dec blake p b" "b (manifest_key p d s) = None"
    "\<And>k. (\<forall>q. k \<noteq> chunk_key p d s q) \<Longrightarrow> b' k = b k"
  shows "sound_bucket dec blake p b'"
  unfolding sound_bucket_def
proof (intro allI impI)
  fix m assume l: "listed dec p b' m"
  then have l': "listed dec p b m" using assms(3) by (simp add: listed_def key_simps)
  then have "mf_dataset_guid m \<noteq> d \<or> mf_snapshot_guid m \<noteq> s" using assms(2) by (auto simp: listed_def)
  moreover have "backup_good blake p b m" using assms(1) l' by (simp add: sound_bucket_def)
  ultimately show "backup_good blake p b' m"
    using assms(3) by (auto simp: backup_good_def chunk_good_def key_simps)
qed

lemma sound_delete_manifest:
  "sound_bucket dec blake p b \<Longrightarrow> sound_bucket dec blake p (b(manifest_key p d s := None))"
  by (auto simp: sound_bucket_def listed_def backup_good_def chunk_good_def key_simps split: if_splits)

lemma sound_delete_pending:
  "sound_bucket dec blake p b \<Longrightarrow> sound_bucket dec blake p (b(pending_key p d s := None))"
  by (auto simp: sound_bucket_def listed_def backup_good_def chunk_good_def key_simps)

lemma sound_delete_chunk:
  "sound_bucket dec blake p b \<Longrightarrow> b (manifest_key p d s) = None \<Longrightarrow>
   sound_bucket dec blake p (b(chunk_key p d s q := None))"
  by (erule sound_no_manifest) auto

section \<open>Laws of the retry loop\<close>

lemma retry_from_cases:
  assumes "retry_from a sleep what op w = (r, w')"
  obtains
    (ok) v where "op w = (Inr v, w')" "r = Inr v"
  | (stop) e where "op w = (Inl e, w')" "not_retryable e" "r = Inl (Context (what @ '': not retryable'') e)"
  | (again) e w1 where "op w = (Inl e, w1)" "\<not> not_retryable e" "a < 6"
      "retry_from (Suc a) sleep what op (sleep (wait_ms (Suc a)) w1) = (r, w')"
  | (over) e where "op w = (Inl e, w')" "\<not> not_retryable e" "6 \<le> a"
      "r = Inl (Context (what @ '': giving up after '' @ fmt_radix 10 a @ '' retries'') e)"
proof -
  obtain r0 w1 where o: "op w = (r0, w1)" by fastforce
  show thesis
  proof (cases r0)
    case (Inr v)
    with assms o have "r = Inr v" "w' = w1" by (simp_all add: retry_from.simps)
    with o Inr ok show ?thesis by simp
  next
    case (Inl e)
    with assms [unfolded retry_from.simps [of a]] o stop again over show ?thesis
      by (auto simp: not_less split: if_splits)
  qed
qed

lemma retry_from_keeps:
  assumes op: "keeps I op" and sl: "\<And>n w. I w \<Longrightarrow> I (sleep n w)"
  shows "I w \<Longrightarrow> retry_from a sleep what op w = (r, w') \<Longrightarrow> I w'"
proof (induction "6 - a" arbitrary: a w rule: less_induct)
  case less
  show ?case using less.prems(2)
  proof (cases rule: retry_from_cases)
    case (again e w1)
    have "I (sleep (wait_ms (Suc a)) w1)" using keepsD [OF op less.prems(1) again(1)] sl by blast
    with less.hyps [OF _ _ again(4)] again(3) show ?thesis by simp
  qed (use keepsD [OF op less.prems(1)] in blast)+
qed

lemma retry_keeps:
  "keeps I op \<Longrightarrow> (\<And>n w. I w \<Longrightarrow> I (sleep n w)) \<Longrightarrow> keeps I (retry sleep what op)"
  unfolding keeps_def retry_def using retry_from_keeps [of I op sleep]
  by (metis keeps_def prod.collapse)

lemma retry_from_Inr:
  "retry_from a sleep what op w = (Inr v, w') \<Longrightarrow> \<exists>u. op u = (Inr v, w')"
proof (induction "6 - a" arbitrary: a w rule: less_induct)
  case less
  show ?case using less.prems
  proof (cases rule: retry_from_cases)
    case (again e w1)
    then show ?thesis using less.hyps [OF _ again(4)] by simp
  qed auto
qed

lemma retry_Inr: "retry sleep what op w = (Inr v, w') \<Longrightarrow> \<exists>u. op u = (Inr v, w')"
  unfolding retry_def by (rule retry_from_Inr)

text \<open>\<open>c\<close> counts the calls, \<open>t\<close> the milliseconds slept.\<close>

definition backoff_left :: "nat \<Rightarrow> nat" where
  "backoff_left a = (\<Sum>i \<in> {a<..6}. wait_ms i)"

lemma backoff_left_step: "a < 6 \<Longrightarrow> backoff_left a = wait_ms (Suc a) + backoff_left (Suc a)"
proof -
  assume "a < 6"
  then have "{a<..6} = insert (Suc a) {Suc a<..6}" by auto
  then show ?thesis by (simp add: backoff_left_def)
qed

lemma retry_from_bounds:
  assumes c: "\<And>w. c (snd (op w)) = Suc (c w)" "\<And>n w. c (sleep n w) = c w"
    and t: "\<And>w. t (snd (op w)) = t w" "\<And>n w. t (sleep n w) = t w + n"
  shows "a \<le> 6 \<Longrightarrow> retry_from a sleep what op w = (r, w') \<Longrightarrow>
    c w < c w' \<and> c w' \<le> c w + (7 - a) \<and> t w' \<le> t w + backoff_left a"
proof (induction "6 - a" arbitrary: a w rule: less_induct)
  case less
  have one: "c w' = Suc (c w)" "t w' = t w" if "op w = (x, w')" for x w'
    using c(1) [of w] t(1) [of w] that by simp_all
  show ?case using less.prems(2)
  proof (cases rule: retry_from_cases)
    case (again e w1)
    let ?u = "sleep (wait_ms (Suc a)) w1"
    have "c ?u < c w' \<and> c w' \<le> c ?u + (7 - Suc a) \<and> t w' \<le> t ?u + backoff_left (Suc a)"
      using again(3) by (intro less.hyps [OF _ _ again(4)]) auto
    with one [OF again(1)] c(2) t(2) again(3) backoff_left_step [OF again(3)] show ?thesis by simp arith
  qed (use one less.prems(1) in auto)
qed

section \<open>The manifests of a bucket\<close>

text \<open>
  \<open>manifest_at p b key v\<close>: the bucket \<open>b\<close> holds \<open>v\<close> under a manifest key of the prefix \<open>p\<close>.
  \<open>tidy\<close>: what lies below the root has a path the crate leaves alone.
\<close>

definition manifest_at :: "string \<Rightarrow> (string \<Rightarrow> bytes option) \<Rightarrow> string \<Rightarrow> bytes \<Rightarrow> bool" where
  "manifest_at p b key v \<longleftrightarrow> b key = Some v \<and>
     (\<exists>d n. slash \<notin> set d \<and> slash \<notin> set n \<and>
        key = key_root p @ slash # d @ slash # n @ slash # ''manifest.json'')"

definition tidy :: "string \<Rightarrow> (string \<Rightarrow> bytes option) \<Rightarrow> bool" where
  "tidy p b \<longleftrightarrow> clean_path (key_root p) \<and>
     (\<forall>k. b k \<noteq> None \<longrightarrow> below (key_root p) k \<longrightarrow> clean_path k)"

lemma tidyD: "tidy p b \<Longrightarrow> b (key_root p @ slash # r) \<noteq> None \<Longrightarrow> clean_path (key_root p @ slash # r)"
  by (auto simp: tidy_def below_def starts_with_iff)

lemma manifest_key_at:
  "b (manifest_key p d s) = Some v \<Longrightarrow> manifest_at p b (manifest_key p d s) v"
  unfolding manifest_at_def
  by (intro conjI exI [of _ "guid_display d"] exI [of _ "guid_display s"])
     (simp_all add: manifest_key_def snapshot_dir_def)

lemma snapshot_dirs:
  "d \<in> bucket_dirs b root \<Longrightarrow> n \<in> bucket_dirs b d \<Longrightarrow>
   \<exists>seg seg' rest. slash \<notin> set seg \<and> slash \<notin> set seg' \<and> d = root @ slash # seg \<and>
     n = root @ slash # seg @ slash # seg' \<and> b (root @ slash # seg @ slash # seg' @ slash # rest) \<noteq> None"
  unfolding bucket_dirs_def by (elim CollectE exE conjE) (metis append.assoc append_Cons)

context s3_store
begin

lemma dir_unique:
  assumes "slash \<notin> set seg" "slash \<notin> set seg'" "d @ slash # seg = d' @ slash # seg'"
  shows "d = d'"
proof -
  from arg_cong [OF assms(3), of "rsplit_first slash"] assms(1,2) have "seg = seg'"
    by (simp add: rsplit_first_append)
  with assms(3) show ?thesis by simp
qed

lemma distinct_dirs:
  "list_all2 (\<lambda>d n. distinct n \<and> set n = bucket_dirs b d) ds ns \<Longrightarrow> distinct ds \<Longrightarrow> distinct (concat ns)"
proof (induction rule: list_all2_induct)
  case (Cons d ds n ns)
  have "set (concat ns) = (\<Union>d \<in> set ds. bucket_dirs b d)"
    using Cons.hyps(2) by (induction rule: list_all2_induct) auto
  moreover have "x \<notin> bucket_dirs b d'" if "x \<in> bucket_dirs b d" "d' \<noteq> d" for x d'
  proof
    assume "x \<in> bucket_dirs b d'"
    with that(1) obtain seg seg' where "slash \<notin> set seg" "slash \<notin> set seg'" "d @ slash # seg = d' @ slash # seg'"
      by (auto simp: bucket_dirs_def)
    with dir_unique that(2) show False by blast
  qed
  ultimately have "set n \<inter> set (concat ns) = {}" using Cons.hyps(1) Cons.prems by fastforce
  with Cons show ?case by simp
qed simp

lemma manifest_keys_ok:
  assumes t: "tg_store t = st" and tidy: "tidy (tg_prefix t) (contents s)"
    and ks: "manifest_keys t s = (Inr ks, s')"
  shows "contents s' = contents s" "\<forall>k \<in> set ks. clean_path k"
    "\<And>k v. manifest_at (tg_prefix t) (contents s) k v \<longleftrightarrow> k \<in> set ks \<and> contents s k = Some v"
    "distinct ks"
proof -
  let ?root = "key_root (tg_prefix t)" and ?b = "contents s"
  have root: "clean_path ?root" using tidy by (simp add: tidy_def)
  from ks obtain ds s1 ns where
    1: "store_list_dirs st (?root @ ''/'') s = (Inr ds, s1)" and
    2: "map_io (\<lambda>d. store_list_dirs st (d @ ''/'')) ds s1 = (Inr ns, s')" and
    3: "ks = map (\<lambda>d. d @ ''/manifest.json'') (concat ns)"
    by (auto simp: manifest_keys_def err_io_Inr bind_io_Inr t all_manifests_prefix_def)
  have b1: "contents s1 = ?b" and ds: "set ds = bucket_dirs ?b ?root" and dds: "distinct ds"
    using bk.dirs_any [OF root 1] bk.dirs_ok [OF root 1] by auto
  have clean: "clean_path d" if d: "d \<in> set ds" for d
  proof -
    from d ds obtain seg rest where d: "d = ?root @ slash # seg"
      "?b (?root @ slash # seg @ slash # rest) \<noteq> None" by (auto simp: bucket_dirs_def)
    from tidyD [OF tidy d(2)] d(1) show ?thesis by simp
  qed
  have step: "contents v' = contents v" if "d \<in> set ds" "store_list_dirs st (d @ ''/'') v = (r, v')" for d v r v'
    using bk.dirs_any [OF clean [OF that(1)] that(2)] .
  have "contents s' = contents s1 \<and> list_all2 (\<lambda>d n. \<exists>v v'. contents v = contents s1 \<and>
      store_list_dirs st (d @ ''/'') v = (Inr n, v')) ds ns"
    by (rule map_io_frame [OF 2]) (rule step)
  then have b2: "contents s' = contents s1" and
    ns: "list_all2 (\<lambda>d n. \<exists>v v'. contents v = contents s1 \<and>
           store_list_dirs st (d @ ''/'') v = (Inr n, v')) ds ns" by blast+
  have each: "list_all2 (\<lambda>d n. distinct n \<and> set n = bucket_dirs ?b d) ds ns"
    using ns
  proof (rule list.rel_mono_strong)
    fix d n
    assume "d \<in> set ds" "\<exists>v v'. contents v = contents s1 \<and>
      store_list_dirs st (d @ ''/'') v = (Inr n, v')"
    then show "distinct n \<and> set n = bucket_dirs ?b d" using bk.dirs_ok [OF clean] b1 by metis
  qed
  then have dirs: "set (concat ns) = (\<Union>d \<in> set ds. bucket_dirs ?b d)"
    by (induction rule: list_all2_induct) auto
  have "distinct (concat ns)" using each dds by (rule distinct_dirs)
  then show "distinct ks" unfolding 3 by (simp add: distinct_map inj_on_def)
  show "contents s' = contents s" using b1 b2 by simp
  have key: "\<exists>seg seg' rest. slash \<notin> set seg \<and> slash \<notin> set seg' \<and>
      k = ?root @ slash # seg @ slash # seg' @ ''/manifest.json'' \<and>
      ?b (?root @ slash # seg @ slash # seg' @ slash # rest) \<noteq> None" if "k \<in> set ks" for k
  proof -
    from that 3 dirs ds obtain d n where "d \<in> bucket_dirs ?b ?root" "n \<in> bucket_dirs ?b d"
      "k = n @ ''/manifest.json''" by auto
    with snapshot_dirs [OF this(1,2)] show ?thesis by auto
  qed
  show "\<forall>k \<in> set ks. clean_path k"
  proof
    fix k assume "k \<in> set ks"
    from key [OF this] obtain seg seg' rest where
      k: "k = ?root @ slash # seg @ slash # seg' @ slash # ''manifest.json''"
      "?b (?root @ slash # seg @ slash # seg' @ slash # rest) \<noteq> None" by auto
    from tidyD [OF tidy k(2)] show "clean_path k" by (simp add: k(1))
  qed
  show "manifest_at (tg_prefix t) (contents s) k v \<longleftrightarrow> k \<in> set ks \<and> contents s k = Some v" for k v
  proof
    assume at: "manifest_at (tg_prefix t) (contents s) k v"
    then obtain d n where k: "slash \<notin> set d" "slash \<notin> set n"
      "k = ?root @ slash # d @ slash # n @ slash # ''manifest.json''" "?b k = Some v"
      by (auto simp: manifest_at_def)
    then have "?root @ slash # d \<in> set ds"
      unfolding ds bucket_dirs_def by fastforce
    moreover have "(?root @ slash # d) @ slash # n \<in> bucket_dirs ?b (?root @ slash # d)"
      unfolding bucket_dirs_def using k by fastforce
    ultimately have "(?root @ slash # d) @ slash # n \<in> set (concat ns)"
      using dirs by blast
    then show "k \<in> set ks \<and> contents s k = Some v" using k 3 by force
  next
    assume "k \<in> set ks \<and> contents s k = Some v"
    with key [of k] show "manifest_at (tg_prefix t) (contents s) k v"
      by (auto simp: manifest_at_def)
  qed
qed

lemma fetch_manifest_ok:
  assumes t: "tg_store t = st" and k: "clean_path k" and f: "fetch_manifest dec t k s = (r, s')"
  shows "contents s' = contents s"
    and "r = Inr (Some m) \<Longrightarrow>
      \<exists>v. contents s k = Some v \<and> dec v = Inr m \<and> mf_format_version m = FORMAT_VERSION"
    and "r = Inr None \<Longrightarrow> contents s k = None"
proof -
  obtain r0 s1 where g: "store_get st k s = (r0, s1)" by fastforce
  note simps = fetch_manifest_def t try_io_def g bind_io_def ret_def throw_def lift_result_def
    map_err_def check_version_def
  have s': "s' = s1"
    using f by (auto simp: simps split: sum.splits store_error.splits prod.splits if_splits)
  show "contents s' = contents s" using bk.get_any [OF k g] s' by simp
  show "r = Inr (Some m) \<Longrightarrow>
      \<exists>v. contents s k = Some v \<and> dec v = Inr m \<and> mf_format_version m = FORMAT_VERSION"
  proof -
    assume "r = Inr (Some m)"
    with f obtain v where "r0 = Inr v" "dec v = Inr m" "mf_format_version m = FORMAT_VERSION"
      by (auto simp: simps map_sum_def split: sum.splits store_error.splits prod.splits if_splits)
    with bk.get_ok [OF k] g show ?thesis by blast
  qed
  show "r = Inr None \<Longrightarrow> contents s k = None"
  proof -
    assume "r = Inr None"
    with f obtain n where "r0 = Inl (NotFound n)"
      by (auto simp: simps split: sum.splits store_error.splits prod.splits if_splits)
    with bk.get_missing [OF k] g show ?thesis by blast
  qed
qed

lemma manifests_exact:
  assumes t: "tg_store t = st" and tidy: "tidy (tg_prefix t) (contents s)"
    and arr: "\<And>xs. set (arrival xs) = set xs"
    and ms: "manifests dec arrival t s = (Inr ms, s')"
  shows "contents s' = contents s" "sorted (map manifest_order ms)"
    "\<And>m. m \<in> set ms \<longleftrightarrow> (\<exists>k v. manifest_at (tg_prefix t) (contents s) k v \<and> dec v = Inr m)"
    "\<And>m. m \<in> set ms \<Longrightarrow> mf_format_version m = FORMAT_VERSION"
    "\<And>k v. manifest_at (tg_prefix t) (contents s) k v \<Longrightarrow> \<exists>m \<in> set ms. dec v = Inr m"
proof -
  from ms obtain ks s1 fs where 1: "manifest_keys t s = (Inr ks, s1)" and
    2: "map_io (fetch_manifest dec t) (arrival ks) s1 = (Inr fs, s')" and
    3: "ms = sort_key manifest_order (some_values fs)"
    by (auto simp: manifests_def bind_io_Inr)
  note K = manifest_keys_ok [OF t tidy 1]
  have clean: "clean_path k" if "k \<in> set (arrival ks)" for k using K(2) that arr by blast
  have step: "contents v' = contents v" if "k \<in> set (arrival ks)" "fetch_manifest dec t k v = (r, v')"
    for k v r v'
    using fetch_manifest_ok(1) [OF t clean [OF that(1)] that(2)] .
  have "contents s' = contents s1 \<and> list_all2 (\<lambda>k f. \<exists>v v'. contents v = contents s1 \<and>
      fetch_manifest dec t k v = (Inr f, v')) (arrival ks) fs"
    by (rule map_io_frame [OF 2]) (rule step)
  then have b2: "contents s' = contents s1" and
    fs: "list_all2 (\<lambda>k f. \<exists>v v'. contents v = contents s1 \<and> fetch_manifest dec t k v = (Inr f, v'))
      (arrival ks) fs" by blast+
  have fs': "list_all2 (\<lambda>k f. case f of None \<Rightarrow> contents s k = None
      | Some m \<Rightarrow> \<exists>v. contents s k = Some v \<and> dec v = Inr m \<and> mf_format_version m = FORMAT_VERSION)
      (arrival ks) fs"
    using fs
  proof (rule list.rel_mono_strong)
    fix k f
    assume k: "k \<in> set (arrival ks)"
      and "\<exists>v v'. contents v = contents s1 \<and> fetch_manifest dec t k v = (Inr f, v')"
    then obtain v v' where v: "contents v = contents s" "fetch_manifest dec t k v = (Inr f, v')"
      using K(1) by auto
    from fetch_manifest_ok(2,3) [OF t clean [OF k] v(2)] v(1)
    show "case f of None \<Rightarrow> contents s k = None
      | Some m \<Rightarrow> \<exists>v. contents s k = Some v \<and> dec v = Inr m \<and> mf_format_version m = FORMAT_VERSION"
      by (cases f) auto
  qed
  have in_ms: "m \<in> set ms \<longleftrightarrow> Some m \<in> set fs" for m
    by (force simp: 3 some_values_def)
  have out: "\<exists>k v. k \<in> set ks \<and> contents s k = Some v \<and> dec v = Inr m \<and>
      mf_format_version m = FORMAT_VERSION" if "m \<in> set ms" for m
  proof -
    from that in_ms obtain i where i: "i < length fs" "fs ! i = Some m" by (auto simp: in_set_conv_nth)
    then have "arrival ks ! i \<in> set ks"
      using nth_mem [of i "arrival ks"] list_all2_lengthD [OF fs'] arr [of ks] by simp
    with list_all2_nthD2 [OF fs' i(1)] i(2) show ?thesis by auto
  qed
  have inn: "\<exists>m. Some m \<in> set fs \<and> dec v = Inr m" if "k \<in> set ks" "contents s k = Some v" for k v
  proof -
    have "k \<in> set (arrival ks)" using that(1) arr [of ks] by simp
    then obtain i where i: "i < length (arrival ks)" "arrival ks ! i = k"
      by (auto simp: in_set_conv_nth)
    with list_all2_nthD [OF fs' i(1)] list_all2_lengthD [OF fs'] that(2) nth_mem [of i fs]
    show ?thesis by (cases "fs ! i") auto
  qed
  show "contents s' = contents s" using b2 K(1) by simp
  show "sorted (map manifest_order ms)" by (simp add: 3)
  show "m \<in> set ms \<longleftrightarrow> (\<exists>k v. manifest_at (tg_prefix t) (contents s) k v \<and> dec v = Inr m)" for m
  proof
    assume "m \<in> set ms"
    from out [OF this] show "\<exists>k v. manifest_at (tg_prefix t) (contents s) k v \<and> dec v = Inr m"
      unfolding K(3) by blast
  next
    assume "\<exists>k v. manifest_at (tg_prefix t) (contents s) k v \<and> dec v = Inr m"
    then obtain k v where "k \<in> set ks" "contents s k = Some v" "dec v = Inr m"
      unfolding K(3) by blast
    with inn [OF this(1,2)] in_ms [of m] show "m \<in> set ms" by auto
  qed
  show "m \<in> set ms \<Longrightarrow> mf_format_version m = FORMAT_VERSION" for m
    using out [of m] by blast
  show "manifest_at (tg_prefix t) (contents s) k v \<Longrightarrow> \<exists>m \<in> set ms. dec v = Inr m" for k v
    unfolding K(3) using inn [of k v] in_ms by blast
qed

text \<open>When every manifest is filed under its own GUIDs, none is listed twice.\<close>

lemma distinct_some_values:
  "list_all2 (\<lambda>k f. \<forall>m. f = Some m \<longrightarrow> key m = k) ks fs \<Longrightarrow> distinct ks \<Longrightarrow>
   distinct (some_values fs) \<and> key ` set (some_values fs) \<subseteq> set ks"
proof (induction rule: list_all2_induct)
  case (Cons k ks f fs)
  then show ?case by (cases f) (auto simp: some_values_def)
qed (simp add: some_values_def)

lemma manifests_distinct:
  assumes t: "tg_store t = st" and tidy: "tidy (tg_prefix t) (contents s)"
    and arr: "\<And>xs. mset (arrival xs) = mset xs"
    and filed: "\<And>k v m. manifest_at (tg_prefix t) (contents s) k v \<Longrightarrow> dec v = Inr m \<Longrightarrow>
      k = manifest_key (tg_prefix t) (mf_dataset_guid m) (mf_snapshot_guid m)"
    and ms: "manifests dec arrival t s = (Inr ms, s')"
  shows "distinct ms"
proof -
  let ?key = "\<lambda>m. manifest_key (tg_prefix t) (mf_dataset_guid m) (mf_snapshot_guid m)"
  from ms obtain ks s1 fs where 1: "manifest_keys t s = (Inr ks, s1)" and
    2: "map_io (fetch_manifest dec t) (arrival ks) s1 = (Inr fs, s')" and
    3: "ms = sort_key manifest_order (some_values fs)"
    by (auto simp: manifests_def bind_io_Inr)
  note K = manifest_keys_ok [OF t tidy 1]
  have set: "set (arrival ks) = set ks" using arr mset_eq_setD by blast
  have clean: "clean_path k" if "k \<in> set (arrival ks)" for k using K(2) that set by blast
  have "contents s' = contents s1 \<and> list_all2 (\<lambda>k f. \<exists>v v'. contents v = contents s1 \<and>
      fetch_manifest dec t k v = (Inr f, v')) (arrival ks) fs"
    by (rule map_io_frame [OF 2]) (rule fetch_manifest_ok(1) [OF t clean])
  then have "list_all2 (\<lambda>k f. \<exists>v v'. contents v = contents s1 \<and> fetch_manifest dec t k v = (Inr f, v')) (arrival ks) fs"
    by blast
  then have "list_all2 (\<lambda>k f. \<forall>m. f = Some m \<longrightarrow> ?key m = k) (arrival ks) fs"
  proof (rule list.rel_mono_strong)
    fix k f
    assume k: "k \<in> set (arrival ks)"
      and "\<exists>v v'. contents v = contents s1 \<and> fetch_manifest dec t k v = (Inr f, v')"
    then obtain v v' where v: "contents v = contents s" "fetch_manifest dec t k v = (Inr f, v')"
      using K(1) by auto
    show "\<forall>m. f = Some m \<longrightarrow> ?key m = k"
    proof (intro allI impI)
      fix m assume "f = Some m"
      with fetch_manifest_ok(2) [OF t clean [OF k] v(2)] v(1) obtain y where
        y: "contents s k = Some y" "dec y = Inr m" by auto
      with K(3) k set have "manifest_at (tg_prefix t) (contents s) k y" by auto
      from filed [OF this y(2)] show "?key m = k" by simp
    qed
  qed
  moreover have "distinct (arrival ks)" using K(4) arr [of ks] by (metis mset_eq_imp_distinct_iff)
  ultimately have "distinct (some_values fs)" using distinct_some_values [where key = ?key] by blast
  then show ?thesis by (simp add: 3)
qed

text \<open>On the error paths as well the bucket is only read.\<close>

lemma manifests_frame:
  assumes t: "tg_store t = st" and tidy: "tidy (tg_prefix t) (contents s)"
    and arr: "\<And>xs. set (arrival xs) = set xs"
    and ms: "manifests dec arrival t s = (r, s')"
  shows "contents s' = contents s"
proof -
  let ?root = "key_root (tg_prefix t)"
  have root: "clean_path ?root" using tidy by (simp add: tidy_def)
  obtain rk s1 where 1: "manifest_keys t s = (rk, s1)" by fastforce
  have b1: "contents s1 = contents s"
  proof -
    obtain rd s2 where d: "store_list_dirs st (?root @ ''/'') s = (rd, s2)" by fastforce
    have b2: "contents s2 = contents s" using bk.dirs_any [OF root d] .
    show ?thesis
    proof (cases rd)
      case (Inl e)
      with 1 d b2 show ?thesis
        by (simp add: manifest_keys_def err_io_def bind_io_def t all_manifests_prefix_def)
    next
      case (Inr ds)
      have clean: "clean_path x" if x: "x \<in> set ds" for x
      proof -
        have "x \<in> bucket_dirs (contents s) ?root" using bk.dirs_ok [OF root d [unfolded Inr]] x by blast
        then obtain seg rest where x: "x = ?root @ slash # seg"
          "contents s (?root @ slash # seg @ slash # rest) \<noteq> None" by (auto simp: bucket_dirs_def)
        from tidyD [OF tidy x(2)] x(1) show ?thesis by simp
      qed
      obtain rm where m: "map_io (\<lambda>d. store_list_dirs st (d @ ''/'')) ds s2 = (rm, s1)"
        using 1 d Inr
        by (cases "map_io (\<lambda>d. store_list_dirs st (d @ ''/'')) ds s2"; cases "fst (map_io (\<lambda>d. store_list_dirs st (d @ ''/'')) ds s2)")
          (auto simp: manifest_keys_def err_io_def bind_io_def t all_manifests_prefix_def ret_def)
      have "contents s1 = contents s2"
        by (rule map_io_frame_any [OF m]) (rule bk.dirs_any [OF clean])
      with b2 show ?thesis by simp
    qed
  qed
  show ?thesis
  proof (cases rk)
    case (Inl e)
    with ms 1 b1 show ?thesis by (simp add: manifests_def bind_io_def)
  next
    case (Inr ks)
    have clean: "clean_path k" if "k \<in> set (arrival ks)" for k
      using manifest_keys_ok(2) [OF t tidy 1 [unfolded Inr]] that arr by blast
    obtain rm where m: "map_io (fetch_manifest dec t) (arrival ks) s1 = (rm, s')"
      using ms 1 Inr
      by (cases "map_io (fetch_manifest dec t) (arrival ks) s1"; cases "fst (map_io (fetch_manifest dec t) (arrival ks) s1)")
        (auto simp: manifests_def bind_io_def ret_def)
    have "contents s' = contents s1"
      by (rule map_io_frame_any [OF m]) (rule fetch_manifest_ok(1) [OF t clean])
    with b1 show ?thesis by simp
  qed
qed

lemma pinned_exact:
  assumes t: "tg_store t = st" and root: "clean_path (key_root (tg_prefix t))"
    and gs: "pinned t s = (Inr gs, s')"
  shows "contents s' = contents s"
    "g \<in> set gs \<longleftrightarrow> (\<exists>k. contents s k \<noteq> None \<and> below (key_root (tg_prefix t) @ ''/pins'') k \<and> parse_pin k = Some g)"
proof -
  let ?p = "key_root (tg_prefix t) @ ''/pins''"
  have p: "clean_path ?p" using root clean_path_append [of "key_root (tg_prefix t)" "''pins''"] by simp
  from gs obtain items where 1: "store_list st (?p @ ''/'') s = (Inr items, s')" and
    2: "gs = some_values (map (\<lambda>(key, _). parse_pin key) items)"
    by (auto simp: pinned_def bind_io_Inr err_io_Inr t pins_prefix_def)
  show "contents s' = contents s" using bk.list_any [OF p 1] .
  have "g \<in> set gs \<longleftrightarrow> (\<exists>k n. (k, n) \<in> set items \<and> parse_pin k = Some g)"
    by (force simp: 2 some_values_def)
  with bk.list_ok [OF p 1]
  show "g \<in> set gs \<longleftrightarrow> (\<exists>k. contents s k \<noteq> None \<and> below (key_root (tg_prefix t) @ ''/pins'') k \<and> parse_pin k = Some g)"
    by auto
qed

lemma pinned_frame:
  assumes t: "tg_store t = st" and root: "clean_path (key_root (tg_prefix t))"
    and gs: "pinned t s = (r, s')"
  shows "contents s' = contents s"
proof -
  let ?p = "key_root (tg_prefix t) @ ''/pins''"
  have p: "clean_path ?p" using root clean_path_append [of "key_root (tg_prefix t)" "''pins''"] by simp
  obtain r0 s1 where 1: "store_list st (?p @ ''/'') s = (r0, s1)" by fastforce
  with gs have "s' = s1"
    by (cases r0) (auto simp: pinned_def bind_io_def err_io_def t pins_prefix_def ret_def)
  with bk.list_any [OF p 1] show ?thesis by simp
qed

lemma pin_is_read:
  assumes t: "tg_store t = st" and root: "clean_path (key_root (tg_prefix t))"
    and gs: "pinned t s = (Inr gs, s')" and pin: "contents s (pin_key (tg_prefix t) g) \<noteq> None"
  shows "g \<in> set gs"
proof -
  have "parse_pin (pin_key (tg_prefix t) g) = Some g"
    by (simp add: parse_pin_def pin_key_guid guid_from_str_display)
  moreover have "below (key_root (tg_prefix t) @ ''/pins'') (pin_key (tg_prefix t) g)"
    by (simp add: below_def starts_with_iff pin_key_def)
  ultimately show ?thesis unfolding pinned_exact(2) [OF t root gs] using pin by blast
qed

end

section \<open>The machine\<close>

text \<open>
  The digests are simple injective functions, the clock counts nanoseconds; a \<open>zfs\<close> query
  answers with what \<open>answers\<close> holds for its arguments and \<open>zfs send\<close> produces \<open>output\<close>.
\<close>

definition digest :: "bytes \<Rightarrow> string" where
  "digest b = concat (map (\<lambda>x. fmt_radix 16 (unat x) @ ''.'') b)"

definition checksum :: "bytes \<Rightarrow> u32" where
  "checksum b = foldl (\<lambda>a x. a * 257 + ucast x + 1) 0 b"

definition mem_zfs :: "(string list \<times> outcome) list \<Rightarrow> mem runner" where
  "mem_zfs answers args x =
     ((case map_of answers args of Some out \<Rightarrow> out | None \<Rightarrow> Exited (Some 1) [] []), x)"

definition mem_host :: "(string list \<times> outcome) list \<Rightarrow> mem host" where
  "mem_host answers =
     \<lparr>ho_now = me_clock,
      ho_sleep = (\<lambda>ms x. x\<lparr>me_clock := me_clock x + int ms * 1000000\<rparr>),
      ho_zfs = mem_zfs answers,
      ho_spawn = (\<lambda>_ x. (Inr (), x\<lparr>me_fed := []\<rparr>)),
      ho_read = (\<lambda>n x. (Inr (take n (me_fed x)), x\<lparr>me_fed := drop n (me_fed x)\<rparr>)),
      ho_write = (\<lambda>d x. (Inr (), x\<lparr>me_fed := me_fed x @ d\<rparr>)),
      ho_flush = (\<lambda>x. (Inr (), x)),
      ho_wait = (\<lambda>x. ((Inr (Some 0), []), x\<lparr>me_applied := me_applied x @ [me_fed x]\<rparr>)),
      ho_blake3 = digest,
      ho_crc32c = checksum,
      ho_uuid = (\<lambda>x. (me_uuids x, x\<lparr>me_uuids := Suc (me_uuids x)\<rparr>))\<rparr>"

text \<open>The bucket calls of the administration on the same objects, which check the checksum.\<close>

definition ad_unavailable :: admin_error where
  "ad_unavailable = AdS3 ''call'' 503 ''SlowDown'' ''Please reduce your request rate.''"

definition as_admin :: "(mem, os_error, 'a) io \<Rightarrow> (mem, admin_error, 'a) io" where
  "as_admin = err_io (\<lambda>_. ad_unavailable)"

definition mem_admin :: "mem admin_api" where
  "mem_admin =
     \<lparr>ad_put_object_crc32c = (\<lambda>k v c.
        if c = checksum v then as_admin (mem_write (with_object k v))
        else throw (AdS3 ''PutObject'' 400 ''BadDigest'' [])),
      ad_list_uploads = (\<lambda>_. as_admin (mem_read (\<lambda>_. Inr []))),
      ad_list_versions = (\<lambda>p. as_admin (mem_read (\<lambda>x.
        Inr (map (\<lambda>k. (k, ''null'')) (filter (starts_with p) (remdups (map fst (me_objects x)))))))),
      ad_delete_version = (\<lambda>k _. as_admin (mem_write (without k))),
      ad_show = (\<lambda>_. ''call failed'')\<rparr>"

definition mem_service :: "mem store" where
  "mem_service = \<lparr>st_inner = mem_backend, st_admin = Some mem_admin\<rparr>"

lemma mem_frame:
  "mem_read f x = (r, x') \<Longrightarrow> me_fed x' = me_fed x \<and> me_applied x' = me_applied x"
  by (auto simp: mem_read_def next_fate_def split: prod.splits list.splits if_splits)

section \<open>A sample bucket\<close>

text \<open>
  Two snapshots of one dataset: a full stream in two chunks and an increment on it. The
  decoder knows these two documents.
\<close>

definition sample_chunk :: "u32 \<Rightarrow> bytes \<Rightarrow> chunk" where
  "sample_chunk q d = \<lparr>ck_seq = q, ck_bytes = of_nat (length d), ck_blake3 = digest d\<rparr>"

definition sample_manifest :: "string \<Rightarrow> guid \<Rightarrow> guid option \<Rightarrow> int \<Rightarrow> bytes list \<Rightarrow> manifest" where
  "sample_manifest name g base time ds =
     \<lparr>mf_format_version = 1, mf_dataset = ''tank/a'', mf_dataset_guid = Guid 1, mf_snapshot = name,
      mf_snapshot_guid = g, mf_from_guid = base, mf_createtxg = of_int time, mf_created_at = time,
      mf_send_flags = send_flags_default, mf_bytes = of_nat (length (concat ds)),
      mf_stream_blake3 = digest (concat ds), mf_end_checksum = None,
      mf_chunks = map (\<lambda>(i, d). sample_chunk (of_nat i) d) (enumerate 0 ds)\<rparr>"

definition sample_full :: manifest where
  "sample_full = sample_manifest ''tank/a@1'' (Guid 16) None 10 [[1, 2, 3], [4]]"

definition sample_incr :: manifest where
  "sample_incr = sample_manifest ''tank/a@2'' (Guid 32) (Some (Guid 16)) 20 [[5, 6]]"

definition sample_dec :: "bytes \<Rightarrow> string + manifest" where
  "sample_dec b =
     (if b = [1] then Inr sample_full else if b = [2] then Inr sample_incr else Inl ''not JSON'')"

definition sample_objects :: "(string \<times> bytes) list" where
  "sample_objects =
     [(manifest_key ''t'' (Guid 1) (Guid 16), [1]), (chunk_key ''t'' (Guid 1) (Guid 16) 0, [1, 2, 3]),
      (chunk_key ''t'' (Guid 1) (Guid 16) 1, [4]),
      (manifest_key ''t'' (Guid 1) (Guid 32), [2]), (chunk_key ''t'' (Guid 1) (Guid 32) 0, [5, 6])]"

definition mem_sys :: "(string \<times> bytes) list \<Rightarrow> fate list \<Rightarrow> mem sys" where
  "mem_sys objs fates =
     \<lparr>ext = \<lparr>me_objects = objs, me_fates = fates, me_clock = 0, me_fed = [], me_applied = [], me_uuids = 0\<rparr>,
      crc32c_on = False\<rparr>"

definition mem_target :: "mem target" where
  "mem_target = \<lparr>tg_store = mem_store, tg_prefix = ''t''\<rparr>"

lemma mem_target_simps [simp]: "tg_store mem_target = mem_store" "tg_prefix mem_target = ''t''"
  by (simp_all add: mem_target_def)

lemma mem_sys_view: "mem_view (ext (mem_sys objs fates)) = map_of objs"
  by (simp add: mem_sys_def mem_view_def)

text \<open>A bucket whose keys are clean is tidy.\<close>

lemma mem_tidy:
  assumes "clean_path (key_root p)" "list_all clean_path (map fst objs)"
  shows "tidy p (mem_view (ext (mem_sys objs fates)))"
  using assms
  by (fastforce simp: tidy_def mem_sys_view list_all_iff dest!: map_of_SomeD)

lemma mem_tidy_sample: "tidy ''t'' (mem_view (ext (mem_sys sample_objects fates)))"
proof (rule mem_tidy)
  show "clean_path (key_root ''t'')" by code_simp
  then show "list_all clean_path (map fst sample_objects)"
    by (simp add: sample_objects_def clean_keys)
qed

end
