(* ===== verification/Inspect.thy ===== *)
theory Inspect
  imports Targets
begin

text \<open>
  \<open>src/cmd/verify.rs\<close>, \<open>src/cmd/pin.rs\<close> and \<open>src/cmd/list.rs\<close>. \<open>verify\<close> reads every chunk back;
  the incremental BLAKE3 hasher is modelled by the bytes it has been fed. \<open>list\<close> is the rows it
  prints, without their formatting. The laws: a verification succeeds exactly when the bucket
  holds the stream with the recorded lengths and hashes; a pin is seen by the next reader.
\<close>

section \<open>verify\<close>

fun verify_chunks ::
  "(bytes \<Rightarrow> string) \<Rightarrow> 'x target \<Rightarrow> manifest \<Rightarrow> chunk list \<Rightarrow> bytes \<Rightarrow> u64 \<Rightarrow> ('x sys, error, bytes \<times> u64) io"
where
  "verify_chunks blake t m [] fed tot = ret (fed, tot)"
| "verify_chunks blake t m (c # cs) fed tot =
     (let key = chunk_key (tg_prefix t) (mf_dataset_guid m) (mf_snapshot_guid m) (ck_seq c) in
      bind_io (err_io EStore (store_get (tg_store t) key)) (\<lambda>data.
        if of_nat (length data) \<noteq> ck_bytes c
        then throw (SizeMismatch key (of_nat (length data)) (ck_bytes c))
        else if blake data \<noteq> ck_blake3 c then throw (HashMismatch key)
        else verify_chunks blake t m cs (fed @ data) (tot + ck_bytes c)))"

definition verify_manifest ::
  "(bytes \<Rightarrow> string) \<Rightarrow> 'x target \<Rightarrow> manifest \<Rightarrow> ('x sys, error, unit) io" where
  "verify_manifest blake t m =
     bind_io (verify_chunks blake t m (mf_chunks m) [] 0) (\<lambda>(fed, tot).
       if tot \<noteq> mf_bytes m then throw (TotalMismatch tot (mf_bytes m))
       else if blake fed \<noteq> mf_stream_blake3 m then throw StreamHashMismatch
       else ret ())"

definition verify_run ::
  "(bytes \<Rightarrow> string + manifest) \<Rightarrow> (string list \<Rightarrow> string list) \<Rightarrow> 'x host \<Rightarrow> 'x target \<Rightarrow> string
     \<Rightarrow> ('x sys, error, unit) io" where
  "verify_run dec arrival h t snap =
     bind_io (manifest_for dec arrival t snap) (verify_manifest (ho_blake3 h) t)"

section \<open>pin\<close>

definition pin_run ::
  "(bytes \<Rightarrow> string + manifest) \<Rightarrow> (string list \<Rightarrow> string list) \<Rightarrow> 'x target \<Rightarrow> string \<Rightarrow> bool
     \<Rightarrow> ('x sys, error, unit) io" where
  "pin_run dec arrival t snap pin =
     bind_io (manifest_for dec arrival t snap) (\<lambda>m.
       (let key = pin_key (tg_prefix t) (mf_snapshot_guid m) in
        err_io EStore
          (if pin then store_put (tg_store t) key (map (\<lambda>c. of_nat (of_char c)) (mf_snapshot m))
           else store_delete (tg_store t) key)))"

section \<open>list\<close>

datatype row = Row manifest bool

definition list_rows :: "string option \<Rightarrow> guid list \<Rightarrow> manifest list \<Rightarrow> row list" where
  "list_rows only pins ms =
     map (\<lambda>m. Row m (mf_snapshot_guid m \<in> set pins))
       (filter (\<lambda>m. case only of None \<Rightarrow> True | Some d \<Rightarrow> name_matches d (mf_dataset m)) ms)"

definition list_run ::
  "(bytes \<Rightarrow> string + manifest) \<Rightarrow> (string list \<Rightarrow> string list) \<Rightarrow> 'x target \<Rightarrow> string option
     \<Rightarrow> ('x sys, error, row list) io" where
  "list_run dec arrival t only =
     bind_io (manifests dec arrival t) (\<lambda>ms.
     bind_io (pinned t) (\<lambda>pins. ret (list_rows only pins ms)))"

section \<open>What a verification establishes\<close>

text \<open>The stream is there, with the total and the hash of the manifest.\<close>

definition verified :: "(bytes \<Rightarrow> string) \<Rightarrow> string \<Rightarrow> (string \<Rightarrow> bytes option) \<Rightarrow> manifest \<Rightarrow> bool" where
  "verified blake p b m \<longleftrightarrow>
     (\<exists>v. holds_stream blake p b m v \<and> of_nat (length v) = mf_bytes m \<and> blake v = mf_stream_blake3 m)"

lemma pick_Inr: "pick all snap = Inr m \<longleftrightarrow> filter (\<lambda>m. mf_snapshot m = snap) all = [m]"
  by (cases "filter (\<lambda>m. mf_snapshot m = snap) all"; cases "tl (filter (\<lambda>m. mf_snapshot m = snap) all)")
    (auto simp: pick_def Let_def)

context s3_store
begin

lemma verify_chunks_ok:
  assumes t: "tg_store t = st" and root: "clean_path (key_root (tg_prefix t))"
  shows "verify_chunks blake t m cs fed tot s = (Inr (fed', tot'), s') \<Longrightarrow>
    contents s' = contents s \<and>
    (\<exists>ds. list_all2 (chunk_good blake (tg_prefix t) (contents s) m) cs ds \<and> fed' = fed @ concat ds \<and>
      tot' = tot + of_nat (length (concat ds)))"
proof (induction cs arbitrary: fed tot s)
  case (Cons c cs)
  let ?key = "chunk_key (tg_prefix t) (mf_dataset_guid m) (mf_snapshot_guid m) (ck_seq c)"
  note clean = clean_keys(3) [OF root]
  from Cons.prems obtain d s1 where 1: "store_get st ?key s = (Inr d, s1)" and
    d: "of_nat (length d) = ck_bytes c" "blake d = ck_blake3 c" and
    2: "verify_chunks blake t m cs (fed @ d) (tot + ck_bytes c) s1 = (Inr (fed', tot'), s')"
    by (auto simp: Let_def t bind_io_Inr err_io_Inr split: if_splits)
  have b1: "contents s1 = contents s" "contents s ?key = Some d"
    using bk.get_any [OF clean 1] bk.get_ok [OF clean 1] by simp_all
  from Cons.IH [OF 2] obtain ds where ds: "contents s' = contents s1"
    "list_all2 (chunk_good blake (tg_prefix t) (contents s1) m) cs ds" "fed' = (fed @ d) @ concat ds"
    "tot' = tot + ck_bytes c + of_nat (length (concat ds))" by blast
  have "chunk_good blake (tg_prefix t) (contents s) m c d"
    using b1(2) d by (simp add: chunk_good_def)
  with ds b1(1) d show ?case
    by (intro conjI exI [of _ "d # ds"]) (simp_all add: add.assoc)
qed simp

lemma verify_manifest_ok:
  assumes t: "tg_store t = st" and root: "clean_path (key_root (tg_prefix t))"
    and v: "verify_manifest blake t m s = (Inr u, s')"
  shows "verified blake (tg_prefix t) (contents s) m" "contents s' = contents s"
proof -
  from v obtain fed tot where "verify_chunks blake t m (mf_chunks m) [] 0 s = (Inr (fed, tot), s')"
    "tot = mf_bytes m" "blake fed = mf_stream_blake3 m"
    by (auto simp: verify_manifest_def bind_io_Inr split: if_splits)
  with verify_chunks_ok [OF t root this(1)]
  show "verified blake (tg_prefix t) (contents s) m" "contents s' = contents s"
    by (auto simp: verified_def holds_stream_def)
qed

text \<open>Conversely a failure of the checks is reported only when something is wrong.\<close>

lemma verify_chunks_blames:
  assumes t: "tg_store t = st" and root: "clean_path (key_root (tg_prefix t))"
  shows "verify_chunks blake t m cs fed tot s = (Inl e, s') \<Longrightarrow>
    (\<exists>se. e = EStore se) \<or> (\<exists>c \<in> set cs. \<forall>d. \<not> chunk_good blake (tg_prefix t) (contents s) m c d)"
proof (induction cs arbitrary: fed tot s)
  case (Cons c cs)
  let ?key = "chunk_key (tg_prefix t) (mf_dataset_guid m) (mf_snapshot_guid m) (ck_seq c)"
  note clean = clean_keys(3) [OF root]
  obtain r1 s1 where 1: "store_get st ?key s = (r1, s1)" by fastforce
  show ?case
  proof (cases r1)
    case (Inl se)
    with Cons.prems 1 show ?thesis by (auto simp: Let_def t bind_io_def err_io_def)
  next
    case (Inr d)
    have b1: "contents s1 = contents s" "contents s ?key = Some d"
      using bk.get_any [OF clean 1] bk.get_ok [OF clean 1 [unfolded Inr]] by simp_all
    show ?thesis
    proof (cases "of_nat (length d) = ck_bytes c \<and> blake d = ck_blake3 c")
      case True
      with Cons.prems 1 Inr have "verify_chunks blake t m cs (fed @ d) (tot + ck_bytes c) s1 = (Inl e, s')"
        by (auto simp: Let_def t bind_io_def err_io_def)
      from Cons.IH [OF this] b1(1) show ?thesis by auto
    next
      case False
      with b1(2) show ?thesis by (auto simp: chunk_good_def)
    qed
  qed
qed simp

lemma verify_run_ok:
  assumes t: "tg_store t = st" and tidy: "tidy (tg_prefix t) (contents s)"
    and arr: "\<And>xs. set (arrival xs) = set xs"
    and run: "verify_run dec arrival h t snap s = (Inr u, s')"
  shows "\<exists>m. mf_snapshot m = snap \<and> verified (ho_blake3 h) (tg_prefix t) (contents s) m \<and>
    (\<exists>k v. manifest_at (tg_prefix t) (contents s) k v \<and> dec v = Inr m) \<and>
    (\<forall>k v m'. manifest_at (tg_prefix t) (contents s) k v \<longrightarrow> dec v = Inr m' \<longrightarrow>
       mf_snapshot m' = snap \<longrightarrow> m' = m)"
proof -
  have root: "clean_path (key_root (tg_prefix t))" using tidy by (simp add: tidy_def)
  from run obtain m s2 where mf: "manifest_for dec arrival t snap s = (Inr m, s2)" and
    3: "verify_manifest (ho_blake3 h) t m s2 = (Inr u, s')"
    by (auto simp: verify_run_def bind_io_Inr)
  then obtain all s1 where 1: "manifests dec arrival t s = (Inr all, s1)" and
    "lift_result (pick all snap) s1 = (Inr m, s2)"
    by (auto simp: manifest_for_def bind_io_Inr)
  then have 2: "pick all snap = Inr m" "s2 = s1" by (simp_all add: lift_result_def)
  note M = manifests_exact [OF t tidy arr 1]
  note hits = filter_eq_single [OF 2(1) [unfolded pick_Inr]]
  have "verified (ho_blake3 h) (tg_prefix t) (contents s) m"
    using verify_manifest_ok(1) [OF t root 3] M(1) 2(2) by simp
  with hits M(3) show ?thesis by blast
qed

lemma pin_run_ok:
  assumes t: "tg_store t = st" and tidy: "tidy (tg_prefix t) (contents s)"
    and arr: "\<And>xs. set (arrival xs) = set xs"
    and run: "pin_run dec arrival t snap pin s = (Inr u, s')"
  shows "\<exists>all m s1. manifests dec arrival t s = (Inr all, s1) \<and> pick all snap = Inr m \<and>
    contents s' = (contents s)(pin_key (tg_prefix t) (mf_snapshot_guid m) :=
      (if pin then Some (map (\<lambda>c. of_nat (of_char c)) (mf_snapshot m)) else None))"
proof -
  have root: "clean_path (key_root (tg_prefix t))" using tidy by (simp add: tidy_def)
  from run obtain m s2 where mf: "manifest_for dec arrival t snap s = (Inr m, s2)" and
    3: "(if pin then store_put st (pin_key (tg_prefix t) (mf_snapshot_guid m)) (map (\<lambda>c. of_nat (of_char c)) (mf_snapshot m))
         else store_delete st (pin_key (tg_prefix t) (mf_snapshot_guid m))) s2 = (Inr u, s')"
    by (cases pin) (auto simp: pin_run_def bind_io_Inr Let_def err_io_Inr t)
  then obtain all s1 where 1: "manifests dec arrival t s = (Inr all, s1)" and
    "lift_result (pick all snap) s1 = (Inr m, s2)"
    by (auto simp: manifest_for_def bind_io_Inr)
  then have 2: "pick all snap = Inr m" "s2 = s1" by (simp_all add: lift_result_def)
  have b: "contents s2 = contents s" using manifests_exact(1) [OF t tidy arr 1] 2 by simp
  note clean = clean_keys(4) [OF root]
  have "contents s' = (contents s)(pin_key (tg_prefix t) (mf_snapshot_guid m) :=
      (if pin then Some (map (\<lambda>c. of_nat (of_char c)) (mf_snapshot m)) else None))"
    using 3 bk.put_ok [OF clean, of _ _ s2 _ s'] bk.del_ok [OF clean, of _ s2 _ s'] b
    by (cases pin) auto
  with 1 2 show ?thesis by blast
qed

end

end
