(* ===== verification/Receive.thy ===== *)
theory Receive
  imports Targets
begin

text \<open>
  \<open>src/cmd/receive.rs\<close>: the chain of a snapshot, the adaptive prefetch window and the restore.
  A prefetched download is executed when the writer awaits it; \<open>ready\<close> says, for each await,
  whether the download had already finished. The laws: the chain is exactly the ancestry of
  the snapshot, full stream first; what reaches \<open>zfs receive\<close> is the verified chunks in
  manifest order whatever finished first; the window stays between its floor and its ceiling.
\<close>

section \<open>The prefetch window\<close>

definition PREFETCH_BUDGET :: u64 where "PREFETCH_BUDGET = push_bit 20 512"
definition MIN_INFLIGHT :: nat where "MIN_INFLIGHT = 2"

definition prefetch_ceiling :: "nat \<Rightarrow> u64 \<Rightarrow> nat" where
  "prefetch_ceiling window chunk_bytes =
     (let by_bytes = (if chunk_bytes = 0 then window else max (unat (PREFETCH_BUDGET div chunk_bytes)) 1)
      in max (min (max window 1) by_bytes) (min MIN_INFLIGHT (max window 1)))"

record 'a window =
  wn_target :: nat
  wn_waiting :: "'a list" \<comment> \<open>chunks not yet spawned\<close>
  wn_inflight :: "'a list"

definition spawn_up_to :: "'a window \<Rightarrow> 'a window" where
  "spawn_up_to w =
     (let k = wn_target w - length (wn_inflight w)
      in w\<lparr>wn_inflight := wn_inflight w @ take k (wn_waiting w), wn_waiting := drop k (wn_waiting w)\<rparr>)"

definition adapt :: "nat \<Rightarrow> nat \<Rightarrow> bool \<Rightarrow> nat \<Rightarrow> nat" where
  "adapt lowest ceiling was_ready t =
     (if was_ready then max (t - 1) lowest else min (t + 1) ceiling)"

text \<open>After the next chunk has been awaited: the depth follows the bottleneck, the rest moves up.\<close>

definition next_window :: "nat \<Rightarrow> nat \<Rightarrow> bool \<Rightarrow> 'a window \<Rightarrow> 'a window" where
  "next_window lowest ceiling was_ready w =
     spawn_up_to (w\<lparr>wn_inflight := tl (wn_inflight w),
       wn_target := adapt lowest ceiling was_ready (wn_target w)\<rparr>)"

section \<open>The chain\<close>

function chain_walk ::
  "manifest list \<Rightarrow> string \<Rightarrow> manifest \<Rightarrow> guid list \<Rightarrow> manifest list \<Rightarrow> error + manifest list" where
  "chain_walk all snap cur seen chain =
     (case mf_from_guid cur of
        None \<Rightarrow> Inr chain
      | Some f \<Rightarrow>
          (case List.find (\<lambda>m. mf_snapshot_guid m = f) all of
             None \<Rightarrow> Inl (BrokenChain f (mf_snapshot cur))
           | Some base \<Rightarrow>
               if f \<in> set seen then Inl (CircularChain snap (mf_snapshot base) f)
               else chain_walk all snap base (f # seen) (chain @ [base])))"
  by pat_completeness auto
termination
proof (relation "measure (\<lambda>(all, _, _, seen, _). card (mf_snapshot_guid ` set all - set seen))")
  fix all snap cur seen chain f base
  assume h: "List.find (\<lambda>m. mf_snapshot_guid m = f) all = Some base" "f \<notin> set seen"
  have "f \<in> mf_snapshot_guid ` set all" using find_SomeD [OF h(1)] by auto
  then have "mf_snapshot_guid ` set all - set (f # seen) \<subset> mf_snapshot_guid ` set all - set seen"
    using h(2) by auto
  then have "card (mf_snapshot_guid ` set all - set (f # seen)) < card (mf_snapshot_guid ` set all - set seen)"
    by (intro psubset_card_mono) simp_all
  then show "((all, snap, base, f # seen, chain @ [base]), all, snap, cur, seen, chain)
      \<in> measure (\<lambda>(all, _, _, seen, _). card (mf_snapshot_guid ` set all - set seen))" by simp
qed simp

declare chain_walk.simps [simp del]

text \<open>The chain of the snapshot that bears the name, oldest first.\<close>

definition chain_of :: "manifest list \<Rightarrow> string \<Rightarrow> error + manifest list" where
  "chain_of all snap =
     bind_result (pick all snap) (\<lambda>picked.
     bind_result
       (ok_or (List.find (\<lambda>m. mf_snapshot_guid m = mf_snapshot_guid picked) all)
         (Message ''selected manifest vanished between listings''))
       (\<lambda>tip. map_sum id rev (chain_walk all snap tip [mf_snapshot_guid tip] [tip])))"

section \<open>Applying one stream\<close>

definition fetch_chunk :: "'x host \<Rightarrow> 'x target \<Rightarrow> manifest \<Rightarrow> chunk \<Rightarrow> ('x sys, error, bytes) io" where
  "fetch_chunk h t m c =
     (let key = chunk_key (tg_prefix t) (mf_dataset_guid m) (mf_snapshot_guid m) (ck_seq c) in
      bind_io (retry (sleep_sys h) ''fetch chunk'' (err_io EStore (store_get (tg_store t) key))) (\<lambda>data.
        if of_nat (length data) \<noteq> ck_bytes c
        then throw (SizeMismatch key (of_nat (length data)) (ck_bytes c))
        else if ho_blake3 h data \<noteq> ck_blake3 c then throw (HashMismatch key)
        else ret data))"

text \<open>The write of one chunk; a failed one collects the child, whose message says more.\<close>

definition write_chunk :: "'x host \<Rightarrow> bytes \<Rightarrow> ('x sys, error, unit) io" where
  "write_chunk h data =
     try_io (on_ext (ho_write h data)) (\<lambda>r.
       case r of
         Inr _ \<Rightarrow> ret ()
       | Inl pipe \<Rightarrow>
           try_io (finish_child h ''receive'') (\<lambda>f.
             case f of
               Inl e \<Rightarrow> throw (Context ''zfs receive failed'' e)
             | Inr _ \<Rightarrow> throw (Context ''writing to zfs receive'' (Message pipe))))"

text \<open>\<open>ready\<close> loses its head at each await; without one, the download is not finished.\<close>

function apply_loop ::
  "'x host \<Rightarrow> 'x target \<Rightarrow> manifest \<Rightarrow> nat \<Rightarrow> nat \<Rightarrow> bool list \<Rightarrow> chunk window \<Rightarrow> u64
     \<Rightarrow> ('x sys, error, u64) io" where
  "apply_loop h t m lowest ceiling ready w tot s =
     (case wn_inflight w of
        [] \<Rightarrow> (Inr tot, s)
      | c # cs \<Rightarrow>
          (case fetch_chunk h t m c s of (r, s1) \<Rightarrow>
             (case r of
                Inl e \<Rightarrow> (Inl e, s1)
              | Inr data \<Rightarrow>
                  (case write_chunk h data s1 of (r2, s2) \<Rightarrow>
                     (case r2 of
                        Inl e \<Rightarrow> (Inl e, s2)
                      | Inr _ \<Rightarrow>
                          apply_loop h t m lowest ceiling (tl ready)
                            (next_window lowest ceiling (ready \<noteq> [] \<and> hd ready) w)
                            (tot + of_nat (length data)) s2)))))"
  by pat_completeness auto
termination
  by (relation "measure (\<lambda>(h, t, m, l, c, ready, w, _). length (wn_inflight w) + length (wn_waiting w))")
    (auto simp: next_window_def spawn_up_to_def Let_def)

declare apply_loop.simps [simp del]

definition first_bytes :: "manifest \<Rightarrow> u64" where
  "first_bytes m = (case mf_chunks m of [] \<Rightarrow> 0 | c # _ \<Rightarrow> ck_bytes c)"

definition apply_stream ::
  "'x host \<Rightarrow> 'x target \<Rightarrow> string \<Rightarrow> bool \<Rightarrow> nat \<Rightarrow> bool list \<Rightarrow> manifest \<Rightarrow> u64 \<Rightarrow> ('x sys, error, u64) io"
where
  "apply_stream h t to force window ready m tot =
     (let ceiling = prefetch_ceiling window (first_bytes m); lowest = min MIN_INFLIGHT ceiling;
          w = spawn_up_to \<lparr>wn_target = lowest, wn_waiting = mf_chunks m, wn_inflight = []\<rparr> in
      bind_io (spawn_child h (receive_args to force)) (\<lambda>_.
      bind_io (apply_loop h t m lowest ceiling ready w tot) (\<lambda>tot'.
      bind_io (err_io Message (on_ext (ho_flush h))) (\<lambda>_.
      bind_io (finish_child h ''receive'') (\<lambda>_. ret tot')))))"

text \<open>The streams of a chain, oldest first; a failure clears the partial state it leaves.\<close>

fun apply_chain ::
  "'x host \<Rightarrow> 'x target \<Rightarrow> string \<Rightarrow> bool \<Rightarrow> nat \<Rightarrow> (manifest \<Rightarrow> bool list) \<Rightarrow> manifest list \<Rightarrow> u64
     \<Rightarrow> ('x sys, error, u64) io" where
  "apply_chain h t to force window ready [] tot = ret tot"
| "apply_chain h t to force window ready (m # ms) tot =
     try_io (apply_stream h t to force window (ready m) m tot) (\<lambda>r.
       case r of
         Inr tot' \<Rightarrow> apply_chain h t to force window ready ms tot'
       | Inl e \<Rightarrow>
           try_io (err_io EZfs (on_ext (receive_abort (ho_zfs h) to))) (\<lambda>_.
             throw (Context (''restoring '' @ mf_snapshot m @ '' into '' @ to) e)))"

definition receive_run ::
  "(bytes \<Rightarrow> string + manifest) \<Rightarrow> (string list \<Rightarrow> string list) \<Rightarrow> (manifest \<Rightarrow> bool list)
     \<Rightarrow> 'x host \<Rightarrow> 'x target \<Rightarrow> string \<Rightarrow> string \<Rightarrow> bool \<Rightarrow> nat \<Rightarrow> ('x sys, error, u64) io" where
  "receive_run dec arrival ready h t snap to force window =
     bind_io (manifests dec arrival t) (\<lambda>all.
     bind_io (lift_result (chain_of all snap)) (\<lambda>chain.
       apply_chain h t to force window ready chain 0))"

section \<open>The chain is the ancestry\<close>

text \<open>A chain as \<open>zfs receive\<close> needs it: a full stream, then increments, each on the one before.\<close>

definition based_on :: "manifest \<Rightarrow> manifest \<Rightarrow> bool" where
  "based_on b m \<longleftrightarrow> mf_from_guid m = Some (mf_snapshot_guid b)"

definition is_chain :: "manifest list \<Rightarrow> bool" where
  "is_chain ms \<longleftrightarrow> ms \<noteq> [] \<and> is_full (hd ms) \<and> successively based_on ms \<and> distinct (map mf_snapshot_guid ms)"

inductive restorable :: "manifest list \<Rightarrow> manifest \<Rightarrow> bool" for all where
  full: "mf_from_guid m = None \<Longrightarrow> restorable all m"
| incr: "mf_from_guid m = Some f \<Longrightarrow> List.find (\<lambda>b. mf_snapshot_guid b = f) all = Some b \<Longrightarrow>
    restorable all b \<Longrightarrow> restorable all m"

inductive_cases restorable_SomeE: "restorable all m"

lemma find_guid: "List.find (\<lambda>m. mf_snapshot_guid m = f) all = Some b \<Longrightarrow> mf_snapshot_guid b = f \<and> b \<in> set all"
  using find_SomeD by fastforce

lemma chain_walk_Inr:
  "chain_walk all snap cur seen chain = Inr ms \<Longrightarrow> chain \<noteq> [] \<Longrightarrow> last chain = cur \<Longrightarrow>
   successively (\<lambda>a b. based_on b a) chain \<Longrightarrow> set seen = mf_snapshot_guid ` set chain \<Longrightarrow>
   distinct (map mf_snapshot_guid chain) \<Longrightarrow>
   (\<exists>more. ms = chain @ more \<and> set more \<subseteq> set all) \<and> successively (\<lambda>a b. based_on b a) ms \<and>
   is_full (last ms) \<and> distinct (map mf_snapshot_guid ms)"
proof (induction all snap cur seen chain rule: chain_walk.induct)
  case (1 all snap cur seen chain)
  show ?case
  proof (cases "mf_from_guid cur")
    case None
    with "1.prems" show ?thesis by (simp add: chain_walk.simps is_full_def)
  next
    case (Some f)
    with "1.prems"(1) obtain base where
      b: "List.find (\<lambda>m. mf_snapshot_guid m = f) all = Some base" "f \<notin> set seen" and
      rec: "chain_walk all snap base (f # seen) (chain @ [base]) = Inr ms"
      by (auto simp: chain_walk.simps [of _ _ cur] split: option.splits if_splits)
    note base = find_guid [OF b(1)]
    have "successively (\<lambda>a b. based_on b a) (chain @ [base])"
      using "1.prems"(2-4) Some base by (simp add: successively_append_iff based_on_def)
    with "1.IH" [OF Some b(1,2) rec] "1.prems" base b(2) show ?thesis by auto
  qed
qed

lemma chain_of_Inr:
  assumes "chain_of all snap = Inr ms"
  shows "is_chain ms" "set ms \<subseteq> set all" "mf_snapshot (last ms) = snap \<or> \<not> distinct (map mf_snapshot_guid all)"
    "\<exists>m. pick all snap = Inr m \<and> mf_snapshot_guid (last ms) = mf_snapshot_guid m"
proof -
  from assms obtain m tip chain where p: "pick all snap = Inr m" and
    tip: "List.find (\<lambda>x. mf_snapshot_guid x = mf_snapshot_guid m) all = Some tip" and
    w: "chain_walk all snap tip [mf_snapshot_guid tip] [tip] = Inr chain" and ms: "ms = rev chain"
    by (auto simp: chain_of_def result_simps)
  note t = find_guid [OF tip]
  from chain_walk_Inr [OF w] obtain more where c: "chain = tip # more" "set more \<subseteq> set all"
    "successively (\<lambda>a b. based_on b a) chain" "is_full (last chain)" "distinct (map mf_snapshot_guid chain)"
    by auto
  have "hd ms = last chain" "ms \<noteq> []" by (simp_all only: ms hd_rev) (simp add: c(1))
  moreover have "successively based_on ms" using c(3) by (simp only: ms successively_rev)
  moreover have "distinct (map mf_snapshot_guid ms)" using c(5) by (simp add: ms rev_map [symmetric])
  ultimately show "is_chain ms" using c(4) by (simp add: is_chain_def)
  show "set ms \<subseteq> set all" using c t by (simp add: ms)
  have l: "last ms = tip" by (simp add: ms c(1))
  show "\<exists>m. pick all snap = Inr m \<and> mf_snapshot_guid (last ms) = mf_snapshot_guid m"
    using p l t by auto
  from p have m: "m \<in> set all" "mf_snapshot m = snap"
    using nth_mem [of 0 "filter (\<lambda>m. mf_snapshot m = snap) all"]
    by (auto simp: pick_def Let_def split: if_splits)
  have "tip = m" if "distinct (map mf_snapshot_guid all)"
    using that t m(1) by (auto simp: distinct_map dest: inj_onD)
  then show "mf_snapshot (last ms) = snap \<or> \<not> distinct (map mf_snapshot_guid all)" using m(2) l by auto
qed

text \<open>A walk that stops names a base that no manifest has, or one it has been to.\<close>

lemma chain_walk_Inl:
  "chain_walk all snap cur seen chain = Inl e \<Longrightarrow>
   (\<exists>f n. e = BrokenChain f n \<and> f \<notin> mf_snapshot_guid ` set all) \<or>
   (\<exists>n f. e = CircularChain snap n f \<and> f \<in> mf_snapshot_guid ` set all)"
proof (induction all snap cur seen chain rule: chain_walk.induct)
  case (1 all snap cur seen chain)
  show ?case
  proof (cases "mf_from_guid cur")
    case None
    with "1.prems" show ?thesis by (simp add: chain_walk.simps)
  next
    case (Some f)
    show ?thesis
    proof (cases "List.find (\<lambda>m. mf_snapshot_guid m = f) all")
      case None
      with "1.prems" Some have "e = BrokenChain f (mf_snapshot cur)" by (simp add: chain_walk.simps)
      then show ?thesis using find_NoneD [OF None] by auto
    next
      case base: (Some base)
      with "1.prems" "1.IH" [OF Some base] Some find_guid [OF base] show ?thesis
        by (cases "f \<in> set seen") (auto simp: chain_walk.simps [of _ _ cur])
    qed
  qed
qed

text \<open>
  The walk succeeds on every restorable snapshot: the guard against cycles never cuts an
  acyclic chain. \<open>steps all n m\<close> is the length of the ancestry of \<open>m\<close>.
\<close>

inductive steps :: "manifest list \<Rightarrow> nat \<Rightarrow> manifest \<Rightarrow> bool" for all where
  zero: "mf_from_guid m = None \<Longrightarrow> steps all 0 m"
| suc: "mf_from_guid m = Some f \<Longrightarrow> List.find (\<lambda>b. mf_snapshot_guid b = f) all = Some b \<Longrightarrow>
    steps all n b \<Longrightarrow> steps all (Suc n) m"

lemma restorable_steps: "restorable all m \<Longrightarrow> \<exists>n. steps all n m"
  by (induction rule: restorable.induct) (auto intro: steps.intros)

lemma steps_restorable: "steps all n m \<Longrightarrow> restorable all m"
  by (induction rule: steps.induct) (auto intro: restorable.intros)

lemma steps_unique: "steps all n m \<Longrightarrow> steps all k m \<Longrightarrow> n = k"
proof (induction arbitrary: k rule: steps.induct)
  case (suc m f b n)
  from suc.prems suc.hyps(1,2) obtain j where "k = Suc j" "steps all j b"
    by (cases rule: steps.cases) auto
  with suc.IH show ?case by simp
qed (auto elim: steps.cases)

lemma chain_walk_complete:
  "steps all n cur \<Longrightarrow>
   (\<forall>g \<in> set seen. \<exists>d k. List.find (\<lambda>m. mf_snapshot_guid m = g) all = Some d \<and> steps all k d \<and> n \<le> k) \<Longrightarrow>
   \<exists>ms. chain_walk all snap cur seen chain = Inr ms"
proof (induction arbitrary: seen chain rule: steps.induct)
  case (zero m)
  then show ?case by (simp add: chain_walk.simps)
next
  case (suc m f b n)
  have "f \<notin> set seen"
  proof
    assume "f \<in> set seen"
    with suc.prems suc.hyps(2) obtain k where "steps all k b" "Suc n \<le> k" by auto
    with steps_unique [OF suc.hyps(3)] show False by auto
  qed
  moreover have "\<exists>ms. chain_walk all snap b (f # seen) (chain @ [b]) = Inr ms"
    using suc.prems suc.hyps(2,3) by (intro suc.IH) (force dest: Suc_leD)
  ultimately show ?case using suc.hyps(1,2) by (subst chain_walk.simps) simp
qed

lemma chain_walk_sound:
  "chain_walk all snap cur seen chain = Inr ms \<Longrightarrow> restorable all cur"
proof (induction all snap cur seen chain rule: chain_walk.induct)
  case (1 all snap cur seen chain)
  show ?case
  proof (cases "mf_from_guid cur")
    case None
    then show ?thesis by (rule restorable.full)
  next
    case (Some f)
    with "1.prems"(1) obtain base where
      b: "List.find (\<lambda>m. mf_snapshot_guid m = f) all = Some base" "f \<notin> set seen" and
      rec: "chain_walk all snap base (f # seen) (chain @ [base]) = Inr ms"
      by (auto simp: chain_walk.simps [of _ _ cur] split: option.splits if_splits)
    from "1.IH" [OF Some b rec] Some b(1) show ?thesis by (rule restorable.incr [rotated 2])
  qed
qed

lemma chain_of_complete:
  assumes "pick all snap = Inr m" "List.find (\<lambda>x. mf_snapshot_guid x = mf_snapshot_guid m) all = Some tip"
  shows "(\<exists>ms. chain_of all snap = Inr ms) \<longleftrightarrow> restorable all tip"
proof
  assume "\<exists>ms. chain_of all snap = Inr ms"
  then obtain ms where "chain_walk all snap tip [mf_snapshot_guid tip] [tip] = Inr ms"
    using assms by (auto simp: chain_of_def result_simps)
  then show "restorable all tip" by (rule chain_walk_sound)
next
  assume "restorable all tip"
  then obtain n where n: "steps all n tip" using restorable_steps by blast
  have "\<exists>ms. chain_walk all snap tip [mf_snapshot_guid tip] [tip] = Inr ms"
    using assms(2) find_guid [OF assms(2)] n by (intro chain_walk_complete [OF n]) auto
  then show "\<exists>ms. chain_of all snap = Inr ms" using assms by (auto simp: chain_of_def)
qed

section \<open>The window\<close>

definition window_ok :: "nat \<Rightarrow> nat \<Rightarrow> 'a window \<Rightarrow> bool" where
  "window_ok lo hi w \<longleftrightarrow> lo \<le> wn_target w \<and> wn_target w \<le> hi \<and> length (wn_inflight w) \<le> wn_target w \<and>
     (wn_inflight w = [] \<longrightarrow> wn_waiting w = [])"

lemma spawn_up_to_order: "wn_inflight (spawn_up_to w) @ wn_waiting (spawn_up_to w) = wn_inflight w @ wn_waiting w"
  by (simp add: spawn_up_to_def Let_def)

lemma spawn_up_to_ok:
  assumes "0 < lo" "lo \<le> wn_target w" "wn_target w \<le> hi" "length (wn_inflight w) \<le> wn_target w"
  shows "window_ok lo hi (spawn_up_to w)"
  using assms by (auto simp: window_ok_def spawn_up_to_def Let_def)

lemma next_window_order:
  "wn_inflight w \<noteq> [] \<Longrightarrow>
   wn_inflight w @ wn_waiting w = hd (wn_inflight w) #
     (wn_inflight (next_window lo hi b w) @ wn_waiting (next_window lo hi b w))"
  unfolding next_window_def spawn_up_to_order by (cases "wn_inflight w") auto

lemma next_window_ok:
  "0 < lo \<Longrightarrow> lo \<le> hi \<Longrightarrow> window_ok lo hi w \<Longrightarrow> window_ok lo hi (next_window lo hi b w)"
  unfolding next_window_def by (intro spawn_up_to_ok) (auto simp: window_ok_def adapt_def)

lemma prefetch_ceiling_pos: "0 < prefetch_ceiling window cb"
  by (simp add: prefetch_ceiling_def Let_def MIN_INFLIGHT_def)

lemma prefetch_ceiling_le: "prefetch_ceiling window cb \<le> max window 1"
  by (auto simp: prefetch_ceiling_def Let_def)

lemma unat_budget: "unat PREFETCH_BUDGET = 2 ^ 29"
  by (simp add: PREFETCH_BUDGET_def)

lemma prefetch_ceiling_budget:
  assumes "0 < cb" "unat cb \<le> 2 ^ 28"
  shows "prefetch_ceiling window cb * unat cb \<le> unat PREFETCH_BUDGET"
proof -
  have cb: "0 < unat cb" using assms(1) by (simp add: word_less_nat_alt)
  let ?q = "unat PREFETCH_BUDGET div unat cb"
  have "2 * unat cb \<le> unat PREFETCH_BUDGET" using assms(2) by (simp add: unat_budget)
  then have q2: "2 \<le> ?q" using cb by (simp add: less_eq_div_iff_mult_less_eq)
  have "prefetch_ceiling window cb \<le> ?q"
    using q2 cb assms(1) by (auto simp: prefetch_ceiling_def Let_def unat_div MIN_INFLIGHT_def)
  then have "prefetch_ceiling window cb * unat cb \<le> ?q * unat cb" by (rule mult_le_mono1)
  also have "\<dots> \<le> unat PREFETCH_BUDGET" by simp
  finally show ?thesis .
qed

text \<open>Above 256 MiB per chunk the floor of two fetches exceeds the budget.\<close>

lemma prefetch_ceiling_over:
  assumes "2 \<le> window" "2 ^ 28 < unat cb"
  shows "prefetch_ceiling window cb = 2" "unat PREFETCH_BUDGET < prefetch_ceiling window cb * unat cb"
proof -
  have "unat PREFETCH_BUDGET < 2 * unat cb" using assms(2) by (simp add: unat_budget)
  then have "unat PREFETCH_BUDGET div unat cb \<le> 1"
    using assms(2) by (metis div_less_iff_less_mult less_2_cases_iff less_one nat_less_le not_le
        One_nat_def gr_zeroI less_Suc_eq_le numeral_2_eq_2 not_less_zero)
  moreover have "cb \<noteq> 0" using assms(2) by auto
  ultimately show c: "prefetch_ceiling window cb = 2"
    using assms(1) by (auto simp: prefetch_ceiling_def Let_def unat_div MIN_INFLIGHT_def)
  show "unat PREFETCH_BUDGET < prefetch_ceiling window cb * unat cb"
    unfolding c using assms(2) by (simp add: unat_budget)
qed

section \<open>What reaches \<open>zfs receive\<close>\<close>

text \<open>
  \<open>written\<close> is what the child has been fed so far, \<open>applied\<close> the streams that \<open>zfs\<close> has
  accepted: a child that exits with 0 has applied what it was fed.
\<close>

locale receiver = s3_store be view st
  for be :: "'x backend" and view :: "'x \<Rightarrow> string \<Rightarrow> bytes option" and st :: "'x store" +
  fixes h :: "'x host" and written :: "'x \<Rightarrow> bytes" and applied :: "'x \<Rightarrow> bytes list"
  assumes spawn_view: "ho_spawn h args x = (ru, x') \<Longrightarrow> view x' = view x"
    and spawn_ok: "ho_spawn h args x = (Inr u, x') \<Longrightarrow> written x' = [] \<and> applied x' = applied x"
    and write_view: "ho_write h d x = (ru, x') \<Longrightarrow> view x' = view x"
    and write_ok: "ho_write h d x = (Inr u, x') \<Longrightarrow> written x' = written x @ d \<and> applied x' = applied x"
    and flush_ok: "ho_flush h x = (Inr u, x') \<Longrightarrow> written x' = written x \<and> applied x' = applied x"
    and flush_view: "ho_flush h x = (ru, x') \<Longrightarrow> view x' = view x"
    and zfs_view: "ho_zfs h args x = (out, x') \<Longrightarrow> view x' = view x"
    and wait_view: "ho_wait h x = (rw, x') \<Longrightarrow> view x' = view x"
    and wait_ok: "ho_wait h x = ((Inr (Some 0), err), x') \<Longrightarrow> applied x' = applied x @ [written x]"
    and sleep_frame: "view (ho_sleep h n x) = view x \<and> written (ho_sleep h n x) = written x \<and>
      applied (ho_sleep h n x) = applied x"
    and get_frame: "be_get be k x = (rb, x') \<Longrightarrow> written x' = written x \<and> applied x' = applied x"
    and dirs_frame: "be_list_dirs be k x = (rd, x') \<Longrightarrow> written x' = written x \<and> applied x' = applied x"
begin

abbreviation fed :: "'x sys \<Rightarrow> bytes" where "fed s \<equiv> written (ext s)"
abbreviation restored :: "'x sys \<Rightarrow> bytes list" where "restored s \<equiv> applied (ext s)"

definition same_world :: "'x sys \<Rightarrow> 'x sys \<Rightarrow> bool" where
  "same_world s s' \<longleftrightarrow> contents s' = contents s \<and> fed s' = fed s \<and> restored s' = restored s"

lemma same_world_get:
  assumes "clean_path k" "store_get st k s = (r, s')"
  shows "same_world s s'"
proof -
  from assms obtain r0 x where "be_get be k (ext s) = (r0, x)" "s' = s\<lparr>ext := x\<rparr>"
    by (auto simp: store_get_def store_path_def inner path_clean outside_split)
  with get_frame [OF this(1)] be_get_any [OF this(1)] show ?thesis by (simp add: same_world_def)
qed

lemma fetch_chunk_ok:
  assumes t: "tg_store t = st" and root: "clean_path (key_root (tg_prefix t))"
    and f: "fetch_chunk h t m c s = (r, s')"
  shows "same_world s s'" "r = Inr d \<Longrightarrow> chunk_good (ho_blake3 h) (tg_prefix t) (contents s) m c d"
proof -
  let ?key = "chunk_key (tg_prefix t) (mf_dataset_guid m) (mf_snapshot_guid m) (ck_seq c)"
  let ?op = "err_io EStore (store_get st ?key) :: ('x sys, error, bytes) io"
  have k: "clean_path ?key" using clean_keys(3) [OF root] .
  have op: "keeps (same_world s) ?op"
  proof (rule keeps_err, unfold keeps_def, intro allI impI)
    fix w assume "same_world s w"
    moreover have "same_world w (snd (store_get st ?key w))"
      using same_world_get [OF k] by (metis prod.collapse)
    ultimately show "same_world s (snd (store_get st ?key w))" by (simp add: same_world_def)
  qed
  have sl: "same_world s w \<Longrightarrow> same_world s (sleep_sys h n w)" for n w
    using sleep_frame by (simp add: same_world_def sleep_sys_def)
  obtain r0 s1 where g: "retry (sleep_sys h) ''fetch chunk'' ?op s = (r0, s1)" by fastforce
  have w1: "same_world s s1"
    using keepsD [OF retry_keeps [OF op sl] _ g] by (simp add: same_world_def)
  have "s' = s1"
    using f g by (cases r0) (auto simp: fetch_chunk_def Let_def bind_io_def t ret_def throw_def split: if_splits)
  with w1 show "same_world s s'" by simp
  show "r = Inr d \<Longrightarrow> chunk_good (ho_blake3 h) (tg_prefix t) (contents s) m c d"
  proof -
    assume r: "r = Inr d"
    have d: "r0 = Inr d" "of_nat (length d) = ck_bytes c" "ho_blake3 h d = ck_blake3 c"
      using f g r
      by (cases r0; auto simp: fetch_chunk_def Let_def bind_io_def t ret_def throw_def split: if_splits)+
    then obtain u where "?op u = (Inr d, s1)" using g retry_Inr by fastforce
    then have "store_get st ?key u = (Inr d, s1)" by (simp add: err_io_Inr)
    then have "contents u ?key = Some d" "contents s1 = contents u"
      using bk.get_ok [OF k] bk.get_any [OF k] by auto
    then show ?thesis using d w1 by (simp add: chunk_good_def same_world_def)
  qed
qed

lemma write_chunk_ok:
  assumes "write_chunk h d s = (Inr u, s')"
  shows "fed s' = fed s @ d" "restored s' = restored s" "contents s' = contents s"
proof -
  have "\<exists>x. ho_write h d (ext s) = (Inr (), x) \<and> ext s' = x"
    using assms
    by (auto simp: write_chunk_def try_io_def on_ext_def ret_def throw_def split: prod.splits sum.splits)
  then obtain x where x: "ho_write h d (ext s) = (Inr (), x)" "ext s' = x" by blast
  show "fed s' = fed s @ d" "restored s' = restored s" "contents s' = contents s"
    using write_ok [OF x(1)] write_view [OF x(1)] x(2) by simp_all
qed

lemma apply_loop_ok:
  assumes t: "tg_store t = st" and root: "clean_path (key_root (tg_prefix t))" and lo: "0 < lo" "lo \<le> hi"
  shows "window_ok lo hi w \<Longrightarrow> apply_loop h t m lo hi ready w tot s = (Inr tot', s') \<Longrightarrow>
    \<exists>ds. list_all2 (chunk_good (ho_blake3 h) (tg_prefix t) (contents s) m) (wn_inflight w @ wn_waiting w) ds \<and>
      fed s' = fed s @ concat ds \<and> restored s' = restored s \<and> contents s' = contents s \<and>
      tot' = tot + of_nat (length (concat ds))"
proof (induction "length (wn_inflight w) + length (wn_waiting w)" arbitrary: ready w tot s rule: less_induct)
  case less
  show ?case
  proof (cases "wn_inflight w")
    case Nil
    with less.prems have "wn_waiting w = []" by (simp add: window_ok_def)
    with less.prems Nil show ?thesis
      by (intro exI [of _ "[]"]) (simp add: apply_loop.simps)
  next
    case (Cons c cs)
    let ?w = "next_window lo hi (ready \<noteq> [] \<and> hd ready) w"
    from less.prems(2) Cons obtain d s1 s2 where
      1: "fetch_chunk h t m c s = (Inr d, s1)" "write_chunk h d s1 = (Inr (), s2)" and
      2: "apply_loop h t m lo hi (tl ready) ?w (tot + of_nat (length d)) s2 = (Inr tot', s')"
      by (auto simp: apply_loop.simps [of _ _ _ _ _ ready] split: prod.splits sum.splits)
    have ord: "wn_inflight w @ wn_waiting w = c # (wn_inflight ?w @ wn_waiting ?w)"
      using next_window_order [of w lo hi] Cons by simp
    then have "length (wn_inflight ?w @ wn_waiting ?w) < length (wn_inflight w @ wn_waiting w)" by simp
    moreover have "window_ok lo hi ?w" using next_window_ok lo less.prems(1) by blast
    ultimately obtain ds where ds:
      "list_all2 (chunk_good (ho_blake3 h) (tg_prefix t) (contents s2) m) (wn_inflight ?w @ wn_waiting ?w) ds"
      "fed s' = fed s2 @ concat ds" "restored s' = restored s2" "contents s' = contents s2"
      "tot' = tot + of_nat (length d) + of_nat (length (concat ds))"
      using less.hyps [OF _ _ 2] by auto
    have w1: "same_world s s1" and g: "chunk_good (ho_blake3 h) (tg_prefix t) (contents s) m c d"
      using fetch_chunk_ok [OF t root 1(1)] by simp_all
    note w2 = write_chunk_ok [OF 1(2)]
    show ?thesis
      unfolding ord
      using ds g w1 w2 by (intro exI [of _ "d # ds"]) (simp add: same_world_def add.assoc)
  qed
qed

lemma finish_child_ok:
  assumes "finish_child h what s = (Inr u, s')"
  shows "restored s' = restored s @ [fed s]" "contents s' = contents s"
proof -
  from assms obtain err x where x: "ho_wait h (ext s) = ((Inr (Some 0), err), x)" "ext s' = x"
    by (auto simp: finish_child_def map_err_def wait_child_def split: prod.splits sum.splits if_splits)
  show "restored s' = restored s @ [fed s]" "contents s' = contents s"
    using wait_ok [OF x(1)] wait_view [OF x(1)] x(2) by simp_all
qed

lemma spawn_child_ok:
  assumes "spawn_child h args s = (Inr u, s')"
  shows "restored s' = restored s" "fed s' = []" "contents s' = contents s"
proof -
  from assms obtain x where x: "ho_spawn h args (ext s) = (Inr (), x)" "ext s' = x"
    by (auto simp: spawn_child_def err_io_Inr on_ext_def split: prod.splits)
  show "restored s' = restored s" "fed s' = []" "contents s' = contents s"
    using spawn_ok [OF x(1)] spawn_view [OF x(1)] x(2) by simp_all
qed

lemma apply_stream_ok:
  assumes t: "tg_store t = st" and root: "clean_path (key_root (tg_prefix t))"
    and a: "apply_stream h t to force window ready m tot s = (Inr tot', s')"
  shows "\<exists>v. holds_stream (ho_blake3 h) (tg_prefix t) (contents s) m v \<and> restored s' = restored s @ [v] \<and>
    contents s' = contents s \<and> tot' = tot + of_nat (length v)"
proof -
  define hi lo where "hi = prefetch_ceiling window (first_bytes m)" and "lo = min MIN_INFLIGHT hi"
  define w where "w = spawn_up_to \<lparr>wn_target = lo, wn_waiting = mf_chunks m, wn_inflight = []\<rparr>"
  have lo: "0 < lo" "lo \<le> hi"
    using prefetch_ceiling_pos [of window "first_bytes m"] by (simp_all add: lo_def hi_def MIN_INFLIGHT_def)
  have w: "window_ok lo hi w" unfolding w_def using lo by (intro spawn_up_to_ok) auto
  have ord: "wn_inflight w @ wn_waiting w = mf_chunks m" unfolding w_def spawn_up_to_order by simp
  from a obtain s1 s2 s3 where 1: "spawn_child h (receive_args to force) s = (Inr (), s1)" and
    2: "apply_loop h t m lo hi ready w tot s1 = (Inr tot', s2)" and
    3: "on_ext (ho_flush h) s2 = (Inr (), s3)" and 4: "finish_child h ''receive'' s3 = (Inr (), s')"
    by (auto simp: apply_stream_def Let_def bind_io_Inr err_io_Inr hi_def lo_def w_def)
  have 3: "fed s3 = fed s2" "restored s3 = restored s2" "contents s3 = contents s2"
    using 3 flush_ok [of "ext s2"] flush_view [of "ext s2"] by (auto simp: on_ext_def split: prod.splits)
  from apply_loop_ok [OF t root lo w 2] obtain ds where
    "list_all2 (chunk_good (ho_blake3 h) (tg_prefix t) (contents s1) m) (mf_chunks m) ds"
    "fed s2 = fed s1 @ concat ds" "restored s2 = restored s1" "contents s2 = contents s1"
    "tot' = tot + of_nat (length (concat ds))" unfolding ord by blast
  with spawn_child_ok [OF 1] finish_child_ok [OF 4] 3 show ?thesis
    by (intro exI [of _ "concat ds"]) (auto simp: holds_stream_def)
qed

lemma apply_chain_ok:
  assumes t: "tg_store t = st" and root: "clean_path (key_root (tg_prefix t))"
  shows "apply_chain h t to force window ready ms tot s = (Inr tot', s') \<Longrightarrow>
    \<exists>vs. list_all2 (holds_stream (ho_blake3 h) (tg_prefix t) (contents s)) ms vs \<and> restored s' = restored s @ vs"
proof (induction ms arbitrary: tot s)
  case Nil
  then show ?case by simp
next
  case (Cons m ms)
  from Cons.prems obtain tot1 s1 where 1: "apply_stream h t to force window (ready m) m tot s = (Inr tot1, s1)"
    and 2: "apply_chain h t to force window ready ms tot1 s1 = (Inr tot', s')"
    by (auto simp: try_io_def throw_def split: prod.splits sum.splits)
  from apply_stream_ok [OF t root 1] obtain v where v: "holds_stream (ho_blake3 h) (tg_prefix t) (contents s) m v"
    "restored s1 = restored s @ [v]" "contents s1 = contents s" by blast
  from Cons.IH [OF 2] v obtain vs where "list_all2 (holds_stream (ho_blake3 h) (tg_prefix t) (contents s)) ms vs"
    "restored s' = restored s1 @ vs" by auto
  with v show ?case by (intro exI [of _ "v # vs"]) simp
qed

lemma keeps_outside:
  assumes "\<And>x r x'. m x = (r, x') \<Longrightarrow> P x \<Longrightarrow> P x'"
  shows "keeps (\<lambda>s. P (ext s)) (outside k m)"
  unfolding keeps_def outside_def using assms by (auto split: prod.split)

lemma manifests_restored:
  assumes t: "tg_store t = st" and ms: "manifests dec arrival t s = (r, s')"
  shows "restored s' = restored s"
proof -
  let ?I = "\<lambda>s'. applied (ext s') = restored s"
  have dirs: "keeps ?I (store_list_dirs st p)" for p
    unfolding store_list_dirs_def inner by (rule keeps_outside) (metis dirs_frame)
  have get: "keeps ?I (store_get st k)" for k
    unfolding store_get_def inner by (rule keeps_outside) (metis get_frame)
  have "keeps ?I (manifest_keys t)"
    unfolding manifest_keys_def t by (intro keeps_err keeps_bind keeps_map_io keeps_ret dirs)
  moreover have "keeps ?I (fetch_manifest dec t k)" for k
    unfolding fetch_manifest_def t
    by (rule keeps_try [OF get])
      (auto split: sum.split store_error.split intro!: keeps_bind)
  ultimately have "keeps ?I (manifests dec arrival t)"
    unfolding manifests_def by (intro keeps_bind keeps_map_io keeps_ret)
  from keepsD [OF this refl ms] show ?thesis .
qed

text \<open>A restore leaves the bucket alone, however it ends.\<close>

lemma keeps_on_ext:
  "(\<And>x r x'. m x = (r, x') \<Longrightarrow> view x' = view x) \<Longrightarrow> keeps (\<lambda>s. contents s = b) (on_ext m)"
  unfolding keeps_def on_ext_def by (auto split: prod.split)

lemma keeps_finish: "keeps (\<lambda>s. contents s = b) (finish_child h what)"
  unfolding keeps_def finish_child_def using wait_view by (auto split: prod.split)

lemma keeps_write_chunk: "keeps (\<lambda>s. contents s = b) (write_chunk h d)"
  unfolding write_chunk_def
  by (auto intro!: keeps_try keeps_on_ext keeps_finish write_view split: sum.split)

lemma keeps_apply_loop:
  assumes t: "tg_store t = st" and root: "clean_path (key_root (tg_prefix t))"
  shows "contents s = b \<Longrightarrow> contents (snd (apply_loop h t m lo hi ready w tot s)) = b"
proof (induction "length (wn_inflight w) + length (wn_waiting w)" arbitrary: ready w tot s rule: less_induct)
  case less
  show ?case
  proof (cases "wn_inflight w")
    case Nil
    with less.prems show ?thesis by (simp add: apply_loop.simps)
  next
    case (Cons c cs)
    let ?w = "next_window lo hi (ready \<noteq> [] \<and> hd ready) w"
    obtain r1 s1 where 1: "fetch_chunk h t m c s = (r1, s1)" by fastforce
    have b1: "contents s1 = b" using fetch_chunk_ok(1) [OF t root 1] less.prems by (simp add: same_world_def)
    show ?thesis
    proof (cases r1)
      case (Inl e)
      with Cons 1 b1 show ?thesis by (simp add: apply_loop.simps)
    next
      case (Inr d)
      obtain r2 s2 where 2: "write_chunk h d s1 = (r2, s2)" by fastforce
      have b2: "contents s2 = b" using keepsD [OF keeps_write_chunk b1 2] .
      have "wn_inflight w @ wn_waiting w = c # (wn_inflight ?w @ wn_waiting ?w)"
        using next_window_order [of w lo hi] Cons by simp
      then have "length (wn_inflight ?w @ wn_waiting ?w) < length (wn_inflight w @ wn_waiting w)" by simp
      then have rec: "contents (snd (apply_loop h t m lo hi (tl ready) ?w tot' s2)) = b" for tot'
        by (intro less.hyps [OF _ b2]) simp
      show ?thesis
      proof (cases r2)
        case (Inl e)
        with Cons 1 Inr 2 b2 show ?thesis by (simp add: apply_loop.simps)
      next
        case ok: (Inr u)
        with Cons 1 Inr 2 rec show ?thesis by (subst apply_loop.simps) simp
      qed
    qed
  qed
qed

lemma keeps_apply_stream:
  assumes "tg_store t = st" "clean_path (key_root (tg_prefix t))"
  shows "keeps (\<lambda>s. contents s = b) (apply_stream h t to force window ready m tot)"
  unfolding apply_stream_def Let_def spawn_child_def
  by (intro keeps_bind keeps_err keeps_on_ext keeps_finish keeps_ret spawn_view flush_view)
    (auto simp: keeps_def keeps_apply_loop [OF assms])

lemma keeps_apply_chain:
  assumes "tg_store t = st" "clean_path (key_root (tg_prefix t))"
  shows "keeps (\<lambda>s. contents s = b) (apply_chain h t to force window ready ms tot)"
proof (induction ms arbitrary: tot)
  case (Cons m ms)
  have z: "view (snd (zfs_run (ho_zfs h) args x)) = view x" for args x
  proof -
    have "snd (zfs_run (ho_zfs h) args x) = snd (ho_zfs h args x)"
      by (simp add: zfs_run_def Let_def split: prod.split outcome.split)
    then show ?thesis using zfs_view [of args x "fst (ho_zfs h args x)" "snd (ho_zfs h args x)"] by simp
  qed
  have "view x' = view x" if "receive_abort (ho_zfs h) to x = (r, x')" for x r x'
  proof -
    have "x' = snd (zfs_run (ho_zfs h) [''receive'', ''-A'', to] x)"
      using that by (auto simp: receive_abort_def try_io_def split: prod.splits sum.splits zfs_error.splits if_splits)
    with z show ?thesis by simp
  qed
  with Cons.IH keeps_apply_stream [OF assms] show ?case
    by (auto intro!: keeps_try keeps_err keeps_on_ext split: sum.split)
qed simp

lemma receive_run_view:
  assumes t: "tg_store t = st" and tidy: "tidy (tg_prefix t) (contents s)"
    and arr: "\<And>xs. set (arrival xs) = set xs"
    and run: "receive_run dec arrival ready h t snap to force window s = (r, s')"
  shows "contents s' = contents s"
proof -
  have root: "clean_path (key_root (tg_prefix t))" using tidy by (simp add: tidy_def)
  have "keeps (\<lambda>v. contents v = contents s) (manifests dec arrival t)"
    unfolding keeps_def using manifests_frame [OF t _ arr] tidy by (metis prod.collapse)
  then have "keeps (\<lambda>v. contents v = contents s) (receive_run dec arrival ready h t snap to force window)"
    unfolding receive_run_def by (intro keeps_bind keeps_lift_result keeps_apply_chain [OF t root])
  from keepsD [OF this refl run] show ?thesis .
qed

text \<open>
  A restore that reports success has applied the streams of the whole chain of the snapshot,
  each as the bucket holds it, full stream first.
\<close>

lemma receive_run_ok:
  assumes t: "tg_store t = st" and tidy: "tidy (tg_prefix t) (contents s)"
    and arr: "\<And>xs. set (arrival xs) = set xs"
    and run: "receive_run dec arrival ready h t snap to force window s = (Inr tot, s')"
  shows "\<exists>all ms vs. (\<forall>m. m \<in> set all \<longleftrightarrow>
        (\<exists>k v. manifest_at (tg_prefix t) (contents s) k v \<and> dec v = Inr m)) \<and>
      chain_of all snap = Inr ms \<and> is_chain ms \<and>
      list_all2 (holds_stream (ho_blake3 h) (tg_prefix t) (contents s)) ms vs \<and> restored s' = restored s @ vs"
proof -
  from run obtain all s1 ms where 1: "manifests dec arrival t s = (Inr all, s1)" and
    2: "chain_of all snap = Inr ms" and 3: "apply_chain h t to force window ready ms 0 s1 = (Inr tot, s')"
  proof -
    from run obtain all s1 where 1: "manifests dec arrival t s = (Inr all, s1)" and
      2: "bind_io (lift_result (chain_of all snap)) (\<lambda>ms. apply_chain h t to force window ready ms 0) s1
        = (Inr tot, s')" unfolding receive_run_def by (auto simp only: bind_io_Inr)
    from 2 obtain ms where "chain_of all snap = Inr ms" "apply_chain h t to force window ready ms 0 s1 = (Inr tot, s')"
      by (cases "chain_of all snap") (simp_all add: bind_io_def lift_result_def)
    with 1 that show thesis by blast
  qed
  have root: "clean_path (key_root (tg_prefix t))" using tidy by (simp add: tidy_def)
  note M = manifests_exact [OF t tidy arr 1]
  from apply_chain_ok [OF t root 3] obtain vs where
    "list_all2 (holds_stream (ho_blake3 h) (tg_prefix t) (contents s1)) ms vs" "restored s' = restored s1 @ vs" by blast
  with M(1) M(3) manifests_restored [OF t 1] 2 chain_of_Inr(1) [OF 2] show ?thesis by auto
qed

end

interpretation mem_receiver: receiver mem_backend mem_view mem_store "mem_host answers" me_fed me_applied
  for answers
  by unfold_locales
    (auto simp: mem_host_def mem_zfs_def mem_backend_def mem_view_def dest: mem_frame)

end
