(* ===== verification/Restore_Properties.thy ===== *)
theory Restore_Properties
  imports Inspect Receive
begin

text \<open>
  What reading a bucket guarantees: the store (\<open>src/store/mod.rs\<close>), the listing of manifests and
  the retries (\<open>src/cmd/mod.rs\<close>), \<open>receive\<close>, \<open>verify\<close> and \<open>pin\<close>. The service and the machine
  are those of the interfaces; every witness runs the command on the bucket in memory.
\<close>

section \<open>The store\<close>



text \<open>C32: An upload that \<open>put_verified\<close> reports as done was either accepted by the endpoint together
  with its checksum, or put plainly with checksums switched off; they are switched off only, and for good, by
  an endpoint that did not echo the checksum, and a call that finds them off never sends one.\<close>

theorem put_verified_fallback:
  assumes "store_put_verified st key data crc s = (r, s')" "st_admin st = Some a"
  shows "(crc32c_on s' \<longrightarrow> crc32c_on s) \<and>
    (crc32c_on s \<and> \<not> crc32c_on s' \<longrightarrow>
       (\<exists>op status msg. fst (ad_put_object_crc32c a key data crc (ext s))
          = Inl (AdS3 op status ''ChecksumNotEchoed'' msg))) \<and>
    (r = Inr () \<and> crc32c_on s' \<longrightarrow> ad_put_object_crc32c a key data crc (ext s) = (Inr (), ext s')) \<and>
    (\<not> crc32c_on s' \<longrightarrow> (\<exists>s1. \<not> crc32c_on s1 \<and> store_put st key data s1 = (r, s'))) \<and>
    (\<not> crc32c_on s \<longrightarrow> store_put st key data s = (r, s'))"
proof -
  have flag: "crc32c_on v' = crc32c_on v" if "store_put st key data v = (r', v')" for v v' r'
    using that by (auto simp: store_put_def outside_def split: prod.splits)
  show ?thesis
  proof (cases "crc32c_on s")
    case False
    then show ?thesis using assms flag by (auto simp: store_put_verified_def)
  next
    case True
    obtain r0 x where x: "ad_put_object_crc32c a key data crc (ext s) = (r0, x)" by fastforce
    show ?thesis
    proof (cases "\<exists>op status msg. r0 = Inl (AdS3 op status ''ChecksumNotEchoed'' msg)")
      case True
      then have put: "store_put st key data (s\<lparr>ext := x, crc32c_on := False\<rparr>) = (r, s')"
        using assms x \<open>crc32c_on s\<close> by (auto simp: store_put_verified_def)
      from flag [OF this] have "\<not> crc32c_on s'" by simp
      moreover have "\<exists>s1. \<not> crc32c_on s1 \<and> store_put st key data s1 = (r, s')"
        using put by (intro exI [of _ "s\<lparr>ext := x, crc32c_on := False\<rparr>"]) simp
      ultimately show ?thesis using True x \<open>crc32c_on s\<close> by auto
    next
      case False
      then have "s' = s\<lparr>ext := x\<rparr> \<and> (r = Inr () \<longrightarrow> r0 = Inr ())"
        using assms x \<open>crc32c_on s\<close>
        by (auto simp: store_put_verified_def split: sum.splits admin_error.splits if_splits)
      with x \<open>crc32c_on s\<close> show ?thesis by auto
    qed
  qed
qed

definition deaf_admin :: "mem admin_api" where
  "deaf_admin =
     \<lparr>ad_put_object_crc32c = (\<lambda>_ _ _ x. (Inl (AdS3 ''PutObject'' 200 ''ChecksumNotEchoed'' []), x)),
      ad_list_uploads = (\<lambda>_ x. (Inr [], x)), ad_list_versions = (\<lambda>_ x. (Inr [], x)),
      ad_delete_version = (\<lambda>_ _ x. (Inr (), x)), ad_show = (\<lambda>_. [])\<rparr>"

theorem put_verified_fallback_witness:
  "\<exists>s'. store_put_verified \<lparr>st_inner = mem_backend, st_admin = Some deaf_admin\<rparr> ''k'' [7] 9
      ((mem_sys [] [])\<lparr>crc32c_on := True\<rparr>) = (Inr (), s') \<and>
     \<not> crc32c_on s' \<and> mem_view (ext s') ''k'' = Some [7] \<and>
     (\<exists>s1. \<not> crc32c_on s1 \<and>
        store_put \<lparr>st_inner = mem_backend, st_admin = Some deaf_admin\<rparr> ''k'' [7] s1 = (Inr (), s'))"
proof -
  let ?st = "\<lparr>st_inner = mem_backend, st_admin = Some deaf_admin\<rparr>"
  let ?s = "(mem_sys [] [])\<lparr>crc32c_on := True\<rparr>"
  define s' where "s' = snd (store_put_verified ?st ''k'' [7] 9 ?s)"
  have run: "store_put_verified ?st ''k'' [7] 9 ?s = (Inr (), s')" and off: "\<not> crc32c_on s'"
    and there: "mem_view (ext s') ''k'' = Some [7]"
    unfolding s'_def by code_simp+
  have "\<exists>s1. \<not> crc32c_on s1 \<and> store_put ?st ''k'' [7] s1 = (Inr (), s')"
    using put_verified_fallback [OF run, of deaf_admin] off by simp
  with run off there show ?thesis by blast
qed

section \<open>Manifests and retries\<close>

text \<open>C19: The listing of manifests is complete and exact: if it succeeds, then, whatever the order in which
  the concurrent downloads finished, the result is sorted, it holds the decoded manifest of every
  \<open>manifest.json\<close> two directories below the root, nothing else, all of the version this build understands, and the
  bucket is unchanged. One unreadable manifest fails the listing instead of being skipped.\<close>

theorem manifests_complete:
  assumes "s3_store be view st" "tg_store t = st" "tidy (tg_prefix t) (view (ext s))"
    and "\<And>xs. mset (arrival xs) = mset xs"
    and "manifests dec arrival t s = (Inr ms, s')"
  shows "view (ext s') = view (ext s) \<and> sorted (map manifest_order ms) \<and>
    set ms = {m. \<exists>k v. manifest_at (tg_prefix t) (view (ext s)) k v \<and> dec v = Inr m} \<and>
    (\<forall>m \<in> set ms. mf_format_version m = FORMAT_VERSION) \<and>
    (\<forall>k v. manifest_at (tg_prefix t) (view (ext s)) k v \<longrightarrow> (\<exists>m \<in> set ms. dec v = Inr m))"
proof -
  have arr: "set (arrival xs) = set xs" for xs using assms(4) mset_eq_setD by blast
  note M = s3_store.manifests_exact [OF assms(1-3) arr assms(5)]
  show ?thesis using M by blast
qed

text \<open>The sample bucket with the downloads completing in reverse order.\<close>

lemma mem_listing:
  "fst (manifests sample_dec rev mem_target (mem_sys sample_objects [])) = Inr [sample_full, sample_incr]"
  by code_simp

theorem manifests_complete_witness:
  "\<exists>s'. manifests sample_dec rev mem_target (mem_sys sample_objects []) = (Inr [sample_full, sample_incr], s') \<and>
     mem_view (ext s') = map_of sample_objects \<and>
     {sample_full, sample_incr}
       = {m. \<exists>k v. manifest_at ''t'' (map_of sample_objects) k v \<and> sample_dec v = Inr m}"
proof -
  let ?r = "manifests sample_dec rev mem_target (mem_sys sample_objects [])"
  have run: "?r = (Inr [sample_full, sample_incr], snd ?r)" using mem_listing by (metis prod.collapse)
  have tidy: "tidy (tg_prefix mem_target) (mem_view (ext (mem_sys sample_objects [])))"
    using mem_tidy_sample by simp
  from manifests_complete [OF mem_bucket.s3_store_axioms mem_target_simps(1) tidy mset_rev run] run
  show ?thesis by (auto simp: mem_sys_view)
qed

text \<open>A name picks a backup only if it is unambiguous: the pick succeeds exactly when one manifest of
  the bucket bears the name, and fails with the list of candidates when several datasets do.\<close>

theorem pick_unambiguous:
  "(pick all snap = Inr m) = (filter (\<lambda>x. mf_snapshot x = snap) all = [m]) \<and>
   (pick all snap = Inl (NotArchived snap)) = (snap \<notin> mf_snapshot ` set all) \<and>
   (\<exists>gs. pick all snap = Inl (Ambiguous snap gs)) = (2 \<le> length (filter (\<lambda>x. mf_snapshot x = snap) all))"
proof (intro conjI)
  show "(pick all snap = Inr m) = (filter (\<lambda>x. mf_snapshot x = snap) all = [m])" by (rule pick_Inr)
  let ?hits = "filter (\<lambda>x. mf_snapshot x = snap) all"
  have "?hits = [] \<longleftrightarrow> snap \<notin> mf_snapshot ` set all" by (auto simp: filter_empty_conv)
  then show "(pick all snap = Inl (NotArchived snap)) = (snap \<notin> mf_snapshot ` set all)"
    by (simp add: pick_def Let_def)
  show "(\<exists>gs. pick all snap = Inl (Ambiguous snap gs)) = (2 \<le> length ?hits)"
    by (cases ?hits; cases "tl ?hits") (auto simp: pick_def Let_def)
qed

text \<open>C33: Retrying ends: whatever the call does, it is made at least once and at most seven times, the
  waits between the attempts add up to at most 28.2 seconds, and a success reported is the
  success of the last attempt, whose state is the one returned. (\<open>calls\<close> and \<open>waited\<close> are any
  counters of the world that count the calls and the milliseconds slept.)\<close>

theorem retry_bounded:
  assumes "retry sleep what op w = (r, w')"
    and "\<And>w. calls (snd (op w)) = Suc (calls w)" "\<And>n w. calls (sleep n w) = calls w"
    and "\<And>w. waited (snd (op w)) = waited w" "\<And>n w. waited (sleep n w) = waited w + n"
  shows "calls w < calls w' \<and> calls w' \<le> calls w + 7 \<and> waited w' \<le> waited w + 28200 \<and>
    (\<forall>v. r = Inr v \<longrightarrow> (\<exists>u. op u = (Inr v, w')))"
proof -
  have b: "backoff_left 0 = 28200" by code_simp
  from retry_from_bounds [of calls op sleep waited 0 what w r w', OF assms(2-5)] assms(1) b
  have "calls w < calls w' \<and> calls w' \<le> calls w + 7 \<and> waited w' \<le> waited w + 28200"
    by (simp add: retry_def)
  moreover have "\<exists>u. op u = (Inr v, w')" if "r = Inr v" for v
    using retry_Inr assms(1) that by fast
  ultimately show ?thesis by blast
qed

definition failing_call :: "(nat \<times> nat, error, unit) io" where
  "failing_call = (\<lambda>(n, t). (Inl (EStore (Backend unavailable)), (Suc n, t)))"

theorem retry_bounded_witness:
  "\<exists>e n t. retry (\<lambda>k (n, t). (n, t + k)) ''get'' failing_call (0, 0) = (Inl e, (n, t)) \<and>
     n = 7 \<and> t = 28200 \<and> n \<le> 7 \<and> t \<le> 28200"
proof -
  have run: "retry (\<lambda>k (n, t). (n, t + k)) ''get'' failing_call (0, 0)
      = (Inl (Context ''get: giving up after 6 retries'' (EStore (Backend unavailable))), (7, 28200))"
    by code_simp
  have "fst (snd (failing_call w)) = Suc (fst w)" "snd (snd (failing_call w)) = snd w" for w
    by (simp_all add: failing_call_def split_beta)
  from retry_bounded [OF run, of fst snd] this run show ?thesis by (simp add: split_beta)
qed

section \<open>Restoring\<close>

text \<open>The chain of a restore is the ancestry of the snapshot picked: it begins with a full stream, every
  later stream is an increment on the one before, no snapshot occurs twice, all its manifests
  are in the bucket, and it ends with the snapshot that the name picks.\<close>

theorem chain_is_ancestry:
  assumes "chain_of all snap = Inr ms"
  shows "is_chain ms \<and> set ms \<subseteq> set all \<and>
    (\<exists>m. pick all snap = Inr m \<and> mf_snapshot_guid (last ms) = mf_snapshot_guid m)"
  using chain_of_Inr [OF assms] by blast

theorem chain_is_ancestry_witness:
  "chain_of [sample_incr, sample_full] ''tank/a@2'' = Inr [sample_full, sample_incr] \<and>
   is_chain [sample_full, sample_incr]"
proof -
  have "chain_of [sample_incr, sample_full] ''tank/a@2'' = Inr [sample_full, sample_incr]" by code_simp
  with chain_is_ancestry [OF this] show ?thesis by simp
qed

text \<open>C26: A chain is found whenever there is one: for a name that picks a snapshot, the walk over the bases
  always ends, it succeeds exactly when every base back to a full stream is in the bucket, and a
  failure names either a base that no manifest has or a snapshot that is its own ancestor.\<close>

theorem chain_complete:
  assumes "pick all snap = Inr m"
  shows "((\<exists>ms. chain_of all snap = Inr ms) =
      (\<exists>tip. List.find (\<lambda>x. mf_snapshot_guid x = mf_snapshot_guid m) all = Some tip \<and> restorable all tip)) \<and>
    (\<forall>e. chain_of all snap = Inl e \<longrightarrow>
      (\<exists>f n. e = BrokenChain f n \<and> f \<notin> mf_snapshot_guid ` set all) \<or>
      (\<exists>n f. e = CircularChain snap n f \<and> f \<in> mf_snapshot_guid ` set all))"
proof -
  have "m \<in> set all" using assms filter_eq_single(1) by (fastforce simp: pick_Inr)
  then have "\<exists>tip. List.find (\<lambda>x. mf_snapshot_guid x = mf_snapshot_guid m) all = Some tip"
    unfolding find_Some_iff_ex by blast
  then obtain tip where tip: "List.find (\<lambda>x. mf_snapshot_guid x = mf_snapshot_guid m) all = Some tip" ..
  have "chain_of all snap = Inl e \<Longrightarrow>
      (\<exists>f n. e = BrokenChain f n \<and> f \<notin> mf_snapshot_guid ` set all) \<or>
      (\<exists>n f. e = CircularChain snap n f \<and> f \<in> mf_snapshot_guid ` set all)" for e
    using assms tip chain_walk_Inl [of all snap tip] by (auto simp: chain_of_def result_simps)
  then show ?thesis using chain_of_complete [OF assms tip] tip by simp
qed

theorem chain_complete_witness:
  "chain_of [sample_incr] ''tank/a@2'' = Inl (BrokenChain (Guid 16) ''tank/a@2'') \<and>
   (\<exists>ms. chain_of [sample_incr, sample_full] ''tank/a@2'' = Inr ms) \<and>
   restorable [sample_incr, sample_full] sample_incr"
proof -
  have p: "pick [sample_incr] ''tank/a@2'' = Inr sample_incr"
    "pick [sample_incr, sample_full] ''tank/a@2'' = Inr sample_incr"
    and c: "chain_of [sample_incr] ''tank/a@2'' = Inl (BrokenChain (Guid 16) ''tank/a@2'')"
    "chain_of [sample_incr, sample_full] ''tank/a@2'' = Inr [sample_full, sample_incr]"
    and f: "List.find (\<lambda>x. mf_snapshot_guid x = mf_snapshot_guid sample_incr) [sample_incr, sample_full]
      = Some sample_incr"
    by code_simp+
  from chain_complete [OF p(2)] c f show ?thesis by auto
qed

text \<open>The window after the chunks awaited so far; \<open>ready\<close> says which had been downloaded in time.\<close>

definition window_after :: "nat \<Rightarrow> nat \<Rightarrow> 'a list \<Rightarrow> bool list \<Rightarrow> 'a window" where
  "window_after lo hi cs ready =
     fold (next_window lo hi) ready (spawn_up_to \<lparr>wn_target = lo, wn_waiting = cs, wn_inflight = []\<rparr>)"

lemma window_after_ok:
  assumes "0 < lo" "lo \<le> hi" "length ready \<le> length cs"
  shows "window_ok lo hi (window_after lo hi cs ready) \<and>
    wn_inflight (window_after lo hi cs ready) @ wn_waiting (window_after lo hi cs ready) = drop (length ready) cs"
  using assms(3)
proof (induction ready rule: rev_induct)
  case Nil
  have "window_ok lo hi (spawn_up_to \<lparr>wn_target = lo, wn_waiting = cs, wn_inflight = []\<rparr>)"
    using assms(1,2) by (intro spawn_up_to_ok) auto
  then show ?case by (simp add: window_after_def spawn_up_to_order)
next
  case (snoc b ready)
  let ?w = "window_after lo hi cs ready"
  have w: "window_after lo hi cs (ready @ [b]) = next_window lo hi b ?w" by (simp add: window_after_def)
  have IH: "window_ok lo hi ?w" "wn_inflight ?w @ wn_waiting ?w = drop (length ready) cs"
    using snoc by simp_all
  have "drop (length ready) cs \<noteq> []" using snoc.prems by simp
  then have ne: "wn_inflight ?w \<noteq> []" using IH by (auto simp: window_ok_def)
  from next_window_order [OF this, of lo hi b] IH(2)
  have "wn_inflight (next_window lo hi b ?w) @ wn_waiting (next_window lo hi b ?w) = drop (Suc (length ready)) cs"
    by (metis drop_Suc list.sel(3) tl_drop)
  with next_window_ok [OF assms(1,2) IH(1)] show ?case by (simp add: w)
qed

text \<open>The number of chunks in flight stays between its floor and its ceiling whatever the downloads
  do: however the chunks become ready, the target lies between \<open>lo\<close> and \<open>hi\<close>, no more than the
  target are in flight, the writer never waits while chunks are left, and the chunks are
  written in the manifest's order, none lost and none twice.\<close>

theorem window_bounded:
  assumes "0 < lo" "lo \<le> hi" "length ready \<le> length cs"
  shows "lo \<le> wn_target (window_after lo hi cs ready) \<and> wn_target (window_after lo hi cs ready) \<le> hi \<and>
    length (wn_inflight (window_after lo hi cs ready)) \<le> wn_target (window_after lo hi cs ready) \<and>
    (wn_inflight (window_after lo hi cs ready) = [] \<longrightarrow> length ready = length cs) \<and>
    wn_inflight (window_after lo hi cs ready) @ wn_waiting (window_after lo hi cs ready) = drop (length ready) cs"
  using window_after_ok [OF assms] assms(3) by (auto simp: window_ok_def)

theorem window_bounded_witness:
  "wn_target (window_after 2 4 [1, 2, 3, 4, 5, 6, 7, 8 :: nat] [False, False, False, True]) = 3 \<and>
   wn_inflight (window_after 2 4 [1, 2, 3, 4, 5, 6, 7, 8 :: nat] [False, False, False, True]) = [5, 6, 7] \<and>
   wn_target (window_after 2 4 [1, 2, 3, 4, 5, 6, 7, 8 :: nat] [False, False, False, True]) \<le> 4"
proof -
  have "wn_target (window_after 2 4 [1, 2, 3, 4, 5, 6, 7, 8 :: nat] [False, False, False, True]) = 3"
    "wn_inflight (window_after 2 4 [1, 2, 3, 4, 5, 6, 7, 8 :: nat] [False, False, False, True]) = [5, 6, 7]"
    by code_simp+
  with window_bounded [of 2 4 "[False, False, False, True]" "[1, 2, 3, 4, 5, 6, 7, 8 :: nat]"]
  show ?thesis by simp
qed

text \<open>C36: The ceiling of the window is positive and never above what the user asked for, and it keeps the
  memory for prefetched chunks within the budget of 512 MiB as long as a chunk is no larger than
  256 MiB; above that, two chunks are still fetched ahead, which exceeds the budget.\<close>

theorem prefetch_budget:
  "0 < prefetch_ceiling window cb \<and> prefetch_ceiling window cb \<le> max window 1 \<and>
   (0 < cb \<and> unat cb \<le> 2 ^ 28 \<longrightarrow> prefetch_ceiling window cb * unat cb \<le> unat PREFETCH_BUDGET) \<and>
   (2 \<le> window \<and> 2 ^ 28 < unat cb \<longrightarrow>
      prefetch_ceiling window cb = 2 \<and> unat PREFETCH_BUDGET < prefetch_ceiling window cb * unat cb)"
  using prefetch_ceiling_pos prefetch_ceiling_le prefetch_ceiling_budget prefetch_ceiling_over by blast

theorem prefetch_budget_witness:
  "prefetch_ceiling 32 (push_bit 20 64) = 8 \<and>
   prefetch_ceiling 32 (push_bit 20 64) * unat (push_bit 20 64 :: u64) \<le> unat PREFETCH_BUDGET \<and>
   unat PREFETCH_BUDGET < prefetch_ceiling 32 (push_bit 20 400) * unat (push_bit 20 400 :: u64)"
proof -
  have "prefetch_ceiling 32 (push_bit 20 64) = 8" by code_simp
  then show ?thesis
    using prefetch_budget [of 32 "push_bit 20 64"] prefetch_budget [of 32 "push_bit 20 400"] by simp
qed

text \<open>C9: A restore that reports success has applied the whole backup: the streams that \<open>zfs receive\<close>
  accepted are those of the chain of the snapshot, full stream first, each byte for byte what the
  chunks of its manifest hold, with every chunk of the recorded length and BLAKE3 hash. A
  corrupt or missing chunk can fail a restore, but never reach it unnoticed.\<close>

theorem restore_applies_backup:
  assumes "receiver be view st h written applied" "tg_store t = st" "tidy (tg_prefix t) (view (ext s))"
    and "\<And>xs. mset (arrival xs) = mset xs"
    and "receive_run dec arrival ready h t snap to force window s = (Inr tot, s')"
  shows "\<exists>all ms vs. set all = {m. \<exists>k v. manifest_at (tg_prefix t) (view (ext s)) k v \<and> dec v = Inr m} \<and>
      chain_of all snap = Inr ms \<and> is_chain ms \<and>
      list_all2 (holds_stream (ho_blake3 h) (tg_prefix t) (view (ext s))) ms vs \<and>
      applied (ext s') = applied (ext s) @ vs"
proof -
  have arr: "set (arrival xs) = set xs" for xs using assms(4) mset_eq_setD by blast
  from receiver.receive_run_ok [OF assms(1-3) arr assms(5)] show ?thesis by blast
qed

lemma mem_restore:
  "fst (receive_run sample_dec rev (\<lambda>_. []) (mem_host []) mem_target ''tank/a@2'' ''pool/b'' False 1
      (mem_sys sample_objects [])) = Inr 6"
  "me_applied (ext (snd (receive_run sample_dec rev (\<lambda>_. []) (mem_host []) mem_target ''tank/a@2'' ''pool/b''
      False 1 (mem_sys sample_objects [])))) = [[1, 2, 3, 4], [5, 6]]"
  by code_simp+

theorem restore_applies_backup_witness:
  "\<exists>s' all ms. receive_run sample_dec rev (\<lambda>_. []) (mem_host []) mem_target ''tank/a@2'' ''pool/b'' False 1
      (mem_sys sample_objects []) = (Inr 6, s') \<and>
     me_applied (ext s') = [[1, 2, 3, 4], [5, 6]] \<and> chain_of all ''tank/a@2'' = Inr ms \<and>
     list_all2 (holds_stream digest ''t'' (map_of sample_objects)) ms [[1, 2, 3, 4], [5, 6]]"
proof -
  define s' where "s' = snd (receive_run sample_dec rev (\<lambda>_. []) (mem_host []) mem_target ''tank/a@2'' ''pool/b''
      False 1 (mem_sys sample_objects []))"
  have run: "receive_run sample_dec rev (\<lambda>_. []) (mem_host []) mem_target ''tank/a@2'' ''pool/b'' False 1
      (mem_sys sample_objects []) = (Inr 6, s')"
    using mem_restore(1) unfolding s'_def by (metis prod.collapse)
  have ap: "me_applied (ext s') = [[1, 2, 3, 4], [5, 6]]" using mem_restore(2) by (simp add: s'_def)
  have tidy: "tidy (tg_prefix mem_target) (mem_view (ext (mem_sys sample_objects [])))"
    using mem_tidy_sample by simp
  from restore_applies_backup [OF mem_receiver.receiver_axioms mem_target_simps(1) tidy mset_rev run]
  obtain all ms vs where "chain_of all ''tank/a@2'' = Inr ms"
    "list_all2 (holds_stream digest ''t'' (map_of sample_objects)) ms vs"
    "me_applied (ext s') = me_applied (ext (mem_sys sample_objects [])) @ vs"
    by (auto simp: mem_sys_view mem_host_def)
  with ap run show ?thesis by (auto simp: mem_sys_def)
qed

section \<open>Verifying and pinning\<close>

text \<open>C18: A verification that reports success means what it says: exactly one backup of the bucket bears
  the name, all its chunks are there with the recorded lengths and hashes, and their
  concatenation has the length and the BLAKE3 hash that the manifest records for the stream.\<close>

theorem verify_means_intact:
  assumes "s3_store be view st" "tg_store t = st" "tidy (tg_prefix t) (view (ext s))"
    and "\<And>xs. mset (arrival xs) = mset xs"
    and "verify_run dec arrival h t snap s = (Inr u, s')"
  shows "\<exists>m. mf_snapshot m = snap \<and> verified (ho_blake3 h) (tg_prefix t) (view (ext s)) m \<and>
    {m'. \<exists>k v. manifest_at (tg_prefix t) (view (ext s)) k v \<and> dec v = Inr m' \<and> mf_snapshot m' = snap} = {m}"
proof -
  have arr: "set (arrival xs) = set xs" for xs using assms(4) mset_eq_setD by blast
  from s3_store.verify_run_ok [OF assms(1-3) arr assms(5)] show ?thesis by blast
qed

theorem verify_means_intact_witness:
  "\<exists>s' m. verify_run sample_dec rev (mem_host []) mem_target ''tank/a@1'' (mem_sys sample_objects []) = (Inr (), s') \<and>
     mf_snapshot m = ''tank/a@1'' \<and> verified digest ''t'' (map_of sample_objects) m"
proof -
  define s' where "s' = snd (verify_run sample_dec rev (mem_host []) mem_target ''tank/a@1'' (mem_sys sample_objects []))"
  have "fst (verify_run sample_dec rev (mem_host []) mem_target ''tank/a@1'' (mem_sys sample_objects [])) = Inr ()"
    by code_simp
  then have run: "verify_run sample_dec rev (mem_host []) mem_target ''tank/a@1'' (mem_sys sample_objects []) = (Inr (), s')"
    unfolding s'_def by (metis prod.collapse)
  have tidy: "tidy (tg_prefix mem_target) (mem_view (ext (mem_sys sample_objects [])))"
    using mem_tidy_sample by simp
  from verify_means_intact [OF mem_bucket.s3_store_axioms mem_target_simps(1) tidy mset_rev run] run
  show ?thesis by (auto simp: mem_sys_view mem_host_def)
qed

text \<open>\<open>pin\<close> and \<open>unpin\<close> touch one object only: on success the pin of the snapshot that the name picks
  is there, holding the name, or is gone, and every other object of the bucket is as it was.\<close>

theorem pin_touches_one_object:
  assumes "s3_store be view st" "tg_store t = st" "tidy (tg_prefix t) (view (ext s))"
    and "\<And>xs. mset (arrival xs) = mset xs"
    and "pin_run dec arrival t snap pin s = (Inr u, s')"
  shows "\<exists>all m s1. manifests dec arrival t s = (Inr all, s1) \<and> pick all snap = Inr m \<and>
    view (ext s') = (view (ext s))(pin_key (tg_prefix t) (mf_snapshot_guid m) :=
      (if pin then Some (map (\<lambda>c. of_nat (of_char c)) (mf_snapshot m)) else None))"
proof -
  have arr: "set (arrival xs) = set xs" for xs using assms(4) mset_eq_setD by blast
  from s3_store.pin_run_ok [OF assms(1-3) arr assms(5)] show ?thesis by blast
qed

theorem pin_touches_one_object_witness:
  "\<exists>s' all m. pin_run sample_dec rev mem_target ''tank/a@2'' True (mem_sys sample_objects []) = (Inr (), s') \<and>
     pick all ''tank/a@2'' = Inr m \<and>
     mem_view (ext s') = (map_of sample_objects)(pin_key ''t'' (mf_snapshot_guid m) :=
       Some (map (\<lambda>c. of_nat (of_char c)) (mf_snapshot m)))"
proof -
  define s' where "s' = snd (pin_run sample_dec rev mem_target ''tank/a@2'' True (mem_sys sample_objects []))"
  have "fst (pin_run sample_dec rev mem_target ''tank/a@2'' True (mem_sys sample_objects [])) = Inr ()"
    by code_simp
  then have run: "pin_run sample_dec rev mem_target ''tank/a@2'' True (mem_sys sample_objects []) = (Inr (), s')"
    unfolding s'_def by (metis prod.collapse)
  have tidy: "tidy (tg_prefix mem_target) (mem_view (ext (mem_sys sample_objects [])))"
    using mem_tidy_sample by simp
  from pin_touches_one_object [OF mem_bucket.s3_store_axioms mem_target_simps(1) tidy mset_rev run] run
  show ?thesis by (auto simp: mem_sys_view)
qed

end
