(* ===== verification/Retention.thy ===== *)
theory Retention
  imports Receive
begin

text \<open>
  \<open>src/cmd/retention.rs\<close>: expiring by age and count. Sets of GUIDs are lists here; the
  iteration order of the code's hash sets is unspecified and \<open>keep_set_iff\<close> shows that the
  result does not depend on it. The laws: the snapshots kept are exactly the roots of the
  policy and their ancestry, so what is kept stays restorable; a run, however it ends, leaves
  no listed backup with missing chunks.
\<close>

section \<open>Ages\<close>

definition MAX_AGE_DAYS :: int where "MAX_AGE_DAYS = 36500"

definition is_continuation :: "char \<Rightarrow> bool" where
  "is_continuation c \<longleftrightarrow> 128 \<le> (of_char c :: nat) \<and> (of_char c :: nat) < 192"

text \<open>\<open>char_indices().next_back()\<close>: the last character and what stands before it.\<close>

definition split_last_char :: "string \<Rightarrow> (string \<times> string) option" where
  "split_last_char t =
     (if t = [] then None
      else
        (let k = length (takeWhile is_continuation (rev t)); n = length t - min (length t) (k + 1)
         in Some (take n t, drop n t)))"

definition saturating_mul_i64 :: "int \<Rightarrow> int \<Rightarrow> int" where
  "saturating_mul_i64 x y = max (- (2 ^ 63)) (min (2 ^ 63 - 1) (x * y))"

definition parse_age :: "string \<Rightarrow> age_error + int" where
  "parse_age s =
     (case split_last_char (trim s) of
        None \<Rightarrow> Inl EmptyAge
      | Some (num, unit) \<Rightarrow>
          (case parse_i64 num of
             Inl e \<Rightarrow> Inl (BadAgeNumber e)
           | Inr n \<Rightarrow>
               (if n < 0 then Inl NegativeAge
                else
                  (let sec = (1000000000 :: int);
                       days = (if unit = ''d'' then Some n
                               else if unit = ''w'' then Some (saturating_mul_i64 n 7)
                               else if unit = ''h'' then Some (n div 24)
                               else if unit = ''m'' then Some (n div (24 * 60)) else None)
                   in case days of
                        None \<Rightarrow> Inl BadAgeUnit
                      | Some dd \<Rightarrow>
                          (if MAX_AGE_DAYS < dd then Inl AgeTooLong
                           else Inr (n * sec *
                             (if unit = ''d'' then 86400 else if unit = ''w'' then 604800
                              else if unit = ''h'' then 3600 else 60)))))))"

section \<open>What is kept\<close>

text \<open>\<open>by_guid\<close>: a later manifest with the same GUID replaces an earlier one.\<close>

definition by_guid :: "manifest list \<Rightarrow> guid \<Rightarrow> manifest option" where
  "by_guid all g = map_of (rev (map (\<lambda>m. (mf_snapshot_guid m, m)) all)) g"

definition per_dataset :: "manifest list \<Rightarrow> guid \<Rightarrow> manifest list" where
  "per_dataset all ds = filter (\<lambda>m. mf_dataset_guid m = ds) all"

definition newest :: "manifest list \<Rightarrow> nat \<Rightarrow> guid \<Rightarrow> manifest list" where
  "newest all keep_last ds = take keep_last (sort_key (\<lambda>m. - mf_created_at m) (per_dataset all ds))"

definition keep_roots :: "manifest list \<Rightarrow> guid list \<Rightarrow> int option \<Rightarrow> nat \<Rightarrow> guid list" where
  "keep_roots all pins cutoff keep_last =
     remdups
       (concat (map (\<lambda>ds. map mf_snapshot_guid (newest all keep_last ds))
                    (remdups (map mf_dataset_guid all))) @
        map mf_snapshot_guid
          (filter (\<lambda>m. (case cutoff of None \<Rightarrow> False | Some c \<Rightarrow> c < mf_created_at m) \<or>
                       mf_snapshot_guid m \<in> set pins) all))"

lemma by_guid_SomeD: "by_guid all g = Some m \<Longrightarrow> m \<in> set all \<and> mf_snapshot_guid m = g"
  unfolding by_guid_def by (drule map_of_SomeD) auto

lemma by_guid_None: "by_guid all g = None \<longleftrightarrow> g \<notin> mf_snapshot_guid ` set all"
  by (auto simp: by_guid_def map_of_eq_None_iff image_iff)

function keep_loop :: "manifest list \<Rightarrow> guid list \<Rightarrow> guid list \<Rightarrow> guid list" where
  "keep_loop all [] keep = keep"
| "keep_loop all (g # work) keep =
     (case by_guid all g of
        None \<Rightarrow> keep_loop all work keep
      | Some m \<Rightarrow>
          (case mf_from_guid m of
             None \<Rightarrow> keep_loop all work keep
           | Some f \<Rightarrow>
               (if by_guid all f \<noteq> None \<and> f \<notin> set keep
                then keep_loop all (f # work) (f # keep)
                else keep_loop all work keep)))"
  by pat_completeness auto
termination
proof (relation "measures [\<lambda>(all, w, k). card (mf_snapshot_guid ` set all - set k), \<lambda>(all, w, k). length w]")
  fix all g and work keep :: "guid list" and m f
  assume h: "by_guid all f \<noteq> None \<and> f \<notin> set keep"
  then have "f \<in> mf_snapshot_guid ` set all" by (simp add: by_guid_None)
  with h have "mf_snapshot_guid ` set all - set (f # keep) \<subset> mf_snapshot_guid ` set all - set keep" by auto
  then have "card (mf_snapshot_guid ` set all - set (f # keep)) < card (mf_snapshot_guid ` set all - set keep)"
    by (intro psubset_card_mono) simp_all
  then show "((all, f # work, f # keep), all, g # work, keep) \<in> measures
      [\<lambda>(all, w, k). card (mf_snapshot_guid ` set all - set k), \<lambda>(all, w, k). length w]" by simp
qed simp_all

declare keep_loop.simps(2) [simp del]

definition keep_set :: "manifest list \<Rightarrow> guid list \<Rightarrow> int option \<Rightarrow> nat \<Rightarrow> guid list" where
  "keep_set all pins cutoff keep_last =
     (let keep = keep_roots all pins cutoff keep_last in keep_loop all keep keep)"

section \<open>The run\<close>

definition delete_backup :: "'x target \<Rightarrow> manifest \<Rightarrow> ('x sys, error, unit) io" where
  "delete_backup t m =
     (let p = tg_prefix t; d = mf_dataset_guid m; s = mf_snapshot_guid m; st = tg_store t in
      bind_io (err_io EStore (store_delete st (manifest_key p d s))) (\<lambda>_.
      bind_io (for_each (\<lambda>c. err_io EStore (store_delete st (chunk_key p d s (ck_seq c)))) (mf_chunks m)) (\<lambda>_.
        try_io (store_delete st (pending_key p d s)) (\<lambda>_. ret ()))))"

definition retention_run ::
  "(bytes \<Rightarrow> string + manifest) \<Rightarrow> (string list \<Rightarrow> string list) \<Rightarrow> 'x host \<Rightarrow> 'x target
     \<Rightarrow> string option \<Rightarrow> nat option \<Rightarrow> string option \<Rightarrow> bool \<Rightarrow> ('x sys, error, unit) io" where
  "retention_run dec arrival h t older_than keep_last only dry_run =
     (if older_than = None \<and> keep_last = None then throw NoPolicy
      else
        (let n = (case keep_last of None \<Rightarrow> 1 | Some k \<Rightarrow> k) in
         if n = 0 \<and> older_than = None then throw KeepNothing
         else
           bind_io (manifests dec arrival t) (\<lambda>everything.
             (let all = (case only of None \<Rightarrow> everything
                 | Some d \<Rightarrow> filter (\<lambda>m. name_matches d (mf_dataset m)) everything) in
              if only \<noteq> None \<and> all = [] then ret ()
              else
                bind_io (pinned t) (\<lambda>pins s.
                  bind_io
                    (case older_than of
                       None \<Rightarrow> ret None
                     | Some a \<Rightarrow> lift_result (map_sum (InvalidAge a) (\<lambda>d. Some (ho_now h (ext s) - d)) (parse_age a)))
                    (\<lambda>cutoff.
                       (let keep = keep_set all pins cutoff n;
                            doomed = filter (\<lambda>m. mf_snapshot_guid m \<notin> set keep) all
                        in if dry_run then ret () else for_each (delete_backup t) doomed)) s)))))"

section \<open>Exactly the ancestry of the roots\<close>

inductive needed :: "manifest list \<Rightarrow> guid set \<Rightarrow> guid \<Rightarrow> bool" for all roots where
  root: "g \<in> roots \<Longrightarrow> needed all roots g"
| base: "needed all roots g \<Longrightarrow> by_guid all g = Some m \<Longrightarrow> mf_from_guid m = Some f \<Longrightarrow>
    by_guid all f \<noteq> None \<Longrightarrow> needed all roots f"

text \<open>The loop's invariant: what is kept is needed, and only the worklist may miss its base.\<close>

definition base_kept :: "manifest list \<Rightarrow> guid set \<Rightarrow> guid \<Rightarrow> bool" where
  "base_kept all keep g \<longleftrightarrow>
     (\<forall>m f. by_guid all g = Some m \<longrightarrow> mf_from_guid m = Some f \<longrightarrow> by_guid all f \<noteq> None \<longrightarrow> f \<in> keep)"

lemma base_kept_mono: "base_kept all A g \<Longrightarrow> A \<subseteq> B \<Longrightarrow> base_kept all B g"
  unfolding base_kept_def by blast

lemma keep_loop_closed:
  "\<forall>g \<in> set keep. needed all R g \<Longrightarrow> \<forall>g \<in> set keep - set work. base_kept all (set keep) g \<Longrightarrow>
   set work \<subseteq> set keep \<Longrightarrow>
   set keep \<subseteq> set (keep_loop all work keep) \<and> (\<forall>g \<in> set (keep_loop all work keep). needed all R g) \<and>
   (\<forall>g \<in> set (keep_loop all work keep). base_kept all (set (keep_loop all work keep)) g)"
proof (induction all work keep rule: keep_loop.induct)
  case (1 all keep)
  then show ?case by simp
next
  case (2 all g work keep)
  have rest: "\<forall>x \<in> set keep - set work. base_kept all (set keep) x" if "base_kept all (set keep) g"
    using "2.prems"(2) that by auto
  have sub: "set work \<subseteq> set keep" using "2.prems"(3) by simp
  have skip: ?case if "keep_loop all (g # work) keep = keep_loop all work keep"
      "base_kept all (set keep) g"
      "set keep \<subseteq> set (keep_loop all work keep) \<and> (\<forall>g \<in> set (keep_loop all work keep). needed all R g) \<and>
       (\<forall>g \<in> set (keep_loop all work keep). base_kept all (set (keep_loop all work keep)) g)"
    using that by simp
  show ?case
  proof (cases "by_guid all g")
    case None
    then have k: "base_kept all (set keep) g" by (simp add: base_kept_def)
    show ?thesis
      by (rule skip [OF _ k "2.IH"(1) [OF None "2.prems"(1) rest [OF k] sub]])
        (simp add: keep_loop.simps(2) None)
  next
    case (Some m)
    note g = Some
    show ?thesis
    proof (cases "mf_from_guid m")
      case None
      then have k: "base_kept all (set keep) g" using g by (simp add: base_kept_def)
      show ?thesis
        by (rule skip [OF _ k "2.IH"(2) [OF g None "2.prems"(1) rest [OF k] sub]])
          (simp add: keep_loop.simps(2) None g)
    next
      case (Some f)
      show ?thesis
      proof (cases "by_guid all f \<noteq> None \<and> f \<notin> set keep")
        case True
        have eq: "keep_loop all (g # work) keep = keep_loop all (f # work) (f # keep)"
          using g Some True by (simp add: keep_loop.simps(2))
        have "needed all R f"
          using "2.prems"(1,3) g Some True needed.base [of all R g m f] by simp
        then have 1: "\<forall>x \<in> set (f # keep). needed all R x" using "2.prems"(1) by simp
        have 2: "\<forall>x \<in> set (f # keep) - set (f # work). base_kept all (set (f # keep)) x"
        proof
          fix x assume x: "x \<in> set (f # keep) - set (f # work)"
          show "base_kept all (set (f # keep)) x"
          proof (cases "x = g")
            case True
            with g Some show ?thesis by (simp add: base_kept_def)
          next
            case False
            with x have "x \<in> set keep - set (g # work)" by simp
            with "2.prems"(2) have "base_kept all (set keep) x" by blast
            then show ?thesis by (rule base_kept_mono) auto
          qed
        qed
        have "set (f # work) \<subseteq> set (f # keep)" using sub by auto
        from "2.IH"(3) [OF g Some True 1 2 this] show ?thesis unfolding eq by auto
      next
        case False
        then have k: "base_kept all (set keep) g" using g Some by (auto simp: base_kept_def)
        have "keep_loop all (g # work) keep = keep_loop all work keep"
          using g Some False by (auto simp: keep_loop.simps(2))
        then show ?thesis
          by (rule skip [OF _ k "2.IH"(4) [OF g Some False "2.prems"(1) rest [OF k] sub]])
      qed
    qed
  qed
qed

lemma keep_set_iff:
  "g \<in> set (keep_set all pins cutoff n) \<longleftrightarrow> needed all (set (keep_roots all pins cutoff n)) g"
proof -
  let ?R = "keep_roots all pins cutoff n"
  let ?K = "set (keep_loop all ?R ?R)"
  have loop: "set ?R \<subseteq> ?K" "\<forall>g \<in> ?K. needed all (set ?R) g" "\<forall>g \<in> ?K. base_kept all ?K g"
    using keep_loop_closed [of ?R all "set ?R" ?R] by (auto intro: needed.root)
  have "needed all (set ?R) g \<Longrightarrow> g \<in> ?K"
    by (induction rule: needed.induct) (use loop(1,3) in \<open>auto simp: base_kept_def\<close>)
  with loop(2) show ?thesis by (auto simp: keep_set_def Let_def)
qed

section \<open>What is kept stays restorable\<close>

lemma by_guid_find:
  assumes "distinct (map mf_snapshot_guid all)"
  shows "by_guid all g = List.find (\<lambda>m. mf_snapshot_guid m = g) all"
proof (cases "by_guid all g")
  case None
  then have "\<not> (\<exists>x \<in> set all. mf_snapshot_guid x = g)" by (auto simp: by_guid_None)
  then have "List.find (\<lambda>m. mf_snapshot_guid m = g) all = None" by (auto simp: find_None_iff)
  with None show ?thesis by simp
next
  case (Some m)
  note m = by_guid_SomeD [OF Some]
  obtain x where x: "List.find (\<lambda>m. mf_snapshot_guid m = g) all = Some x"
    using m find_Some_iff_ex [of "\<lambda>m. mf_snapshot_guid m = g" all] by blast
  then have "x = m" using m find_guid [OF x] assms by (auto simp: distinct_map dest: inj_onD)
  with Some x show ?thesis by simp
qed

lemma find_filter_guid:
  "List.find (\<lambda>m. mf_snapshot_guid m = f) (filter (\<lambda>m. mf_snapshot_guid m \<in> K) all) =
     (if f \<in> K then List.find (\<lambda>m. mf_snapshot_guid m = f) all else None)"
  by (induction all) auto

lemma kept_restorable:
  fixes pins :: "guid list" and cutoff :: "int option" and n :: nat
  assumes d: "distinct (map mf_snapshot_guid all)" and r: "restorable all m"
  defines "K \<equiv> set (keep_set all pins cutoff n)"
  shows "m \<in> set all \<Longrightarrow> mf_snapshot_guid m \<in> K \<Longrightarrow>
    restorable (filter (\<lambda>x. mf_snapshot_guid x \<in> K) all) m"
  using r
proof (induction rule: restorable.induct)
  case (full m)
  then show ?case by (intro restorable.full)
next
  case (incr m f b)
  note b = find_guid [OF incr.hyps(2)]
  have "by_guid all (mf_snapshot_guid m) = Some m"
  proof (cases "by_guid all (mf_snapshot_guid m)")
    case None
    with incr.prems(1) show ?thesis by (simp add: by_guid_None)
  next
    case (Some x)
    with by_guid_SomeD [OF Some] incr.prems(1) d show ?thesis
      by (auto simp: distinct_map dest: inj_onD)
  qed
  moreover have "by_guid all f \<noteq> None" using b by (auto simp: by_guid_None)
  ultimately have "f \<in> K"
    using incr.prems(2) incr.hyps(1) unfolding K_def keep_set_iff by (auto intro: needed.base)
  with incr b show ?case
    by (intro restorable.incr [OF incr.hyps(1)]) (simp_all add: find_filter_guid)
qed

section \<open>The policy\<close>

lemma roots_policy:
  assumes "m \<in> set all"
  shows "mf_snapshot_guid m \<in> set pins \<Longrightarrow> mf_snapshot_guid m \<in> set (keep_set all pins cutoff n)"
    and "cutoff = Some c \<Longrightarrow> c < mf_created_at m \<Longrightarrow> mf_snapshot_guid m \<in> set (keep_set all pins cutoff n)"
    and "m \<in> set (newest all n (mf_dataset_guid m)) \<Longrightarrow> mf_snapshot_guid m \<in> set (keep_set all pins cutoff n)"
  using assms by (auto simp: keep_set_iff keep_roots_def intro!: needed.root)

lemma sorted_take_le:
  assumes "sorted (map f xs)" "x \<in> set (take k xs)" "y \<in> set (drop k xs)"
  shows "f x \<le> f y"
proof -
  have "sorted (map f (take k xs @ drop k xs))" using assms(1) by simp
  with assms(2,3) show ?thesis by (auto simp only: map_append sorted_append set_map)
qed

text \<open>What is deleted is outlived by \<open>keep_last\<close> backups of its dataset that are no older.\<close>

lemma doomed_outlived:
  assumes m: "m \<in> set all" "mf_snapshot_guid m \<notin> set (keep_set all pins cutoff n)"
  shows "n \<le> length (filter (\<lambda>x. mf_dataset_guid x = mf_dataset_guid m \<and>
      mf_created_at m \<le> mf_created_at x \<and> mf_snapshot_guid x \<in> set (keep_set all pins cutoff n)) all)"
    (is "_ \<le> length (filter ?P all)")
proof -
  let ?f = "\<lambda>m. - mf_created_at m"
  let ?L = "per_dataset all (mf_dataset_guid m)"
  let ?S = "sort_key ?f ?L"
  have mL: "m \<in> set ?L" using m(1) by (simp add: per_dataset_def)
  have notin: "m \<notin> set (take n ?S)"
    using roots_policy(3) [OF m(1), of n pins cutoff] m(2) by (auto simp: newest_def)
  have "m \<in> set (take n ?S @ drop n ?S)" using mL by simp
  with notin have later: "m \<in> set (drop n ?S)" by (simp only: set_append Un_iff) simp
  then have n: "n \<le> length ?S" by (cases "n \<le> length ?S") simp_all
  have P: "?P x" if x: "x \<in> set (take n ?S)" for x
  proof -
    have "x \<in> set ?S" using x by (rule in_set_takeD)
    then have xL: "x \<in> set all" "mf_dataset_guid x = mf_dataset_guid m" by (auto simp: per_dataset_def)
    have "?f x \<le> ?f m" using sorted_take_le [where f = ?f, OF _ x later] by simp
    moreover have "x \<in> set (newest all n (mf_dataset_guid x))" using x xL(2) by (simp add: newest_def)
    ultimately show ?thesis using xL roots_policy(3) [OF xL(1)] by simp
  qed
  have "n = length (take n ?S)" using n by simp
  also have "\<dots> = length (filter ?P (take n ?S))"
    by (rule arg_cong [where f = length], rule filter_True [symmetric], rule ballI, rule P)
  also have "\<dots> \<le> length (filter ?P ?S)"
    by (subst (2) append_take_drop_id [of n ?S, symmetric]) (simp only: filter_append length_append le_add1)
  also have "\<dots> = length (filter ?P ?L)" by (simp only: filter_sort length_sort)
  also have "\<dots> = length (filter ?P all)"
    by (simp add: per_dataset_def conj_commute conj_left_commute)
  finally show ?thesis .
qed

section \<open>The effect of a run\<close>

definition backup_keys :: "string \<Rightarrow> manifest \<Rightarrow> string set" where
  "backup_keys p m =
     (let d = mf_dataset_guid m; s = mf_snapshot_guid m
      in {manifest_key p d s, pending_key p d s} \<union> (\<lambda>c. chunk_key p d s (ck_seq c)) ` set (mf_chunks m))"

definition only_deletes :: "string set \<Rightarrow> (string \<Rightarrow> bytes option) \<Rightarrow> (string \<Rightarrow> bytes option) \<Rightarrow> bool" where
  "only_deletes ks b b' \<longleftrightarrow> (\<forall>k. b' k = b k \<or> (b' k = None \<and> k \<in> ks))"

text \<open>The scope of a run, its cutoff and what it deletes.\<close>

definition in_scope :: "string option \<Rightarrow> manifest list \<Rightarrow> manifest list" where
  "in_scope only everything =
     (case only of None \<Rightarrow> everything | Some d \<Rightarrow> filter (\<lambda>m. name_matches d (mf_dataset m)) everything)"

definition cutoff_at :: "string option \<Rightarrow> int \<Rightarrow> int option \<Rightarrow> bool" where
  "cutoff_at older now c \<longleftrightarrow>
     (case older of None \<Rightarrow> c = None | Some a \<Rightarrow> (\<exists>d. parse_age a = Inr d \<and> c = Some (now - d)))"

definition expired :: "manifest list \<Rightarrow> guid list \<Rightarrow> int option \<Rightarrow> nat \<Rightarrow> manifest list" where
  "expired all pins cutoff n = filter (\<lambda>m. mf_snapshot_guid m \<notin> set (keep_set all pins cutoff n)) all"

context s3_store
begin

lemma delete_keeps:
  assumes "clean_path k" "\<And>m. P m \<Longrightarrow> P (m(k := None))"
  shows "keeps (\<lambda>s. P (contents s)) (err_io EStore (store_delete st k))"
  by (rule keeps_err [OF bk.del_keeps [where P = P, OF assms]])

lemma delete_backup_sound:
  assumes t: "tg_store t = st" and root: "clean_path (key_root (tg_prefix t))"
  shows "keeps (\<lambda>s. sound_bucket dec blake (tg_prefix t) (contents s)) (delete_backup t m)"
proof (unfold keeps_def, intro allI impI)
  fix s
  let ?p = "tg_prefix t" and ?d = "mf_dataset_guid m" and ?g = "mf_snapshot_guid m"
  let ?mk = "manifest_key ?p ?d ?g"
  let ?sound = "sound_bucket dec blake ?p"
  assume s: "?sound (contents s)"
  note clean = clean_keys [OF root]
  obtain r1 s1 where 1: "err_io EStore (store_delete st ?mk) s = (r1, s1)" by fastforce
  have b1: "?sound (contents s1)"
    using keepsD [OF delete_keeps [of _ ?sound] s 1] clean(1) sound_delete_manifest by blast
  show "?sound (contents (snd (delete_backup t m s)))"
  proof (cases r1)
    case (Inl e)
    with 1 b1 show ?thesis by (simp add: delete_backup_def Let_def bind_io_def t)
  next
    case (Inr u)
    let ?I = "\<lambda>b. ?sound b \<and> b ?mk = None"
    let ?rest = "bind_io (for_each (\<lambda>c. err_io EStore (store_delete st (chunk_key ?p ?d ?g (ck_seq c)))) (mf_chunks m))
        (\<lambda>_. try_io (store_delete st (pending_key ?p ?d ?g)) (\<lambda>_. ret ())) :: ('x sys, error, unit) io"
    have "store_delete st ?mk s = (Inr u, s1)" using 1 Inr by (simp add: err_io_Inr)
    then have gone: "contents s1 ?mk = None" using bk.del_ok [OF clean(1)] by simp
    have "keeps (\<lambda>s. ?I (contents s)) ?rest"
    proof (intro keeps_bind keeps_for_each keeps_try keeps_ret delete_keeps)
      fix c b assume "?I b"
      then show "?I (b(chunk_key ?p ?d ?g (ck_seq c) := None))"
        using sound_delete_chunk [of dec blake ?p b ?d ?g] by (simp add: key_simps)
    next
      show "keeps (\<lambda>s. ?I (contents s)) (store_delete st (pending_key ?p ?d ?g))"
        by (rule bk.del_keeps [where P = ?I, OF clean(2)]) (simp add: sound_delete_pending key_simps)
    qed (rule clean)
    then have "?I (contents (snd (?rest s1)))" using b1 gone unfolding keeps_def by blast
    moreover have "delete_backup t m s = ?rest s1"
      using 1 Inr by (simp add: delete_backup_def Let_def bind_io_def [of "err_io EStore (store_delete st ?mk)"] t)
    ultimately show ?thesis by simp
  qed
qed

lemma only_deletes_delete:
  "only_deletes ks b0 b \<Longrightarrow> k \<in> ks \<Longrightarrow> only_deletes ks b0 (b(k := None))"
  by (auto simp: only_deletes_def)

lemma delete_backup_frame:
  assumes t: "tg_store t = st" and root: "clean_path (key_root (tg_prefix t))"
    and ks: "backup_keys (tg_prefix t) m \<subseteq> ks"
  shows "keeps (\<lambda>s. only_deletes ks b0 (contents s)) (delete_backup t m)"
  unfolding delete_backup_def Let_def t
proof (intro keeps_bind keeps_for_each keeps_try keeps_ret delete_keeps clean_keys [OF root])
  show "keeps (\<lambda>s. only_deletes ks b0 (contents s))
     (store_delete st (pending_key (tg_prefix t) (mf_dataset_guid m) (mf_snapshot_guid m)))"
    using ks by (intro bk.del_keeps clean_keys [OF root] only_deletes_delete) (auto simp: backup_keys_def Let_def)
qed (use ks in \<open>auto simp: backup_keys_def Let_def simp del: fun_upd_apply intro!: only_deletes_delete\<close>)

lemma delete_backup_gone:
  assumes t: "tg_store t = st" and root: "clean_path (key_root (tg_prefix t))"
    and r: "delete_backup t m s = (Inr u, s')"
  shows "\<forall>k \<in> backup_keys (tg_prefix t) m - {pending_key (tg_prefix t) (mf_dataset_guid m) (mf_snapshot_guid m)}.
    contents s' k = None"
proof -
  let ?p = "tg_prefix t" and ?d = "mf_dataset_guid m" and ?g = "mf_snapshot_guid m"
  note clean = clean_keys [OF root]
  from r obtain s1 s2 r3 where 1: "store_delete st (manifest_key ?p ?d ?g) s = (Inr (), s1)" and
    2: "for_each (\<lambda>c. err_io EStore (store_delete st (chunk_key ?p ?d ?g (ck_seq c)))) (mf_chunks m) s1 = (Inr (), s2)" and
    3: "store_delete st (pending_key ?p ?d ?g) s2 = (r3, s')"
    by (auto simp: delete_backup_def Let_def t bind_io_Inr err_io_Inr try_io_iff)
  have mk: "contents s1 (manifest_key ?p ?d ?g) = None" using bk.del_ok [OF clean(1) 1] by simp
  have "contents s2 (manifest_key ?p ?d ?g) = None \<and>
      (\<forall>c \<in> set cs. contents s2 (chunk_key ?p ?d ?g (ck_seq c)) = None)"
    if "for_each (\<lambda>c. err_io EStore (store_delete st (chunk_key ?p ?d ?g (ck_seq c)))) cs v = (Inr (), s2)"
      "contents v (manifest_key ?p ?d ?g) = None" for cs v
  proof -
    have ks: "for_each (store_delete st) (map (\<lambda>c. chunk_key ?p ?d ?g (ck_seq c)) cs) v = (Inr (), s2)"
      using that(1) by (induction cs arbitrary: v) (auto simp: bind_io_Inr err_io_Inr)
    have "\<forall>k \<in> set (map (\<lambda>c. chunk_key ?p ?d ?g (ck_seq c)) cs). clean_path k"
      using clean(3) by auto
    from bk.del_all [OF this ks] that(2) show ?thesis by auto
  qed
  from this [OF 2 mk] bk.del_any [OF clean(2) 3] show ?thesis
    by (auto simp: backup_keys_def Let_def key_simps)
qed

lemma retention_run_cases:
  assumes t: "tg_store t = st" and tidy: "tidy (tg_prefix t) (contents s)"
    and arr: "\<And>xs. set (arrival xs) = set xs"
    and run: "retention_run dec arrival h t older keep only dry s = (r, s')"
  obtains (quiet) "contents s' = contents s"
  | (deletes) everything s1 pins s2 cutoff n where
      "manifests dec arrival t s = (Inr everything, s1)" "pinned t s1 = (Inr pins, s2)"
      "contents s1 = contents s" "contents s2 = contents s" "\<not> dry"
      "cutoff_at older (ho_now h (ext s2)) cutoff" "n = (case keep of None \<Rightarrow> 1 | Some k \<Rightarrow> k)"
      "for_each (delete_backup t) (expired (in_scope only everything) pins cutoff n) s2 = (r, s')"
proof -
  define n where "n = (case keep of None \<Rightarrow> (1 :: nat) | Some k \<Rightarrow> k)"
  have root: "clean_path (key_root (tg_prefix t))" using tidy by (simp add: tidy_def)
  show thesis
  proof (cases "(older = None \<and> keep = None) \<or> (n = 0 \<and> older = None)")
    case True
    then have "s' = s"
      using run n_def by (auto simp: retention_run_def Let_def throw_def split: if_splits)
    with quiet show ?thesis by simp
  next
    case False
    obtain rm s1 where 1: "manifests dec arrival t s = (rm, s1)" by fastforce
    note b1 = manifests_frame [OF t tidy arr 1]
    show ?thesis
    proof (cases rm)
      case (Inl e)
      with run 1 False have "s' = s1"
        by (auto simp: retention_run_def Let_def bind_io_def n_def split: if_splits)
      with b1 quiet show ?thesis by simp
    next
      case (Inr everything)
      let ?all = "in_scope only everything"
      obtain rp s2 where 2: "pinned t s1 = (rp, s2)" by fastforce
      note b2 = pinned_frame [OF t root 2]
      show ?thesis
      proof (cases "only \<noteq> None \<and> ?all = []")
        case True
        with run 1 False Inr have "s' = s1"
          by (auto simp: retention_run_def Let_def bind_io_def n_def in_scope_def ret_def split: if_splits)
        with b1 quiet show ?thesis by simp
      next
        case some: False
        show ?thesis
        proof (cases rp)
          case (Inl e)
          with run 1 2 False Inr some have "s' = s2"
            by (auto simp: retention_run_def Let_def bind_io_def n_def in_scope_def split: if_splits)
          with b1 b2 quiet show ?thesis by simp
        next
          case pins: (Inr pins)
          let ?cut = "case older of None \<Rightarrow> ret None
            | Some a \<Rightarrow> lift_result (map_sum (InvalidAge a) (\<lambda>d. Some (ho_now h (ext s2) - d)) (parse_age a))"
          obtain rc s3 where 3: "?cut s2 = (rc :: error + int option, s3)" by fastforce
          then have s3: "s3 = s2" by (auto simp: ret_def lift_result_def split: option.splits)
          show ?thesis
          proof (cases rc)
            case (Inl e)
            with run 1 2 3 False Inr some pins have "s' = s3"
              by (auto simp: retention_run_def Let_def bind_io_def n_def in_scope_def split: if_splits)
            with b1 b2 s3 quiet show ?thesis by simp
          next
            case cut: (Inr cutoff)
            have c: "cutoff_at older (ho_now h (ext s2)) cutoff"
              using 3 cut by (auto simp: cutoff_at_def ret_def lift_result_def result_simps split: option.splits)
            have "retention_run dec arrival h t older keep only dry s =
                (if dry then ret () else for_each (delete_backup t) (expired ?all pins cutoff n)) s2"
              using 1 2 3 False Inr some pins cut s3
              by (auto simp: retention_run_def Let_def bind_io_def n_def in_scope_def expired_def)
            with run show ?thesis
              using quiet deletes [OF 1 [unfolded Inr] 2 [unfolded pins] b1 _ _ c n_def] b1 b2
              by (cases dry) (auto simp: ret_def)
          qed
        qed
      qed
    qed
  qed
qed

text \<open>However the run ends, no manifest that is left lacks a chunk it had.\<close>

lemma retention_sound:
  assumes t: "tg_store t = st" and tidy: "tidy (tg_prefix t) (contents s)"
    and arr: "\<And>xs. set (arrival xs) = set xs"
    and run: "retention_run dec arrival h t older keep only dry s = (r, s')"
    and sound: "sound_bucket dec blake (tg_prefix t) (contents s)"
  shows "sound_bucket dec blake (tg_prefix t) (contents s')"
proof -
  have root: "clean_path (key_root (tg_prefix t))" using tidy by (simp add: tidy_def)
  show ?thesis using t tidy arr run
  proof (cases rule: retention_run_cases)
    case quiet
    with sound show ?thesis by simp
  next
    case (deletes everything s1 pins s2 cutoff n)
    have "keeps (\<lambda>s. sound_bucket dec blake (tg_prefix t) (contents s))
        (for_each (delete_backup t) (expired (in_scope only everything) pins cutoff n))"
      by (intro keeps_for_each delete_backup_sound [OF t root])
    from keepsD [OF this _ deletes(8)] sound deletes(4) show ?thesis by simp
  qed
qed

text \<open>Only objects of expired backups disappear; after a success they are all gone.\<close>

lemma retention_effect:
  assumes t: "tg_store t = st" and tidy: "tidy (tg_prefix t) (contents s)"
    and arr: "\<And>xs. set (arrival xs) = set xs"
    and run: "retention_run dec arrival h t older keep only dry s = (r, s')"
  shows "contents s' = contents s \<or>
    (\<exists>everything s1 pins s2 cutoff n. manifests dec arrival t s = (Inr everything, s1) \<and>
       pinned t s1 = (Inr pins, s2) \<and> cutoff_at older (ho_now h (ext s2)) cutoff \<and>
       n = (case keep of None \<Rightarrow> 1 | Some k \<Rightarrow> k) \<and>
       only_deletes (\<Union>m \<in> set (expired (in_scope only everything) pins cutoff n). backup_keys (tg_prefix t) m)
         (contents s) (contents s') \<and>
       (r = Inr () \<longrightarrow> (\<forall>m \<in> set (expired (in_scope only everything) pins cutoff n). \<forall>k \<in> backup_keys (tg_prefix t) m.
          k = pending_key (tg_prefix t) (mf_dataset_guid m) (mf_snapshot_guid m) \<or> contents s' k = None)))"
proof -
  let ?p = "tg_prefix t"
  have root: "clean_path (key_root ?p)" using tidy by (simp add: tidy_def)
  show ?thesis using t tidy arr run
  proof (cases rule: retention_run_cases)
    case (deletes everything s1 pins s2 cutoff n)
    let ?doomed = "expired (in_scope only everything) pins cutoff n"
    let ?ks = "\<Union>m \<in> set ?doomed. backup_keys ?p m"
    have fr: "keeps (\<lambda>s. only_deletes ?ks b (contents s)) (delete_backup t m)" if "m \<in> set ?doomed" for m b
      using that by (intro delete_backup_frame [OF t root]) auto
    have "keeps (\<lambda>v. only_deletes ?ks (contents s) (contents v)) (for_each (delete_backup t) ?doomed)"
      using fr by (intro keeps_for_each)
    from keepsD [OF this _ deletes(8)] deletes(4)
    have od: "only_deletes ?ks (contents s) (contents s')" by (simp add: only_deletes_def)
    have gone: "\<forall>m \<in> set ms. \<forall>k \<in> backup_keys ?p m.
        k = pending_key ?p (mf_dataset_guid m) (mf_snapshot_guid m) \<or> contents s' k = None"
      if "for_each (delete_backup t) ms v = (Inr (), s')" "set ms \<subseteq> set ?doomed" for ms v
      using that
    proof (induction ms arbitrary: v)
      case (Cons m ms)
      from Cons.prems(1) obtain v1 where v1: "delete_backup t m v = (Inr (), v1)"
        "for_each (delete_backup t) ms v1 = (Inr (), s')" by (auto simp: bind_io_Inr)
      have "keeps (\<lambda>x. only_deletes ?ks (contents v1) (contents x)) (for_each (delete_backup t) ms)"
        using fr Cons.prems(2) by (intro keeps_for_each) auto
      from keepsD [OF this _ v1(2)] have od: "contents s' k = contents v1 k \<or> contents s' k = None" for k
        by (auto simp: only_deletes_def)
      have "\<forall>k \<in> backup_keys ?p m. k = pending_key ?p (mf_dataset_guid m) (mf_snapshot_guid m) \<or>
          contents s' k = None"
      proof
        fix k assume "k \<in> backup_keys ?p m"
        then have "k = pending_key ?p (mf_dataset_guid m) (mf_snapshot_guid m) \<or> contents v1 k = None"
          using bspec [OF delete_backup_gone [OF t root v1(1)], of k]
          by (cases "k = pending_key ?p (mf_dataset_guid m) (mf_snapshot_guid m)") simp_all
        with od [of k] show "k = pending_key ?p (mf_dataset_guid m) (mf_snapshot_guid m) \<or> contents s' k = None"
          by auto
      qed
      with Cons.IH [OF v1(2)] Cons.prems(2) show ?case by simp
    qed simp
    have "r = Inr () \<longrightarrow> (\<forall>m \<in> set ?doomed. \<forall>k \<in> backup_keys ?p m.
        k = pending_key ?p (mf_dataset_guid m) (mf_snapshot_guid m) \<or> contents s' k = None)"
    proof
      assume "r = Inr ()"
      with deletes(8) show "\<forall>m \<in> set ?doomed. \<forall>k \<in> backup_keys ?p m.
          k = pending_key ?p (mf_dataset_guid m) (mf_snapshot_guid m) \<or> contents s' k = None"
        by (intro gone [of ?doomed s2]) simp_all
    qed
    with deletes(1,2,6,7) od show ?thesis
      by (intro disjI2 exI [of _ everything] exI [of _ s1] exI [of _ pins] exI [of _ s2]
          exI [of _ cutoff] exI [of _ n] conjI)
  qed simp
qed

text \<open>A listed backup that is pinned survives every run, whatever its policy and however it ends.\<close>

lemma retention_pinned:
  assumes t: "tg_store t = st" and tidy: "tidy (tg_prefix t) (contents s)"
    and arr: "\<And>xs. set (arrival xs) = set xs"
    and run: "retention_run dec arrival h t older keep only dry s = (r, s')"
    and pin: "contents s (pin_key (tg_prefix t) (mf_snapshot_guid m)) \<noteq> None"
    and k: "k \<in> backup_keys (tg_prefix t) m"
  shows "contents s' k = contents s k"
proof -
  let ?p = "tg_prefix t"
  have root: "clean_path (key_root ?p)" using tidy by (simp add: tidy_def)
  from retention_effect [OF t tidy arr run]
  show ?thesis
  proof (elim disjE exE conjE)
    assume "contents s' = contents s"
    then show ?thesis by simp
  next
    fix everything s1 pins s2 cutoff n
    assume h: "manifests dec arrival t s = (Inr everything, s1)" "pinned t s1 = (Inr pins, s2)"
      "only_deletes (\<Union>m \<in> set (expired (in_scope only everything) pins cutoff n). backup_keys ?p m)
         (contents s) (contents s')"
    have b1: "contents s1 = contents s" by (rule manifests_frame [OF t tidy arr h(1)])
    have gp: "mf_snapshot_guid m \<in> set pins"
      using pin by (intro pin_is_read [OF t root h(2)]) (simp add: b1)
    have "k \<notin> backup_keys ?p x" if x: "x \<in> set (expired (in_scope only everything) pins cutoff n)" for x
    proof -
      have "mf_snapshot_guid x \<notin> set pins"
        using x roots_policy(1) [of x "in_scope only everything" pins cutoff n] by (auto simp: expired_def)
      then have "mf_snapshot_guid x \<noteq> mf_snapshot_guid m" using gp by auto
      then show ?thesis using k by (auto simp: backup_keys_def Let_def key_simps)
    qed
    with h(3) show ?thesis by (auto simp: only_deletes_def)
  qed
qed

end

end
