(* ===== verification/Clean.thy ===== *)
theory Clean
  imports Retention "HOL-Library.List_Lexorder" "HOL-Library.Char_ord"
begin

text \<open>
  \<open>src/cmd/clean.rs\<close>: removing objects no backup refers to. The laws: nothing a listed backup
  needs is deleted, however the run ends; after a success only referenced objects and sends in
  progress are left; a directory whose marker holds a live lease is not touched, as long as
  the marker can be read.
\<close>

text \<open>The snapshot directory an object belongs to; pins and stray objects have none.\<close>

definition group_of :: "string \<Rightarrow> string \<Rightarrow> (string \<times> string) option" where
  "group_of root key =
     (let rel = (case strip_prefix root key of Some r \<Rightarrow> r | None \<Rightarrow> key); parts = split_on slash rel
      in if length parts \<noteq> 3 \<or> parts ! 0 = ''pins'' then None else Some (parts ! 0, parts ! 1))"

definition group_files ::
  "string \<Rightarrow> (string \<times> u64) list \<Rightarrow> string \<times> string \<Rightarrow> (string \<times> u64) list" where
  "group_files root items g = filter (\<lambda>(k, _). group_of root k = Some g) items"

text \<open>The directories in the order of the \<open>BTreeMap\<close>.\<close>

definition groups :: "string \<Rightarrow> (string \<times> u64) list \<Rightarrow> (string \<times> string) list" where
  "groups root items = sort (remdups (some_values (map (\<lambda>(k, _). group_of root k) items)))"

definition name_in :: "string \<Rightarrow> string \<times> string \<Rightarrow> string \<Rightarrow> string" where
  "name_in root g f = root @ fst g @ ''/'' @ snd g @ ''/'' @ f"

definition has_file :: "string \<Rightarrow> (string \<times> u64) list \<Rightarrow> bool" where
  "has_file key files \<longleftrightarrow> (\<exists>f \<in> set files. fst f = key)"

definition expected_keys :: "'x target \<Rightarrow> string \<Rightarrow> manifest \<Rightarrow> string set" where
  "expected_keys t mkey m =
     insert mkey ((\<lambda>c. chunk_key (tg_prefix t) (mf_dataset_guid m) (mf_snapshot_guid m) (ck_seq c)) `
       set (mf_chunks m))"

text \<open>The garbage of one directory, and whether a send is in progress there.\<close>

definition clean_group ::
  "(bytes \<Rightarrow> string + manifest) \<Rightarrow> (bytes \<Rightarrow> string + pending) \<Rightarrow> 'x host \<Rightarrow> 'x target
     \<Rightarrow> (string \<times> u64) list \<Rightarrow> string \<times> string \<Rightarrow> ('x sys, error, (string \<times> u64) list \<times> bool) io" where
  "clean_group dec decp h t items g =
     (let root = all_manifests_prefix (tg_prefix t); files = group_files root items g;
          mkey = name_in root g ''manifest.json''; pkey = name_in root g ''pending.json'' in
      if \<not> has_file mkey files then
        (if has_file pkey files then
           try_io (store_get (tg_store t) pkey) (\<lambda>r s.
             case r of
               Inr b \<Rightarrow>
                 (case decp b of
                    Inr p \<Rightarrow> if lease_live p (ho_now h (ext s)) then (Inr ([], True), s) else (Inr (files, False), s)
                  | Inl _ \<Rightarrow> (Inr (files, False), s))
             | Inl _ \<Rightarrow> (Inr (files, False), s))
         else ret (files, False))
      else
        bind_io (err_io EStore (store_get (tg_store t) mkey)) (\<lambda>b.
        bind_io (lift_result (map_err (UnreadableManifest mkey) (dec b))) (\<lambda>m.
          ret (filter (\<lambda>(k, _). k \<notin> expected_keys t mkey m) files, False))))"

definition clean_run ::
  "(bytes \<Rightarrow> string + manifest) \<Rightarrow> (bytes \<Rightarrow> string + pending) \<Rightarrow> 'x host \<Rightarrow> 'x target \<Rightarrow> bool
     \<Rightarrow> ('x sys, error, (string \<times> u64) list) io" where
  "clean_run dec decp h t dry_run =
     (let root = all_manifests_prefix (tg_prefix t) in
      bind_io (err_io EStore (store_list (tg_store t) root)) (\<lambda>items.
      bind_io (map_io (clean_group dec decp h t items) (groups root items)) (\<lambda>gs.
        (let doomed = concat (map fst gs) in
         bind_io (if dry_run then ret ()
                  else for_each (\<lambda>(k, _). err_io EStore (store_delete (tg_store t) k)) doomed)
           (\<lambda>_. ret doomed)))))"

section \<open>Directories\<close>

lemma group_of_key:
  "slash \<notin> set f \<Longrightarrow>
   group_of (all_manifests_prefix p) (snapshot_dir p d s @ slash # f) = Some (guid_display d, guid_display s)"
  using guid_display_not_pins [of d "[]"] by (simp add: group_of_def rel_key split_rel_key)

lemma name_in_key:
  "name_in (all_manifests_prefix p) (guid_display d, guid_display s) f = snapshot_dir p d s @ slash # f"
  by (simp add: name_in_def all_manifests_prefix_def snapshot_dir_def)

lemma below_key: "below (key_root p) (snapshot_dir p d s @ slash # f)"
  by (simp add: below_def starts_with_iff snapshot_dir_def)

lemma group_of_name:
  assumes "group_of root k = Some g" "slash \<notin> set f"
  shows "group_of root (name_in root g f) = Some g"
proof -
  from assms(1) obtain rel where rel: "length (split_on slash rel) = 3"
    "split_on slash rel ! 0 \<noteq> ''pins''" "g = (split_on slash rel ! 0, split_on slash rel ! 1)"
    by (auto simp: group_of_def Let_def split: if_splits)
  then have "fst g \<in> set (split_on slash rel)" "snd g \<in> set (split_on slash rel)" by simp_all
  then have sep: "slash \<notin> set (fst g)" "slash \<notin> set (snd g)" by (simp_all only: split_on_pieces not_False_eq_True)
  have "strip_prefix root (name_in root g f) = Some (fst g @ slash # snd g @ slash # f)"
    by (simp add: strip_prefix_Some name_in_def)
  then show ?thesis
    using sep rel(2,3) assms(2) by (simp add: group_of_def split_on_append_sep split_on_no_sep)
qed

text \<open>The keys of a listed backup are in the directory of its GUIDs.\<close>

definition vital_keys :: "string \<Rightarrow> manifest \<Rightarrow> string set" where
  "vital_keys p m =
     insert (manifest_key p (mf_dataset_guid m) (mf_snapshot_guid m))
       ((\<lambda>c. chunk_key p (mf_dataset_guid m) (mf_snapshot_guid m) (ck_seq c)) ` set (mf_chunks m))"

lemma vital_group:
  assumes "k \<in> vital_keys p m"
  shows "group_of (all_manifests_prefix p) k
    = Some (guid_display (mf_dataset_guid m), guid_display (mf_snapshot_guid m))"
  using assms group_of_key [of "''manifest.json''"] group_of_key [of "chunk_file _"]
  by (auto simp: vital_keys_def key_files)

section \<open>What is doomed\<close>

text \<open>
  An object of the directory \<open>g\<close> is garbage of the bucket \<open>b\<close>: there is no manifest, or the
  manifest does not name it.
\<close>

definition garbage ::
  "(bytes \<Rightarrow> string + manifest) \<Rightarrow> 'x target \<Rightarrow> (string \<Rightarrow> bytes option) \<Rightarrow> string \<Rightarrow> bool" where
  "garbage dec t b k \<longleftrightarrow>
     (let root = all_manifests_prefix (tg_prefix t) in
      \<exists>g. group_of root k = Some g \<and>
        (b (name_in root g ''manifest.json'') = None \<or>
         (\<exists>v m. b (name_in root g ''manifest.json'') = Some v \<and> dec v = Inr m \<and>
            k \<notin> expected_keys t (name_in root g ''manifest.json'') m)))"

lemma garbage_not_vital:
  assumes "garbage dec t b k" "listed dec (tg_prefix t) b m"
  shows "k \<notin> vital_keys (tg_prefix t) m"
proof
  assume k: "k \<in> vital_keys (tg_prefix t) m"
  let ?root = "all_manifests_prefix (tg_prefix t)"
  let ?g = "(guid_display (mf_dataset_guid m), guid_display (mf_snapshot_guid m))"
  have n: "name_in ?root ?g ''manifest.json'' = manifest_key (tg_prefix t) (mf_dataset_guid m) (mf_snapshot_guid m)"
    by (simp only: name_in_key key_files)
  from assms(1) vital_group [OF k] assms(2) have
    "k \<notin> expected_keys t (name_in ?root ?g ''manifest.json'') m"
    by (auto simp: garbage_def Let_def listed_def n)
  with k show False by (auto simp: n expected_keys_def vital_keys_def)
qed

context s3_store
begin

lemma clean_group_ok:
  assumes t: "tg_store t = st" and tidy: "tidy (tg_prefix t) (contents s)"
    and items: "\<And>k n. (k, n) \<in> set items \<longleftrightarrow>
      (\<exists>v. contents s k = Some v \<and> below (key_root (tg_prefix t)) k \<and> n = of_nat (length v))"
    and v: "contents v = contents s" and run: "clean_group dec decp h t items g v = (r, v')"
  shows "contents v' = contents s"
    and "r = Inr (doomed, b) \<Longrightarrow> (k, n) \<in> set doomed \<Longrightarrow>
      (k, n) \<in> set items \<and> group_of (all_manifests_prefix (tg_prefix t)) k = Some g \<and> garbage dec t (contents s) k"
proof -
  let ?root = "all_manifests_prefix (tg_prefix t)"
  let ?m = "name_in ?root g ''manifest.json''" and ?p = "name_in ?root g ''pending.json''"
  let ?files = "group_files ?root items g"
  have below: "below (key_root (tg_prefix t)) (name_in ?root g f)" for f
    by (simp add: below_def starts_with_iff name_in_def all_manifests_prefix_def)
  have clean: "clean_path x" if "contents s x \<noteq> None" "below (key_root (tg_prefix t)) x" for x
    using tidy that by (simp add: tidy_def)
  have there: "contents s x \<noteq> None \<and> below (key_root (tg_prefix t)) x" if "has_file x ?files" for x
    using that items by (auto simp: has_file_def group_files_def)
  have mem: "(x, y) \<in> set ?files \<longleftrightarrow> (x, y) \<in> set items \<and> group_of ?root x = Some g" for x y
    by (auto simp: group_files_def)
  have res: "contents v' = contents s \<and> (\<forall>doomed b. r = Inr (doomed, b) \<longrightarrow> (\<forall>k n. (k, n) \<in> set doomed \<longrightarrow>
      (k, n) \<in> set ?files \<and> garbage dec t (contents s) k))"
  proof (cases "has_file ?m ?files")
    case no: False
    have absent: "contents s ?m = None" if "(k, n) \<in> set ?files" for k n
    proof (rule ccontr)
      assume "contents s ?m \<noteq> None"
      then obtain y where "contents s ?m = Some y" by blast
      then have "(?m, of_nat (length y)) \<in> set items" using items below by blast
      moreover have "group_of ?root ?m = Some g"
      proof -
        from that mem have "group_of ?root k = Some g" by blast
        then show ?thesis by (rule group_of_name) simp
      qed
      ultimately have "(?m, of_nat (length y)) \<in> set ?files" using mem by blast
      then have "has_file ?m ?files" unfolding has_file_def by (rule bexI [rotated]) simp
      with no show False by simp
    qed
    have garb: "garbage dec t (contents s) k" if "(k, n) \<in> set ?files" for k n
      unfolding garbage_def Let_def using that absent [OF that] mem by blast
    show ?thesis
    proof (cases "has_file ?p ?files")
      case True
      obtain r1 v1 where g: "store_get st ?p v = (r1, v1)" by fastforce
      have "clean_path ?p" using there [OF True] clean by blast
      then have "contents v1 = contents s" using bk.get_any [OF _ g] v by simp
      then show ?thesis
        using run no True g garb
        by (auto simp: clean_group_def Let_def try_io_def t split: sum.splits if_splits)
    next
      case False
      then show ?thesis using run no v garb by (auto simp: clean_group_def Let_def ret_def)
    qed
  next
    case yes: True
    have cl: "clean_path ?m" using there [OF yes] clean by blast
    obtain r1 v1 where g: "store_get st ?m v = (r1, v1)" by fastforce
    have b1: "contents v1 = contents s" using bk.get_any [OF cl g] v by simp
    show ?thesis
    proof (cases r1)
      case (Inl e)
      then show ?thesis
        using run yes g b1 by (auto simp: clean_group_def Let_def bind_io_def err_io_def t)
    next
      case (Inr y)
      have y: "contents s ?m = Some y" using bk.get_ok [OF cl g [unfolded Inr]] v by simp
      show ?thesis
      proof (cases "dec y")
        case (Inl e)
        then show ?thesis
          using run yes g b1 Inr
          by (auto simp: clean_group_def Let_def bind_io_def err_io_def t lift_result_def map_err_def)
      next
        case m: (Inr m)
        have "garbage dec t (contents s) k" if "(k, n) \<in> set ?files" "k \<notin> expected_keys t ?m m" for k n
          unfolding garbage_def Let_def using that y m mem by blast
        then show ?thesis
          using run yes g b1 Inr m
          by (auto simp: clean_group_def Let_def bind_io_def err_io_def t lift_result_def map_err_def ret_def)
      qed
    qed
  qed
  show "contents v' = contents s" using res by blast
  show "r = Inr (doomed, b) \<Longrightarrow> (k, n) \<in> set doomed \<Longrightarrow>
      (k, n) \<in> set items \<and> group_of ?root k = Some g \<and> garbage dec t (contents s) k"
    using res mem by blast
qed

lemma clean_run_cases:
  assumes t: "tg_store t = st" and tidy: "tidy (tg_prefix t) (contents s)"
    and run: "clean_run dec decp h t dry s = (r, s')"
  obtains (quiet) "contents s' = contents s" "dry \<or> isl r"
  | (deletes) items s1 gs s2 where
      "store_list st (key_root (tg_prefix t) @ ''/'') s = (Inr items, s1)"
      "map_io (clean_group dec decp h t items) (groups (all_manifests_prefix (tg_prefix t)) items) s1 = (Inr gs, s2)"
      "contents s1 = contents s" "contents s2 = contents s" "\<not> dry"
      "\<And>k n. (k, n) \<in> set (concat (map fst gs)) \<Longrightarrow> garbage dec t (contents s) k \<and> clean_path k"
      "for_each (\<lambda>(k, _). err_io EStore (store_delete st k)) (concat (map fst gs)) s2
         = (map_sum id (\<lambda>_. ()) r, s')"
proof -
  let ?root = "all_manifests_prefix (tg_prefix t)"
  have root: "clean_path (key_root (tg_prefix t))" using tidy by (simp add: tidy_def)
  have rt: "?root = key_root (tg_prefix t) @ ''/''" by (simp add: all_manifests_prefix_def)
  obtain rl s1 where 1: "store_list st ?root s = (rl, s1)" by fastforce
  have b1: "contents s1 = contents s" by (rule bk.list_any [OF root 1 [unfolded rt]])
  show thesis
  proof (cases rl)
    case (Inl e)
    then have "s' = s1" "isl r" using run 1 by (auto simp: clean_run_def Let_def bind_io_def err_io_def t)
    with b1 quiet show ?thesis by simp
  next
    case (Inr items)
    note ok = bk.list_ok [OF root 1 [unfolded rt Inr]]
    then have items: "(k, n) \<in> set items \<longleftrightarrow>
        (\<exists>v. contents s k = Some v \<and> below (key_root (tg_prefix t)) k \<and> n = of_nat (length v))" for k n
      by blast
    obtain rg s2 where 2: "map_io (clean_group dec decp h t items) (groups ?root items) s1 = (rg, s2)"
      by fastforce
    have keep: "keeps (\<lambda>v. contents v = contents s) (map_io (clean_group dec decp h t items) (groups ?root items))"
    proof (rule keeps_map_io)
      fix g
      show "keeps (\<lambda>v. contents v = contents s) (clean_group dec decp h t items g)"
        unfolding keeps_def using clean_group_ok(1) [OF t tidy items] by (metis prod.collapse)
    qed
    have b2: "contents s2 = contents s" using keepsD [OF keep b1 2] .
    show ?thesis
    proof (cases rg)
      case (Inl e)
      then have "s' = s2" "isl r" using run 1 2 Inr by (auto simp: clean_run_def Let_def bind_io_def err_io_def t)
      with b2 quiet show ?thesis by simp
    next
      case gs: (Inr gs)
      show ?thesis
      proof (cases dry)
        case True
        then have "s' = s2" using run 1 2 Inr gs
          by (auto simp: clean_run_def Let_def bind_io_def err_io_def t ret_def)
        with b2 quiet True show ?thesis by simp
      next
        case False
        have garb: "garbage dec t (contents s) k \<and> clean_path k" if k: "(k, n) \<in> set (concat (map fst gs))" for k n
        proof -
          from k obtain x where x: "x \<in> set gs" "(k, n) \<in> set (fst x)" by auto
          have "contents s2 = contents s \<and> list_all2 (\<lambda>g x. \<exists>v v'. contents v = contents s \<and>
              clean_group dec decp h t items g v = (Inr x, v')) (groups ?root items) gs"
            by (rule map_io_inv [where I = "\<lambda>v. contents v = contents s", OF 2 [unfolded gs] b1])
              (rule clean_group_ok(1) [OF t tidy items])
          then obtain g v v' where "contents v = contents s"
            "clean_group dec decp h t items g v = (Inr x, v')"
            using list_all2_in2 [OF _ x(1)] by blast
          with clean_group_ok(2) [OF t tidy items this, of "fst x" "snd x" k n] x(2)
          have "(k, n) \<in> set items" "garbage dec t (contents s) k" by simp_all
          with items tidy show ?thesis by (auto simp: tidy_def)
        qed
        have "for_each (\<lambda>(k, _). err_io EStore (store_delete st k)) (concat (map fst gs)) s2
            = (map_sum id (\<lambda>_. ()) r, s')"
          using run 1 2 Inr gs False
          by (cases "for_each (\<lambda>(k, _). err_io EStore (store_delete st k)) (concat (map fst gs)) s2";
              cases "fst (for_each (\<lambda>(k, _). err_io EStore (store_delete st k)) (concat (map fst gs)) s2)")
            (auto simp: clean_run_def Let_def bind_io_def err_io_def t ret_def)
        from deletes [OF 1 [unfolded rt Inr] 2 [unfolded gs] b1 b2 False garb this] show ?thesis .
      qed
    qed
  qed
qed

text \<open>Nothing a listed backup needs is deleted, however the run ends.\<close>

lemma clean_safe:
  assumes t: "tg_store t = st" and tidy: "tidy (tg_prefix t) (contents s)"
    and run: "clean_run dec decp h t dry s = (r, s')"
    and m: "listed dec (tg_prefix t) (contents s) m" and k: "k \<in> vital_keys (tg_prefix t) m"
  shows "contents s' k = contents s k"
  using t tidy run
proof (cases rule: clean_run_cases)
  case (deletes items s1 gs s2)
  have "keeps (\<lambda>v. contents v k = contents s k)
      (for_each (\<lambda>(k, _). err_io EStore (store_delete st k)) (concat (map fst gs)))"
  proof (rule keeps_for_each, clarify)
    fix k' n assume "(k', n) \<in> set (concat (map fst gs))"
    from deletes(6) [OF this] garbage_not_vital [OF _ m] k have "k' \<noteq> k" "clean_path k'" by auto
    then show "keeps (\<lambda>v. contents v k = contents s k) (err_io EStore (store_delete st k'))"
      by (intro delete_keeps [where P = "\<lambda>b. b k = contents s k"]) simp_all
  qed
  from keepsD [OF this _ deletes(7)] deletes(4) show ?thesis by simp
qed simp

lemma clean_sound:
  assumes t: "tg_store t = st" and tidy: "tidy (tg_prefix t) (contents s)"
    and run: "clean_run dec decp h t dry s = (r, s')"
    and sound: "sound_bucket dec blake (tg_prefix t) (contents s)"
  shows "sound_bucket dec blake (tg_prefix t) (contents s')"
  unfolding sound_bucket_def
proof (intro allI impI)
  fix m :: manifest
  let ?mk = "manifest_key (tg_prefix t) (mf_dataset_guid m) (mf_snapshot_guid m)"
  assume l': "listed dec (tg_prefix t) (contents s') m"
  have "contents s' ?mk = contents s ?mk \<or> contents s' ?mk = None"
    using t tidy run
  proof (cases rule: clean_run_cases)
    case (deletes items s1 gs s2)
    let ?P = "\<lambda>b. b ?mk = contents s ?mk \<or> b ?mk = None"
    have "keeps (\<lambda>v. ?P (contents v))
        (for_each (\<lambda>(k, _). err_io EStore (store_delete st k)) (concat (map fst gs)))"
    proof (rule keeps_for_each, clarify)
      fix k' n assume "(k', n) \<in> set (concat (map fst gs))"
      from deletes(6) [OF this] have "clean_path k'" by blast
      then show "keeps (\<lambda>v. ?P (contents v)) (err_io EStore (store_delete st k'))"
        by (intro delete_keeps [where P = ?P]) simp_all
    qed
    from keepsD [OF this _ deletes(7)] deletes(4) show ?thesis by simp
  qed simp
  with l' have l: "listed dec (tg_prefix t) (contents s) m" by (auto simp: listed_def)
  with sound have "backup_good blake (tg_prefix t) (contents s) m" by (simp add: sound_bucket_def)
  moreover have "contents s' k = contents s k" if "k \<in> vital_keys (tg_prefix t) m" for k
    using clean_safe [OF t tidy run l that] .
  ultimately show "backup_good blake (tg_prefix t) (contents s') m"
    by (auto simp: backup_good_def chunk_good_def vital_keys_def)
qed

text \<open>After a success every object of a snapshot directory is named by its manifest or belongs to a live send.\<close>

lemma clean_group_complete:
  assumes t: "tg_store t = st" and run: "clean_group dec decp h t items g v = (Inr (doomed, b), v')"
    and k: "(k, n) \<in> set (group_files (all_manifests_prefix (tg_prefix t)) items g)" "(k, n) \<notin> set doomed"
    and tidy: "tidy (tg_prefix t) (contents s)" and v: "contents v = contents s"
    and items: "\<And>k n. (k, n) \<in> set items \<longleftrightarrow>
      (\<exists>v. contents s k = Some v \<and> below (key_root (tg_prefix t)) k \<and> n = of_nat (length v))"
  shows "(\<exists>y m. contents s (name_in (all_manifests_prefix (tg_prefix t)) g ''manifest.json'') = Some y \<and>
      dec y = Inr m \<and> k \<in> expected_keys t (name_in (all_manifests_prefix (tg_prefix t)) g ''manifest.json'') m) \<or>
    (\<exists>y p x. contents s (name_in (all_manifests_prefix (tg_prefix t)) g ''pending.json'') = Some y \<and>
      decp y = Inr p \<and> lease_live p (ho_now h x))"
proof -
  let ?root = "all_manifests_prefix (tg_prefix t)"
  let ?m = "name_in ?root g ''manifest.json''" and ?p = "name_in ?root g ''pending.json''"
  let ?files = "group_files ?root items g"
  have cl: "clean_path x" if "has_file x ?files" for x
    using that items tidy by (auto simp: has_file_def group_files_def tidy_def)
  show ?thesis
  proof (cases "has_file ?m ?files")
    case False
    show ?thesis
    proof (cases "has_file ?p ?files")
      case True
      obtain r1 v1 where g: "store_get st ?p v = (r1, v1)" by fastforce
      from run k False True g obtain y p where y: "r1 = Inr y" "decp y = Inr p" "lease_live p (ho_now h (ext v1))"
        by (auto simp: clean_group_def Let_def try_io_def t split: sum.splits if_splits)
      have "contents s ?p = Some y" using bk.get_ok [OF cl [OF True] g [unfolded y(1)]] v by simp
      with y(2,3) show ?thesis by blast
    next
      case none: False
      then show ?thesis using run k False by (simp add: clean_group_def Let_def ret_def)
    qed
  next
    case True
    obtain r1 v1 where g: "store_get st ?m v = (r1, v1)" by fastforce
    from run k True g obtain y m where y: "r1 = Inr y" "dec y = Inr m" "k \<in> expected_keys t ?m m"
      by (cases r1; cases "dec (projr r1)")
        (auto simp: clean_group_def Let_def bind_io_def err_io_def t lift_result_def map_err_def ret_def)
    have "contents s ?m = Some y" using bk.get_ok [OF cl [OF True] g [unfolded y(1)]] v by simp
    with y(2,3) show ?thesis by blast
  qed
qed

text \<open>The same for the whole run.\<close>

lemma clean_run_complete:
  assumes t: "tg_store t = st" and tidy: "tidy (tg_prefix t) (contents s)"
    and run: "clean_run dec decp h t False s = (Inr doomed, s')"
    and k: "contents s' k \<noteq> None" "below (key_root (tg_prefix t)) k"
      "group_of (all_manifests_prefix (tg_prefix t)) k = Some g"
  shows "(\<exists>y m. contents s (name_in (all_manifests_prefix (tg_prefix t)) g ''manifest.json'') = Some y \<and>
      dec y = Inr m \<and> k \<in> expected_keys t (name_in (all_manifests_prefix (tg_prefix t)) g ''manifest.json'') m) \<or>
    (\<exists>y p x. contents s (name_in (all_manifests_prefix (tg_prefix t)) g ''pending.json'') = Some y \<and>
      decp y = Inr p \<and> lease_live p (ho_now h x))"
  using t tidy run
proof (cases rule: clean_run_cases)
  case (deletes items s1 gs s2)
  let ?root = "all_manifests_prefix (tg_prefix t)"
  have root: "clean_path (key_root (tg_prefix t))" using tidy by (simp add: tidy_def)
  from bk.list_ok [OF root deletes(1)] deletes(3)
  have items: "(k, n) \<in> set items \<longleftrightarrow>
      (\<exists>v. contents s k = Some v \<and> below (key_root (tg_prefix t)) k \<and> n = of_nat (length v))" for k n
    by simp
  have "for_each (store_delete st) (map fst ds) v = (Inr (), s')"
    if "for_each (\<lambda>(k, _). err_io EStore (store_delete st k)) ds v = (Inr (), s')" for ds :: "(string \<times> u64) list" and v
    using that by (induction ds arbitrary: v) (auto simp: bind_io_Inr err_io_Inr)
  from this [of _ s2] deletes(7)
  have del: "for_each (store_delete st) (map fst (concat (map fst gs))) s2 = (Inr (), s')" by simp
  have "\<forall>k \<in> set (map fst (concat (map fst gs))). clean_path k" using deletes(6) by fastforce
  from bk.del_all [OF this del] deletes(4)
  have s': "contents s' = (\<lambda>k. if k \<in> set (map fst (concat (map fst gs))) then None else contents s k)"
    by (simp only: fun_eq_iff) simp
  with k(1) obtain v where v: "contents s k = Some v" "k \<notin> set (map fst (concat (map fst gs)))"
    by (auto split: if_splits)
  then have item: "(k, of_nat (length v)) \<in> set items" using items k(2) by blast
  then have filed: "(k, of_nat (length v)) \<in> set (group_files ?root items g)" using k(3) by (simp add: group_files_def)
  have "Some g \<in> set (map (\<lambda>(k, _). group_of ?root k) items)" using item k(3) by force
  moreover have "y \<in> set (some_values xs)" if "Some y \<in> set xs" for y and xs :: "'b option list"
    using that by (force simp: some_values_def)
  ultimately have g: "g \<in> set (groups ?root items)" by (simp only: groups_def set_sort set_remdups)
  have "contents s2 = contents s \<and> list_all2 (\<lambda>g x. \<exists>v v'. contents v = contents s \<and>
      clean_group dec decp h t items g v = (Inr x, v')) (groups ?root items) gs"
    by (rule map_io_inv [where I = "\<lambda>v. contents v = contents s", OF deletes(2,3)])
      (rule clean_group_ok(1) [OF t tidy items])
  then obtain x w w' where x: "x \<in> set gs" "contents w = contents s"
    "clean_group dec decp h t items g w = (Inr x, w')" using list_all2_in1 [OF _ g] by blast
  have "(k, of_nat (length v)) \<notin> set (fst x)"
  proof
    assume "(k, of_nat (length v)) \<in> set (fst x)"
    then have "k \<in> set (map fst (concat (map fst gs)))" using x(1) by force
    with v(2) show False by contradiction
  qed
  with clean_group_complete [OF t _ filed _ tidy x(2) items, of dec decp h "fst x" "snd x" w'] x(3)
  show ?thesis by simp
qed (simp add: isl_def)

end

end
