(* ===== verification/Reclaim_Properties.thy ===== *)
theory Reclaim_Properties
  imports Clean
begin

text \<open>
  What the commands that delete guarantee: \<open>retention\<close> (\<open>src/cmd/retention.rs\<close>) and \<open>clean\<close>
  (\<open>src/cmd/clean.rs\<close>). Every statement about a run holds for every outcome of the calls it
  makes, an interruption at any point included; the witnesses run on the bucket in memory.
\<close>

section \<open>What retention keeps\<close>

text \<open>C17: The snapshots kept are exactly those the policy asks for and their ancestors: the result of the
  worklist loop is the least set that holds the roots (the newest of each dataset, those
  younger than the cutoff, the pinned ones) and, with a snapshot, its base, whatever the order in which the
  loop visits them.\<close>

theorem keep_set_is_closure:
  "(g \<in> set (keep_set all pins cutoff n)) = needed all (set (keep_roots all pins cutoff n)) g"
  by (rule keep_set_iff)

text \<open>C16: No chain is broken: with distinct snapshot GUIDs, a backup that could be restored before and is
  kept can be restored from the kept backups alone.\<close>

theorem kept_stays_restorable:
  assumes "distinct (map mf_snapshot_guid all)" "restorable all m" "m \<in> set all"
    "mf_snapshot_guid m \<in> set (keep_set all pins cutoff n)"
  shows "restorable (filter (\<lambda>x. mf_snapshot_guid x \<in> set (keep_set all pins cutoff n)) all) m"
  using assms by (rule kept_restorable)

theorem kept_stays_restorable_witness:
  "restorable (filter (\<lambda>x. mf_snapshot_guid x \<in> set (keep_set [sample_full, sample_incr] [] None 1))
     [sample_full, sample_incr]) sample_incr"
proof (rule kept_stays_restorable)
  have f: "List.find (\<lambda>x. mf_snapshot_guid x = Guid 16) [sample_full, sample_incr] = Some sample_full"
    and g: "mf_from_guid sample_incr = Some (Guid 16)" "mf_from_guid sample_full = None" by code_simp+
  show "restorable [sample_full, sample_incr] sample_incr"
    by (rule restorable.incr [OF g(1) f]) (rule restorable.full [OF g(2)])
  show "distinct (map mf_snapshot_guid [sample_full, sample_incr])" by code_simp
  show "mf_snapshot_guid sample_incr \<in> set (keep_set [sample_full, sample_incr] [] None 1)" by code_simp
qed simp

text \<open>C29: A backup is deleted only when it has been outlived: at least \<open>keep_last\<close> other backups of its own
  dataset, none archived earlier, are kept; it is no younger than the cutoff allows and it is not pinned.\<close>

theorem doomed_is_outlived:
  assumes "m \<in> set all" "mf_snapshot_guid m \<notin> set (keep_set all pins cutoff n)"
  shows "n \<le> length (filter (\<lambda>x. mf_dataset_guid x = mf_dataset_guid m \<and>
      mf_created_at m \<le> mf_created_at x \<and> mf_snapshot_guid x \<in> set (keep_set all pins cutoff n)) all) \<and>
    (\<forall>c. cutoff = Some c \<longrightarrow> mf_created_at m \<le> c) \<and> mf_snapshot_guid m \<notin> set pins"
proof -
  have "mf_created_at m \<le> c" if "cutoff = Some c" for c
    using roots_policy(2) [OF assms(1), of cutoff c pins n] that assms(2) by force
  with doomed_outlived [OF assms] roots_policy(1) [OF assms(1), of pins cutoff n] assms(2) show ?thesis by blast
qed

text \<open>A newer full backup, which makes the sample's chain dispensable.\<close>

definition sample_newer :: manifest where
  "sample_newer = sample_manifest ''tank/a@3'' (Guid 48) None 30 [[9]]"

theorem doomed_is_outlived_witness:
  "mf_snapshot_guid sample_incr \<notin> set (keep_set [sample_full, sample_incr, sample_newer] [] (Some 25) 1) \<and>
   mf_created_at sample_incr \<le> 25 \<and>
   1 \<le> length (filter (\<lambda>x. mf_dataset_guid x = mf_dataset_guid sample_incr \<and>
      mf_created_at sample_incr \<le> mf_created_at x \<and>
      mf_snapshot_guid x \<in> set (keep_set [sample_full, sample_incr, sample_newer] [] (Some 25) 1))
      [sample_full, sample_incr, sample_newer])"
proof -
  have "mf_snapshot_guid sample_incr \<notin> set (keep_set [sample_full, sample_incr, sample_newer] [] (Some 25) 1)"
    by code_simp
  with doomed_is_outlived [OF _ this] show ?thesis by simp
qed

text \<open>Ages are bounded before any date arithmetic: an accepted \<open>--older-than\<close> is not negative and
  less than 36501 days, so the duration is built and subtracted from the clock without overflow;
  absurdly long ages are refused with an error and not by a panic.\<close>

theorem age_bounded:
  assumes "parse_age s = Inr d"
  shows "0 \<le> d \<and> d < 36501 * 86400 * 1000000000"
  using assms
  by (auto simp: parse_age_def Let_def MAX_AGE_DAYS_def saturating_mul_i64_def
      split: option.splits sum.splits if_splits)

theorem age_bounded_witness:
  "parse_age '' 12w '' = Inr (84 * 86400 * 1000000000) \<and>
   (84 :: int) * 86400 * 1000000000 < 36501 * 86400 * 1000000000 \<and>
   parse_age ''9223372036854775807d'' = Inl AgeTooLong"
proof -
  have "parse_age '' 12w '' = Inr (84 * 86400 * 1000000000)" by code_simp
  moreover have "parse_age ''9223372036854775807d'' = Inl AgeTooLong" by code_simp
  ultimately show ?thesis using age_bounded [of "'' 12w ''"] by auto
qed

section \<open>What a run of retention does\<close>

text \<open>
  The sample with a newer full backup: \<open>--keep-last 1\<close> deletes the chain of two.
\<close>

definition newer_dec :: "bytes \<Rightarrow> string + manifest" where
  "newer_dec b = (if b = [3] then Inr sample_newer else sample_dec b)"

definition newer_objects :: "(string \<times> bytes) list" where
  "newer_objects = sample_objects @
     [(manifest_key ''t'' (Guid 1) (Guid 48), [3]), (chunk_key ''t'' (Guid 1) (Guid 48) 0, [9])]"

lemma newer_tidy: "tidy (tg_prefix mem_target) (mem_view (ext (mem_sys newer_objects fates)))"
proof -
  have root: "clean_path (key_root ''t'')" by code_simp
  then show ?thesis
    by (simp add: newer_objects_def sample_objects_def clean_keys mem_tidy)
qed

definition newer_run :: "fate list \<Rightarrow> (error + unit) \<times> mem sys" where
  "newer_run fates = retention_run newer_dec rev (mem_host []) mem_target None (Some 1) None False
     (mem_sys newer_objects fates)"

lemma newer_runs:
  "fst (newer_run []) = Inr ()"
  "mem_view (ext (snd (newer_run []))) (manifest_key ''t'' (Guid 1) (Guid 32)) = None"
  "mem_view (ext (snd (newer_run []))) (manifest_key ''t'' (Guid 1) (Guid 48)) = Some [3]"
proof -
  have "case newer_run [] of (r, s) \<Rightarrow> r = Inr () \<and>
      mem_view (ext s) (manifest_key ''t'' (Guid 1) (Guid 32)) = None \<and>
      mem_view (ext s) (manifest_key ''t'' (Guid 1) (Guid 48)) = Some [3]" by code_simp
  then show "fst (newer_run []) = Inr ()"
    "mem_view (ext (snd (newer_run []))) (manifest_key ''t'' (Guid 1) (Guid 32)) = None"
    "mem_view (ext (snd (newer_run []))) (manifest_key ''t'' (Guid 1) (Guid 48)) = Some [3]"
    by (simp_all add: case_prod_beta)
qed

lemma newer_sound: "sound_bucket newer_dec digest (tg_prefix mem_target) (mem_view (ext (mem_sys newer_objects fates)))"
  unfolding sound_bucket_def
proof (intro allI impI)
  fix m :: manifest
  assume "listed newer_dec (tg_prefix mem_target) (mem_view (ext (mem_sys newer_objects fates))) m"
  then have "m \<in> {sample_full, sample_incr, sample_newer}"
    by (auto simp: listed_def newer_dec_def sample_dec_def split: if_splits)
  moreover have c: "mf_chunks sample_full = [sample_chunk 0 [1, 2, 3], sample_chunk 1 [4]]"
    "mf_chunks sample_incr = [sample_chunk 0 [5, 6]]" "mf_chunks sample_newer = [sample_chunk 0 [9]]"
    by code_simp+
  moreover have "mf_dataset_guid sample_full = Guid 1" "mf_dataset_guid sample_incr = Guid 1"
    "mf_dataset_guid sample_newer = Guid 1" "mf_snapshot_guid sample_full = Guid 16"
    "mf_snapshot_guid sample_incr = Guid 32" "mf_snapshot_guid sample_newer = Guid 48"
    by (simp_all add: sample_full_def sample_incr_def sample_newer_def sample_manifest_def)
  ultimately show "backup_good digest (tg_prefix mem_target) (mem_view (ext (mem_sys newer_objects fates))) m"
    by (auto simp: backup_good_def chunk_good_def mem_sys_view newer_objects_def sample_objects_def
        key_simps sample_chunk_def)
qed

text \<open>C10: However a retention run ends, a failure or an interruption between any two calls included, it
  leaves no listed backup with missing data: if every backup the bucket lists had its chunks
  before, so it has afterwards. The manifest goes before its chunks.\<close>

theorem retention_leaves_sound:
  assumes "s3_store be view st" "tg_store t = st" "tidy (tg_prefix t) (view (ext s))"
    and "\<And>xs. mset (arrival xs) = mset xs"
    and "retention_run dec arrival h t older keep only dry s = (r, s')"
    and "sound_bucket dec blake (tg_prefix t) (view (ext s))"
  shows "sound_bucket dec blake (tg_prefix t) (view (ext s'))"
proof -
  have arr: "set (arrival xs) = set xs" for xs using assms(4) mset_eq_setD by blast
  show ?thesis by (rule s3_store.retention_sound [OF assms(1-3) arr assms(5,6)])
qed

theorem retention_leaves_sound_witness:
  "fst (newer_run []) = Inr () \<and> sound_bucket newer_dec digest ''t'' (mem_view (ext (snd (newer_run []))))"
proof -
  have run: "retention_run newer_dec rev (mem_host []) mem_target None (Some 1) None False (mem_sys newer_objects [])
      = (fst (newer_run []), snd (newer_run []))" by (simp add: newer_run_def)
  from retention_leaves_sound [OF mem_bucket.s3_store_axioms mem_target_simps(1) newer_tidy mset_rev run newer_sound]
  show ?thesis using newer_runs(1) by simp
qed



text \<open>The same run with the first snapshot pinned.\<close>

definition pinned_run :: "(error + unit) \<times> mem sys" where
  "pinned_run = retention_run newer_dec rev (mem_host []) mem_target None (Some 1) None False
     (mem_sys ((pin_key ''t'' (Guid 16), [0]) # newer_objects) [])"

text \<open>C28: A pin protects: however the run ends, no object of a pinned backup is deleted, whatever the policy.\<close>

theorem retention_spares_pinned:
  assumes "s3_store be view st" "tg_store t = st" "tidy (tg_prefix t) (view (ext s))"
    and "\<And>xs. mset (arrival xs) = mset xs"
    and "retention_run dec arrival h t older keep only dry s = (r, s')"
    and "view (ext s) (pin_key (tg_prefix t) (mf_snapshot_guid m)) \<noteq> None" "k \<in> backup_keys (tg_prefix t) m"
  shows "view (ext s') k = view (ext s) k"
proof -
  have arr: "set (arrival xs) = set xs" for xs using assms(4) mset_eq_setD by blast
  show ?thesis by (rule s3_store.retention_pinned [OF assms(1-3) arr assms(5-7)])
qed

theorem retention_spares_pinned_witness:
  "fst pinned_run = Inr () \<and>
   mem_view (ext (snd pinned_run)) (chunk_key ''t'' (Guid 1) (Guid 16) 1) = Some [4]"
proof -
  let ?objs = "(pin_key ''t'' (Guid 16), [0]) # newer_objects"
  have run: "retention_run newer_dec rev (mem_host []) mem_target None (Some 1) None False (mem_sys ?objs [])
      = (fst pinned_run, snd pinned_run)" by (simp add: pinned_run_def)
  have ok: "fst pinned_run = Inr ()" by code_simp
  have "clean_path (key_root ''t'')" by code_simp
  then have tidy: "tidy (tg_prefix mem_target) (mem_view (ext (mem_sys ?objs [])))"
    by (simp add: newer_objects_def sample_objects_def clean_keys mem_tidy)
  have g: "mf_snapshot_guid sample_full = Guid 16" "mf_dataset_guid sample_full = Guid 1"
    "mf_chunks sample_full = [sample_chunk 0 [1, 2, 3], sample_chunk 1 [4]]" by code_simp+
  have k: "chunk_key ''t'' (Guid 1) (Guid 16) 1 \<in> backup_keys (tg_prefix mem_target) sample_full"
    by (simp add: backup_keys_def Let_def g sample_chunk_def)
  have pin: "mem_view (ext (mem_sys ?objs [])) (pin_key (tg_prefix mem_target) (mf_snapshot_guid sample_full)) \<noteq> None"
    by (simp add: mem_sys_view g)
  from retention_spares_pinned [OF mem_bucket.s3_store_axioms mem_target_simps(1) tidy mset_rev run pin k] ok
  show ?thesis by (simp add: mem_sys_view newer_objects_def sample_objects_def key_simps)
qed

text \<open>A run that fails when it is about to delete the second manifest.\<close>

definition cut_short :: "fate list" where
  "cut_short = replicate 10 Works @ [FailsBefore]"

lemma cut_short_run:
  "\<exists>e. fst (newer_run cut_short) = Inl e"
  "mem_view (ext (snd (newer_run cut_short))) (manifest_key ''t'' (Guid 1) (Guid 16)) = None"
  "mem_view (ext (snd (newer_run cut_short))) (manifest_key ''t'' (Guid 1) (Guid 32)) = Some [2]"
proof -
  have "case newer_run cut_short of (r, s) \<Rightarrow> isl r \<and>
      mem_view (ext s) (manifest_key ''t'' (Guid 1) (Guid 16)) = None \<and>
      mem_view (ext s) (manifest_key ''t'' (Guid 1) (Guid 32)) = Some [2]" by code_simp
  then show "\<exists>e. fst (newer_run cut_short) = Inl e"
    "mem_view (ext (snd (newer_run cut_short))) (manifest_key ''t'' (Guid 1) (Guid 16)) = None"
    "mem_view (ext (snd (newer_run cut_short))) (manifest_key ''t'' (Guid 1) (Guid 32)) = Some [2]"
    by (auto simp: case_prod_beta isl_def)
qed

text \<open>
  What an interruption does leave: the expired backups are deleted oldest first, so an increment
  can be listed when its base is already gone. It has its chunks, but no restore can use it.
\<close>

theorem interrupted_retention_strands_increment:
  "mem_view (ext (snd (newer_run cut_short))) (manifest_key ''t'' (Guid 1) (Guid 32)) = Some [2] \<and>
   newer_dec [2] = Inr sample_incr \<and> mf_from_guid sample_incr = Some (Guid 16) \<and>
   mem_view (ext (snd (newer_run cut_short))) (manifest_key ''t'' (Guid 1) (Guid 16)) = None \<and>
   chain_of [sample_incr, sample_newer] ''tank/a@2'' = Inl (BrokenChain (Guid 16) ''tank/a@2'')"
proof -
  have "newer_dec [2] = Inr sample_incr" "mf_from_guid sample_incr = Some (Guid 16)"
    "chain_of [sample_incr, sample_newer] ''tank/a@2'' = Inl (BrokenChain (Guid 16) ''tank/a@2'')"
    by code_simp+
  with cut_short_run show ?thesis by simp
qed

section \<open>What clean does\<close>

text \<open>C11: \<open>clean\<close> never harms a backup: however the run ends, every object that a listed backup needs (its
  manifest and its chunks) is as it was, so a bucket whose listed backups had all their chunks still does.\<close>

theorem clean_keeps_backups:
  assumes "s3_store be view st" "tg_store t = st" "tidy (tg_prefix t) (view (ext s))"
    and "clean_run dec decp h t dry s = (r, s')"
  shows "(\<forall>m. listed dec (tg_prefix t) (view (ext s)) m \<longrightarrow>
      (\<forall>k \<in> vital_keys (tg_prefix t) m. view (ext s') k = view (ext s) k)) \<and>
    (sound_bucket dec blake (tg_prefix t) (view (ext s)) \<longrightarrow> sound_bucket dec blake (tg_prefix t) (view (ext s')))"
  using s3_store.clean_safe [OF assms] s3_store.clean_sound [OF assms] by blast

text \<open>
  The sample with the remains of an abandoned send (GUID 64) and a send in progress (GUID 80),
  whose marker was refreshed now.
\<close>

definition live_marker :: pending where
  "live_marker = \<lparr>pd_from_guid = None, pd_send_flags = send_flags_default, pd_chunk_size = 64,
     pd_run_id = 1, pd_refreshed_at = 0\<rparr>"

definition marker_dec :: "bytes \<Rightarrow> string + pending" where
  "marker_dec b = (if b = [8] then Inr live_marker else Inl ''not JSON'')"

definition littered_objects :: "(string \<times> bytes) list" where
  "littered_objects = sample_objects @
     [(chunk_key ''t'' (Guid 1) (Guid 64) 0, [7]), (pending_key ''t'' (Guid 1) (Guid 80), [8]),
      (chunk_key ''t'' (Guid 1) (Guid 80) 0, [6, 6])]"

definition littered_run :: "fate list \<Rightarrow> (error + (string \<times> u64) list) \<times> mem sys" where
  "littered_run fates = clean_run sample_dec marker_dec (mem_host []) mem_target False
     (mem_sys littered_objects fates)"

lemma littered_tidy: "tidy (tg_prefix mem_target) (mem_view (ext (mem_sys littered_objects fates)))"
proof -
  have root: "clean_path (key_root ''t'')" by code_simp
  then show ?thesis
    by (simp add: littered_objects_def sample_objects_def clean_keys mem_tidy)
qed

lemma littered_runs:
  "fst (littered_run []) = Inr [(chunk_key ''t'' (Guid 1) (Guid 64) 0, 1)]"
  "mem_view (ext (snd (littered_run []))) (chunk_key ''t'' (Guid 1) (Guid 80) 0) = Some [6, 6]"
proof -
  have "case littered_run [] of (r, s) \<Rightarrow> r = Inr [(chunk_key ''t'' (Guid 1) (Guid 64) 0, 1)] \<and>
      mem_view (ext s) (chunk_key ''t'' (Guid 1) (Guid 80) 0) = Some [6, 6]" by code_simp
  then show "fst (littered_run []) = Inr [(chunk_key ''t'' (Guid 1) (Guid 64) 0, 1)]"
    "mem_view (ext (snd (littered_run []))) (chunk_key ''t'' (Guid 1) (Guid 80) 0) = Some [6, 6]"
    by (simp_all add: case_prod_beta)
qed

lemma littered_vital:
  "listed sample_dec (tg_prefix mem_target) (mem_view (ext (mem_sys littered_objects fates))) sample_full"
  "chunk_key ''t'' (Guid 1) (Guid 16) 1 \<in> vital_keys (tg_prefix mem_target) sample_full"
proof -
  have g: "mf_snapshot_guid sample_full = Guid 16" "mf_dataset_guid sample_full = Guid 1"
    "mf_chunks sample_full = [sample_chunk 0 [1, 2, 3], sample_chunk 1 [4]]" by code_simp+
  show "listed sample_dec (tg_prefix mem_target) (mem_view (ext (mem_sys littered_objects fates))) sample_full"
    by (simp add: listed_def g mem_sys_view littered_objects_def sample_objects_def key_simps sample_dec_def)
  show "chunk_key ''t'' (Guid 1) (Guid 16) 1 \<in> vital_keys (tg_prefix mem_target) sample_full"
    by (simp add: vital_keys_def g sample_chunk_def)
qed

theorem clean_keeps_backups_witness:
  "isl (fst (littered_run [])) = False \<and>
   mem_view (ext (snd (littered_run []))) (chunk_key ''t'' (Guid 1) (Guid 16) 1) = Some [4]"
proof -
  have run: "clean_run sample_dec marker_dec (mem_host []) mem_target False (mem_sys littered_objects [])
      = (fst (littered_run []), snd (littered_run []))" by (simp add: littered_run_def)
  from clean_keeps_backups [OF mem_bucket.s3_store_axioms mem_target_simps(1) littered_tidy run] littered_vital
  have "mem_view (ext (snd (littered_run []))) (chunk_key ''t'' (Guid 1) (Guid 16) 1)
      = mem_view (ext (mem_sys littered_objects [])) (chunk_key ''t'' (Guid 1) (Guid 16) 1)" by blast
  with littered_runs(1) show ?thesis by (simp add: mem_sys_view littered_objects_def sample_objects_def key_simps)
qed

text \<open>C27: After a successful \<open>clean\<close> no garbage is left: every object still in a snapshot directory is named by the
  manifest of that directory, or there is a resume marker there with a live lease, a send in
  progress.\<close>

theorem clean_is_complete:
  assumes "s3_store be view st" "tg_store t = st" "tidy (tg_prefix t) (view (ext s))"
    and "clean_run dec decp h t False s = (Inr doomed, s')"
    and "view (ext s') k \<noteq> None" "below (key_root (tg_prefix t)) k"
      "group_of (all_manifests_prefix (tg_prefix t)) k = Some g"
  shows "(\<exists>y m. view (ext s) (name_in (all_manifests_prefix (tg_prefix t)) g ''manifest.json'') = Some y \<and>
      dec y = Inr m \<and> k \<in> expected_keys t (name_in (all_manifests_prefix (tg_prefix t)) g ''manifest.json'') m) \<or>
    (\<exists>y p x. view (ext s) (name_in (all_manifests_prefix (tg_prefix t)) g ''pending.json'') = Some y \<and>
      decp y = Inr p \<and> lease_live p (ho_now h x))"
  using assms by (rule s3_store.clean_run_complete)

theorem clean_is_complete_witness:
  "fst (littered_run []) = Inr [(chunk_key ''t'' (Guid 1) (Guid 64) 0, 1)] \<and>
   mem_view (ext (snd (littered_run []))) (chunk_key ''t'' (Guid 1) (Guid 64) 0) = None"
proof -
  have run: "clean_run sample_dec marker_dec (mem_host []) mem_target False (mem_sys littered_objects [])
      = (Inr [(chunk_key ''t'' (Guid 1) (Guid 64) 0, 1)], snd (littered_run []))"
    using littered_runs(1) by (simp add: littered_run_def prod_eq_iff)
  have key: "below (key_root (tg_prefix mem_target)) (chunk_key ''t'' (Guid 1) (Guid 64) 0)"
    "group_of (all_manifests_prefix (tg_prefix mem_target)) (chunk_key ''t'' (Guid 1) (Guid 64) 0)
      = Some (guid_display (Guid 1), guid_display (Guid 64))"
    using below_key group_of_key [of "chunk_file 0"] by (simp_all add: key_files)
  have files: "name_in (all_manifests_prefix (tg_prefix mem_target)) (guid_display (Guid 1), guid_display (Guid 64)) ''manifest.json''
      = manifest_key ''t'' (Guid 1) (Guid 64)"
    "name_in (all_manifests_prefix (tg_prefix mem_target)) (guid_display (Guid 1), guid_display (Guid 64)) ''pending.json''
      = pending_key ''t'' (Guid 1) (Guid 64)"
    by (simp_all only: name_in_key key_files mem_target_simps)
  have "mem_view (ext (mem_sys littered_objects [])) (manifest_key ''t'' (Guid 1) (Guid 64)) = None"
    "mem_view (ext (mem_sys littered_objects [])) (pending_key ''t'' (Guid 1) (Guid 64)) = None"
    by (simp_all add: mem_sys_view littered_objects_def sample_objects_def key_simps)
  with clean_is_complete [OF mem_bucket.s3_store_axioms mem_target_simps(1) littered_tidy run _ key] littered_runs(1)
  show ?thesis unfolding files by (cases "mem_view (ext (snd (littered_run []))) (chunk_key ''t'' (Guid 1) (Guid 64) 0)") auto
qed

text \<open>
  The exception to "a send in progress is left alone": when the marker of a live send cannot
  be read, its directory is taken for abandoned and its chunks are deleted.
\<close>

theorem clean_deletes_live_send:
  "lease_live live_marker 0 \<and>
   map_of littered_objects (pending_key ''t'' (Guid 1) (Guid 80)) = Some [8] \<and> marker_dec [8] = Inr live_marker \<and>
   map_of littered_objects (chunk_key ''t'' (Guid 1) (Guid 80) 0) = Some [6, 6] \<and>
   mem_view (ext (snd (littered_run [Works, Works, Works, FailsBefore]))) (chunk_key ''t'' (Guid 1) (Guid 80) 0) = None"
proof -
  have "mem_view (ext (snd (littered_run [Works, Works, Works, FailsBefore]))) (chunk_key ''t'' (Guid 1) (Guid 80) 0) = None"
    "lease_live live_marker 0" "marker_dec [8] = Inr live_marker"
    by code_simp+
  then show ?thesis by (simp add: littered_objects_def sample_objects_def key_simps)
qed

end
