(* ===== verification/Send.thy ===== *)
theory Send
  imports Targets Stream_Parser
begin

text \<open>
  \<open>src/cmd/send.rs\<close>: archiving one snapshot. A \<open>zfs send\<close> is a finite list of what its pipe
  delivers together with its exit; the completion order of the parallel uploads and which
  uploads of an abandoned run still land are parameters (\<open>picks\<close>, \<open>lands\<close>). An upload takes effect
  when it is joined. A signal is the failure of the call it interrupts. The laws are in \<open>Send_Laws\<close>.
\<close>

section \<open>Constants and arguments\<close>

definition JOB :: string where "JOB = ''default''"
definition MIN_CHUNK :: u64 where "MIN_CHUNK = push_bit 20 5"
definition MAX_CHUNK :: u64 where "MAX_CHUNK = push_bit 30 5"
definition LEASE_REFRESH :: int where "LEASE_REFRESH = 60 * 1000000000"
definition ADAPTIVE_TARGET_CHUNKS :: u64 where "ADAPTIVE_TARGET_CHUNKS = 1000"

text \<open>\<open>clamp\<close> and \<open>div_ceil\<close> of \<open>u64\<close>.\<close>

definition clamp :: "u64 \<Rightarrow> u64 \<Rightarrow> u64 \<Rightarrow> u64" where
  "clamp x lo hi = (if x < lo then lo else if hi < x then hi else x)"

definition div_ceil :: "u64 \<Rightarrow> u64 \<Rightarrow> u64" where
  "div_ceil x y = (let q = x div y in if x mod y > 0 then q + 1 else q)"

definition adaptive_chunk_size :: "u64 \<Rightarrow> u64 \<Rightarrow> u64 \<Rightarrow> u64" where
  "adaptive_chunk_size tot lo hi =
     (let unit = push_bit 20 16; raw = clamp (tot div ADAPTIVE_TARGET_CHUNKS) lo hi
      in clamp (saturating_mul (div_ceil raw unit) unit) lo hi)"

record args =
  ag_snapshot :: string
  ag_from :: "string option"
  ag_full :: bool
  ag_chunk_size :: u64
  ag_adaptive :: bool
  ag_min :: u64
  ag_max :: u64
  ag_parallel :: nat

definition check_args :: "args \<Rightarrow> error + unit" where
  "check_args a =
     (if ag_chunk_size a < MIN_CHUNK then Inl (Message ''chunk size must be at least 5MiB'')
      else if MAX_CHUNK < ag_chunk_size a
      then Inl (Message ''chunk size must be at most 5GiB (a chunk is one PutObject, held in memory)'')
      else if ag_adaptive a \<and> (ag_min a < MIN_CHUNK \<or> MAX_CHUNK < ag_max a)
      then Inl (Message ''adaptive chunk bounds must be within 5MiB-5GiB'')
      else if ag_adaptive a \<and> ag_max a < ag_min a
      then Inl (Message ''--adaptive-chunk-min must not exceed --adaptive-chunk-max'')
      else Inr ())"

definition chosen_chunk_size :: "args \<Rightarrow> u64 option \<Rightarrow> u64" where
  "chosen_chunk_size a est =
     (if ag_adaptive a
      then (case est of Some n \<Rightarrow> adaptive_chunk_size n (ag_min a) (ag_max a) | None \<Rightarrow> ag_chunk_size a)
      else ag_chunk_size a)"

text \<open>The JSON codec and \<open>hex::encode\<close>.\<close>

record codec =
  co_enc :: "manifest \<Rightarrow> string + bytes"
  co_dec :: "bytes \<Rightarrow> string + manifest"
  co_encp :: "pending \<Rightarrow> string + bytes"
  co_decp :: "bytes \<Rightarrow> string + pending"
  co_hex :: "bytes \<Rightarrow> string"

section \<open>The base of the increment\<close>

definition zfs_io :: "'x host \<Rightarrow> ('x runner \<Rightarrow> ('x, zfs_error, 'a) io) \<Rightarrow> ('x sys, error, 'a) io" where
  "zfs_io h m = err_io EZfs (on_ext (m (ho_zfs h)))"

definition resolve_base_guid :: "'x host \<Rightarrow> string \<Rightarrow> string \<Rightarrow> ('x sys, error, guid) io" where
  "resolve_base_guid h ds from_name =
     (let full = (if starts_with ''@'' from_name \<or> starts_with ''#'' from_name then ds @ from_name else from_name) in
      if contains_str ''#'' full
      then bind_io (zfs_io h (\<lambda>sh. bookmarks sh ds)) (\<lambda>marks.
             lift_result (ok_or (map_option zb_guid (List.find (\<lambda>b. zb_name b = full) marks))
               (Message (''bookmark '' @ full @ '' not found''))))
      else bind_io (zfs_io h (\<lambda>sh. snapshot sh full)) (\<lambda>s. ret (zs_guid s)))"

fun pick_base ::
  "zfs_snapshot list \<Rightarrow> zfs_bookmark list \<Rightarrow> u64 \<Rightarrow> manifest list \<Rightarrow> (string \<times> guid) option" where
  "pick_base snaps marks to_txg [] = None"
| "pick_base snaps marks to_txg (m # ms) =
     (case List.find (\<lambda>s. zs_guid s = mf_snapshot_guid m \<and> zs_createtxg s < to_txg) snaps of
        Some s \<Rightarrow> Some (zs_name s, mf_snapshot_guid m)
      | None \<Rightarrow>
          (case List.find (\<lambda>b. zb_guid b = mf_snapshot_guid m \<and> zb_createtxg b < to_txg) marks of
             Some b \<Rightarrow> Some (zb_name b, mf_snapshot_guid m)
           | None \<Rightarrow> pick_base snaps marks to_txg ms))"

text \<open>The archived snapshots of the dataset, newest first.\<close>

definition base_candidates :: "manifest list \<Rightarrow> guid \<Rightarrow> manifest list" where
  "base_candidates ms ds_guid =
     sort_key (\<lambda>m. - mf_created_at m) (filter (\<lambda>m. mf_dataset_guid m = ds_guid) ms)"

definition auto_base ::
  "'x host \<Rightarrow> manifest list \<Rightarrow> guid \<Rightarrow> string \<Rightarrow> u64 \<Rightarrow> ('x sys, error, (string \<times> guid) option) io" where
  "auto_base h ms ds_guid ds to_txg =
     bind_io (zfs_io h (\<lambda>sh. snapshots sh ds)) (\<lambda>snaps.
     bind_io (zfs_io h (\<lambda>sh. bookmarks sh ds)) (\<lambda>marks.
       ret (pick_base snaps marks to_txg (base_candidates ms ds_guid))))"

definition choose_base ::
  "'x host \<Rightarrow> args \<Rightarrow> manifest list \<Rightarrow> guid \<Rightarrow> string \<Rightarrow> u64 \<Rightarrow> ('x sys, error, (string \<times> guid) option) io" where
  "choose_base h a ms ds_guid ds to_txg =
     (if ag_full a then ret None
      else
        (case ag_from a of
           Some f \<Rightarrow>
             bind_io (err_io (Context (''--from '' @ f)) (resolve_base_guid h ds f)) (\<lambda>g.
               if list_ex (\<lambda>m. mf_dataset_guid m = ds_guid \<and> mf_snapshot_guid m = g) ms
               then ret (Some (f, g))
               else throw (Message (''--from '' @ f @
                 '': that snapshot is not archived in this bucket; restores need the whole chain'')))
         | None \<Rightarrow> auto_base h ms ds_guid ds to_txg))"

section \<open>Reading the pipe\<close>

text \<open>
  \<open>read_buf\<close> into a buffer with room for \<open>n\<close> bytes: what the pipe has, at most \<open>n\<close>; nothing at
  the end, and then for good.
\<close>

type_synonym pipe = "(string + bytes) list"

record child =
  ch_pipe :: pipe
  ch_status :: "string + int option"
  ch_stderr :: string

fun read_pipe :: "nat \<Rightarrow> pipe \<Rightarrow> (string + bytes) \<times> pipe" where
  "read_pipe n [] = (Inr [], [])"
| "read_pipe n (Inl e # p) = (Inl e, p)"
| "read_pipe n (Inr d # p) =
     (if d = [] then (Inr [], [])
      else if length d \<le> n then (Inr d, p) else (Inr (take n d), Inr (drop n d) # p))"

function fill_chunk :: "nat \<Rightarrow> bytes \<Rightarrow> pipe \<Rightarrow> (string + bytes) \<times> pipe" where
  "fill_chunk n buffer p =
     (if length buffer < n
      then
        (case read_pipe (n - length buffer) p of (r, p') \<Rightarrow>
           (case r of
              Inl e \<Rightarrow> (Inl e, p')
            | Inr d \<Rightarrow> (if d = [] then (Inr buffer, p') else fill_chunk n (buffer @ d) p')))
      else (Inr buffer, p))"
  by pat_completeness auto
termination
  by (relation "measure (\<lambda>(n, b, p). n - length b)") (auto simp: length_greater_0_conv [symmetric]
      simp del: length_greater_0_conv)

declare fill_chunk.simps [simp del]

section \<open>Uploading\<close>

record upload =
  up_seq :: u32
  up_key :: string
  up_data :: bytes
  up_crc :: u32

text \<open>The variables of \<open>send_stream\<close>'s loop; \<open>sd_fed\<close> is what the stream hash has been fed.\<close>

record sending =
  sd_parser :: parser
  sd_end :: "string option"
  sd_fed :: bytes
  sd_chunks :: "chunk list"
  sd_inflight :: "upload list"
  sd_uploaded :: "u32 list"
  sd_seq :: u32
  sd_total :: u64
  sd_mine :: pending
  sd_refreshed :: int
  sd_picks :: "nat list"

definition write_marker :: "codec \<Rightarrow> 'x host \<Rightarrow> 'x target \<Rightarrow> string \<Rightarrow> pending \<Rightarrow> ('x sys, error, unit) io" where
  "write_marker cd h t key p =
     bind_io (lift_result (map_err Message (co_encp cd p))) (\<lambda>body.
       retry (sleep_sys h) ''write resume marker'' (err_io EStore (store_put (tg_store t) key body)))"

definition run_upload :: "'x host \<Rightarrow> 'x target \<Rightarrow> upload \<Rightarrow> ('x sys, error, unit) io" where
  "run_upload h t u =
     retry (sleep_sys h) ''upload chunk''
       (err_io EStore (store_put_verified (tg_store t) (up_key u) (up_data u) (up_crc u)))"

text \<open>\<open>join_next\<close>: one of the uploads in flight completes.\<close>

definition next_done :: "sending \<Rightarrow> nat" where
  "next_done sd = (case sd_picks sd of [] \<Rightarrow> 0 | i # _ \<Rightarrow> i) mod length (sd_inflight sd)"

definition take_done :: "sending \<Rightarrow> upload \<times> sending" where
  "take_done sd =
     (let i = next_done sd; us = sd_inflight sd
      in (us ! i, sd\<lparr>sd_inflight := take i us @ drop (Suc i) us, sd_picks := tl (sd_picks sd)\<rparr>))"

definition join_one :: "'x host \<Rightarrow> 'x target \<Rightarrow> ('x sys \<times> sending, error, unit) io" where
  "join_one h t w =
     (case w of (s, sd) \<Rightarrow>
        (case take_done sd of (u, sd1) \<Rightarrow>
           (case run_upload h t u s of (r, s1) \<Rightarrow>
              (case r of
                 Inl e \<Rightarrow> (Inl e, (s1, sd1))
               | Inr _ \<Rightarrow> (Inr (), (s1, sd1\<lparr>sd_uploaded := up_seq u # sd_uploaded sd1\<rparr>))))))"

lemma take_done_split:
  assumes "sd_inflight sd \<noteq> []" "take_done sd = (u, sd1)"
  obtains xs ys where "sd_inflight sd = xs @ u # ys" "sd_inflight sd1 = xs @ ys"
proof -
  let ?i = "next_done sd"
  have i: "?i < length (sd_inflight sd)" using assms(1) by (simp add: next_done_def)
  have "sd_inflight sd = take ?i (sd_inflight sd) @ u # drop (Suc ?i) (sd_inflight sd)"
    using assms(2) id_take_nth_drop [OF i] by (auto simp: take_done_def Let_def)
  moreover have "sd_inflight sd1 = take ?i (sd_inflight sd) @ drop (Suc ?i) (sd_inflight sd)"
    using assms(2) by (auto simp: take_done_def Let_def)
  ultimately show ?thesis by (rule that)
qed

lemma take_done_frame:
  "take_done sd = (u, sd1) \<Longrightarrow>
   \<exists>us ps. sd1 = sd\<lparr>sd_inflight := us, sd_picks := ps\<rparr>"
  by (auto simp: take_done_def Let_def)

lemma join_one_inflight:
  assumes "sd_inflight sd \<noteq> []" "join_one h t (s, sd) = (r, (s', sd'))"
  shows "length (sd_inflight sd') < length (sd_inflight sd)"
proof -
  obtain u sd1 where d: "take_done sd = (u, sd1)" by fastforce
  with assms(2) have "sd_inflight sd' = sd_inflight sd1"
    by (auto simp: join_one_def split: prod.splits sum.splits)
  then show ?thesis using take_done_split [OF assms(1) d] by (metis add_Suc_right length_Cons length_append lessI)
qed

function drain_to :: "'x host \<Rightarrow> 'x target \<Rightarrow> nat \<Rightarrow> ('x sys \<times> sending, error, unit) io" where
  "drain_to h t n (s, sd) =
     (if length (sd_inflight sd) \<le> n then (Inr (), (s, sd))
      else
        (case join_one h t (s, sd) of (r, w) \<Rightarrow>
           (case r of Inl e \<Rightarrow> (Inl e, w) | Inr _ \<Rightarrow> drain_to h t n w)))"
  by pat_completeness auto
termination
proof (relation "measure (\<lambda>(h, t, n, s, sd). length (sd_inflight sd))")
  fix h :: "'x host" and t n s sd r and w :: "'x sys \<times> sending" and x :: error and y u
  assume "\<not> length (sd_inflight sd) \<le> n" "(r, w) = join_one h t (s, sd)"
  then have "sd_inflight sd \<noteq> []" "join_one h t (s, sd) = (r, (fst w, snd w))" by auto
  from join_one_inflight [OF this]
  show "((h, t, n, w), h, t, n, s, sd) \<in> measure (\<lambda>(h, t, n, s, sd). length (sd_inflight sd))"
    by (cases w) simp
qed simp

declare drain_to.simps [simp del]

definition last_end :: "codec \<Rightarrow> event list \<Rightarrow> string option \<Rightarrow> string option" where
  "last_end cd evs init =
     foldl (\<lambda>acc ev. case ev of EvEnd e \<Rightarrow> Some (co_hex cd (fletcher_to_bytes (er_checksum e))) | _ \<Rightarrow> acc) init evs"

text \<open>The lease is renewed between two chunks, when a minute has passed.\<close>

definition refresh_lease ::
  "codec \<Rightarrow> 'x host \<Rightarrow> 'x target \<Rightarrow> string \<Rightarrow> ('x sys \<times> sending, error, unit) io" where
  "refresh_lease cd h t marker w =
     (case w of (s, sd) \<Rightarrow>
        (if LEASE_REFRESH \<le> ho_now h (ext s) - sd_refreshed sd
         then
           (let mine = (sd_mine sd)\<lparr>pd_refreshed_at := ho_now h (ext s)\<rparr> in
            case write_marker cd h t marker mine s of (r, s1) \<Rightarrow>
              (case r of
                 Inl e \<Rightarrow> (Inl e, (s1, sd\<lparr>sd_mine := mine\<rparr>))
               | Inr _ \<Rightarrow> (Inr (), (s1, sd\<lparr>sd_mine := mine, sd_refreshed := ho_now h (ext s1)\<rparr>))))
         else (Inr (), (s, sd))))"

definition enqueue_chunk ::
  "'x host \<Rightarrow> 'x target \<Rightarrow> guid \<Rightarrow> guid \<Rightarrow> (string \<Rightarrow> u64 option) \<Rightarrow> nat \<Rightarrow> bytes
     \<Rightarrow> ('x sys \<times> sending, error, unit) io" where
  "enqueue_chunk h t d g existing parallel buffer w =
     (case w of (s, sd) \<Rightarrow>
        (let q = sd_seq sd; n = of_nat (length buffer); key = chunk_key (tg_prefix t) d g q;
             sd1 = sd\<lparr>sd_fed := sd_fed sd @ buffer, sd_total := sd_total sd + n,
               sd_chunks := sd_chunks sd @ [\<lparr>ck_seq = q, ck_bytes = n, ck_blake3 = ho_blake3 h buffer\<rparr>]\<rparr>
         in if existing key = Some n
            then (Inr (), (s, sd1\<lparr>sd_uploaded := q # sd_uploaded sd1, sd_seq := q + 1\<rparr>))
            else
              (case drain_to h t (max parallel 1 - 1) (s, sd1) of (r, s2, sd2) \<Rightarrow>
                 (case r of
                    Inl e \<Rightarrow> (Inl e, (s2, sd2))
                  | Inr _ \<Rightarrow>
                      (Inr (), (s2, sd2\<lparr>sd_inflight := sd_inflight sd2 @
                          [\<lparr>up_seq = q, up_key = key, up_data = buffer, up_crc = ho_crc32c h buffer\<rparr>],
                        sd_seq := q + 1\<rparr>))))))"

definition handle_chunk ::
  "codec \<Rightarrow> 'x host \<Rightarrow> 'x target \<Rightarrow> guid \<Rightarrow> guid \<Rightarrow> (string \<Rightarrow> u64 option) \<Rightarrow> nat \<Rightarrow> bytes
     \<Rightarrow> ('x sys \<times> sending, error, unit) io" where
  "handle_chunk cd h t d g existing parallel buffer w =
     (case w of (s, sd) \<Rightarrow>
        (case feed buffer (sd_parser sd) of (r, q) \<Rightarrow>
           (case r of
              Inl e \<Rightarrow> (Inl (EStream e), (s, sd\<lparr>sd_parser := q\<rparr>))
            | Inr evs \<Rightarrow>
                bind_io (refresh_lease cd h t (pending_key (tg_prefix t) d g))
                  (\<lambda>_. enqueue_chunk h t d g existing parallel buffer)
                  (s, sd\<lparr>sd_parser := q, sd_end := last_end cd evs (sd_end sd)\<rparr>))))"

text \<open>The loop over the pipe; every chunk takes something from it.\<close>

definition pipe_size :: "pipe \<Rightarrow> nat" where
  "pipe_size p = sum_list (map (\<lambda>x. case x of Inl _ \<Rightarrow> 1 | Inr d \<Rightarrow> Suc (length d)) p)"

lemma read_pipe_size:
  "read_pipe n p = (r, p') \<Longrightarrow> pipe_size p' \<le> pipe_size p \<and>
     (\<forall>d. r = Inr d \<longrightarrow> d \<noteq> [] \<longrightarrow> pipe_size p' < pipe_size p)"
  by (induction n p rule: read_pipe.induct) (auto simp: pipe_size_def split: if_splits)

lemma fill_chunk_size:
  "fill_chunk n b p = (r, p') \<Longrightarrow> pipe_size p' \<le> pipe_size p \<and>
     (\<forall>d. r = Inr d \<longrightarrow> d \<noteq> b \<longrightarrow> pipe_size p' < pipe_size p)"
proof (induction n b p rule: fill_chunk.induct)
  case (1 n b p)
  obtain r0 p1 where r: "read_pipe (n - length b) p = (r0, p1)" by fastforce
  show ?case
  proof (cases "length b < n")
    case True
    show ?thesis
    proof (cases r0)
      case (Inl e)
      with 1(2) True r read_pipe_size [OF r] show ?thesis by (auto simp: fill_chunk.simps [of n b p])
    next
      case (Inr d)
      show ?thesis
      proof (cases "d = []")
        case True
        with 1(2) \<open>length b < n\<close> r Inr read_pipe_size [OF r] show ?thesis
          by (auto simp: fill_chunk.simps [of n b p])
      next
        case False
        with 1(2) True r Inr have "fill_chunk n (b @ d) p1 = (r, p')"
          by (simp add: fill_chunk.simps [of n b p])
        from 1(1) [OF True r [symmetric] Inr False this] read_pipe_size [OF r] Inr False
        show ?thesis by auto
      qed
    qed
  next
    case False
    with 1(2) show ?thesis by (auto simp: fill_chunk.simps [of n b p])
  qed
qed

function send_loop ::
  "codec \<Rightarrow> 'x host \<Rightarrow> 'x target \<Rightarrow> guid \<Rightarrow> guid \<Rightarrow> (string \<Rightarrow> u64 option) \<Rightarrow> nat \<Rightarrow> nat \<Rightarrow> pipe
     \<Rightarrow> ('x sys \<times> sending, error, unit) io" where
  "send_loop cd h t d g existing parallel n p w =
     (case fill_chunk n [] p of (r, p') \<Rightarrow>
        (case r of
           Inl e \<Rightarrow> (Inl (Message e), w)
         | Inr buffer \<Rightarrow>
             (if buffer = [] then (Inr (), w)
              else
                (case handle_chunk cd h t d g existing parallel buffer w of (r2, w2) \<Rightarrow>
                   (case r2 of
                      Inl e \<Rightarrow> (Inl e, w2)
                    | Inr _ \<Rightarrow> send_loop cd h t d g existing parallel n p' w2)))))"
  by pat_completeness auto
termination
  by (relation "measure (\<lambda>(cd, h, t, d, g, existing, parallel, n, p, w). pipe_size p)")
    (auto dest!: fill_chunk_size [OF sym])

declare send_loop.simps [simp del]

section \<open>Sending the stream\<close>

text \<open>
  The uploads still in flight when the run fails are aborted; a request already on its way may
  still be carried out (\<open>lands\<close>).
\<close>

fun abandon :: "'x target \<Rightarrow> bool list \<Rightarrow> upload list \<Rightarrow> 'x sys \<Rightarrow> 'x sys" where
  "abandon t lands [] s = s"
| "abandon t lands (u # us) s =
     abandon t (tl lands) us
       (if lands \<noteq> [] \<and> hd lands
        then snd (store_put_verified (tg_store t) (up_key u) (up_data u) (up_crc u) s)
        else s)"

definition new_marker :: "'x host \<Rightarrow> u64 \<Rightarrow> guid option \<Rightarrow> send_flags \<Rightarrow> ('x sys, error, pending) io" where
  "new_marker h chunk_size from_guid flags s =
     (case ho_uuid h (ext s) of (i, x) \<Rightarrow>
        (Inr \<lparr>pd_from_guid = from_guid, pd_send_flags = flags, pd_chunk_size = chunk_size,
              pd_run_id = i, pd_refreshed_at = ho_now h x\<rparr>, s\<lparr>ext := x\<rparr>))"

definition previous_marker :: "'x target \<Rightarrow> string \<Rightarrow> ('x sys, error, bytes option) io" where
  "previous_marker t key =
     try_io (store_get (tg_store t) key) (\<lambda>r.
       case r of
         Inr b \<Rightarrow> ret (Some b)
       | Inl (NotFound _) \<Rightarrow> ret None
       | Inl e \<Rightarrow> throw (EStore e))"

definition resume_decision ::
  "codec \<Rightarrow> string \<Rightarrow> string \<Rightarrow> pending \<Rightarrow> bytes option \<Rightarrow> int \<Rightarrow> error + bool" where
  "resume_decision cd snap marker mine previous now =
     (case previous of
        None \<Rightarrow> Inr False
      | Some b \<Rightarrow>
          (case co_decp cd b of
             Inl _ \<Rightarrow> Inr False
           | Inr p \<Rightarrow>
               (if lease_live p now \<and> pd_run_id p \<noteq> pd_run_id mine
                then Inl (SendInProgress snap (pd_run_id p) (pd_refreshed_at p) marker)
                else Inr (same_stream p mine))))"

text \<open>The marker of this run and the chunks that need not be uploaded again.\<close>

definition prepare_resume ::
  "codec \<Rightarrow> 'x host \<Rightarrow> 'x target \<Rightarrow> string \<Rightarrow> u64 \<Rightarrow> guid \<Rightarrow> guid \<Rightarrow> guid option \<Rightarrow> send_flags
     \<Rightarrow> ('x sys, error, pending \<times> (string \<Rightarrow> u64 option)) io" where
  "prepare_resume cd h t snap chunk_size d g from_guid flags =
     (let dir = snapshot_dir (tg_prefix t) d g @ ''/''; marker = pending_key (tg_prefix t) d g in
      bind_io (err_io EStore (store_list (tg_store t) dir)) (\<lambda>items.
      bind_io (new_marker h chunk_size from_guid flags) (\<lambda>mine.
      bind_io (previous_marker t marker) (\<lambda>previous.
      bind_io (\<lambda>s. lift_result (resume_decision cd snap marker mine previous (ho_now h (ext s))) s) (\<lambda>resume.
        if \<not> resume \<and> items \<noteq> []
        then bind_io (err_io EStore (purge_prefix (tg_store t) dir)) (\<lambda>_. ret (mine, \<lambda>_. None))
        else ret (mine, map_of (rev items)))))))"

definition sending_start :: "pending \<Rightarrow> int \<Rightarrow> nat list \<Rightarrow> sending" where
  "sending_start mine refreshed picks =
     \<lparr>sd_parser = parser_new, sd_end = None, sd_fed = [], sd_chunks = [], sd_inflight = [],
      sd_uploaded = [], sd_seq = 0, sd_total = 0, sd_mine = mine, sd_refreshed = refreshed,
      sd_picks = picks\<rparr>"

text \<open>What is left to do once the pipe is drained and every upload has been joined.\<close>

definition conclude ::
  "'x host \<Rightarrow> child \<Rightarrow> sending \<Rightarrow> error + chunk list \<times> u64 \<times> string \<times> string option" where
  "conclude h ch sd =
     bind_result (map_err EZfs (wait_child (ch_status ch) (ch_stderr ch) ''send'')) (\<lambda>_.
     bind_result (map_err EStream (parser_finish (sd_parser sd))) (\<lambda>_.
       if card (set (sd_uploaded sd)) \<noteq> length (sd_chunks sd)
       then Inl (Message ''refusing to write the manifest'')
       else Inr (sd_chunks sd, sd_total sd, ho_blake3 h (sd_fed sd), sd_end sd)))"

definition send_stream ::
  "codec \<Rightarrow> 'x host \<Rightarrow> 'x target \<Rightarrow> args \<Rightarrow> u64 \<Rightarrow> (send_spec \<Rightarrow> child) \<Rightarrow> nat list \<Rightarrow> bool list
     \<Rightarrow> guid \<Rightarrow> guid \<Rightarrow> (string \<times> guid) option \<Rightarrow> send_flags
     \<Rightarrow> ('x sys, error, chunk list \<times> u64 \<times> string \<times> string option) io" where
  "send_stream cd h t a chunk_size zsend picks lands d g base flags =
     (let spec = \<lparr>sp_to = ag_snapshot a, sp_from = map_option fst base, sp_flags = flags\<rparr>; ch = zsend spec in
      bind_io (prepare_resume cd h t (ag_snapshot a) chunk_size d g (map_option snd base) flags) (\<lambda>(mine, existing).
      bind_io (write_marker cd h t (pending_key (tg_prefix t) d g) mine) (\<lambda>_ s0.
      bind_io (spawn_child h (send_args spec)) (\<lambda>_ s1.
        case bind_io (send_loop cd h t d g existing (ag_parallel a) (unat chunk_size) (ch_pipe ch))
            (\<lambda>_. drain_to h t 0) (s1, sending_start mine (ho_now h (ext s0)) picks) of
          (r, s2, sd) \<Rightarrow>
            (case r of
               Inl e \<Rightarrow> (Inl e, abandon t lands (sd_inflight sd) s2)
             | Inr _ \<Rightarrow> (conclude h ch sd, s2))) s0)))"

section \<open>The command\<close>

definition release_hold :: "'x host \<Rightarrow> string \<Rightarrow> ('x sys, error, unit) io" where
  "release_hold h snap = try_io (zfs_io h (\<lambda>sh. release sh (hold_tag JOB) snap)) (\<lambda>_. ret ())"

definition ok_io :: "('w, 'e, 'a) io \<Rightarrow> ('w, 'f, 'a option) io" where
  "ok_io m = try_io m (\<lambda>r. ret (case r of Inl _ \<Rightarrow> None | Inr v \<Rightarrow> Some v))"

text \<open>One bookmark of the job per dataset, at the newest archived snapshot; failures only warn.\<close>

definition move_bookmark :: "'x host \<Rightarrow> string \<Rightarrow> string \<Rightarrow> guid \<Rightarrow> ('x sys, error, unit) io" where
  "move_bookmark h ds snap g =
     try_io (zfs_io h (\<lambda>sh. bookmark sh snap (bookmark_name JOB snap g))) (\<lambda>r.
       case r of
         Inl _ \<Rightarrow> ret ()
       | Inr _ \<Rightarrow>
           try_io (zfs_io h (\<lambda>sh. bookmarks sh ds)) (\<lambda>r.
             case r of
               Inl _ \<Rightarrow> ret ()
             | Inr marks \<Rightarrow>
                 for_each (\<lambda>b.
                   case bookmark_guid JOB (zb_name b) of
                     None \<Rightarrow> ret ()
                   | Some old \<Rightarrow>
                       (if old = g then ret ()
                        else try_io (zfs_io h (\<lambda>sh. destroy_bookmark sh (zb_name b))) (\<lambda>_. ret ())))
                   marks))"

definition send_flags_for :: "bool \<Rightarrow> send_flags" where
  "send_flags_for encrypted =
     send_flags_default\<lparr>raw := encrypted, compressed := True, large_blocks := True\<rparr>"

definition new_manifest ::
  "args \<Rightarrow> zfs_snapshot \<Rightarrow> guid \<Rightarrow> guid option \<Rightarrow> send_flags \<Rightarrow> int
     \<Rightarrow> chunk list \<times> u64 \<times> string \<times> string option \<Rightarrow> manifest" where
  "new_manifest a snap d from_guid flags now res =
     (case res of (chunks, tot, blake, end_checksum) \<Rightarrow>
        \<lparr>mf_format_version = FORMAT_VERSION, mf_dataset = zs_dataset snap, mf_dataset_guid = d,
         mf_snapshot = ag_snapshot a, mf_snapshot_guid = zs_guid snap, mf_from_guid = from_guid,
         mf_createtxg = zs_createtxg snap, mf_created_at = now, mf_send_flags = flags, mf_bytes = tot,
         mf_stream_blake3 = blake, mf_end_checksum = end_checksum, mf_chunks = chunks\<rparr>)"

text \<open>The commit: the manifest, and what may fail after it without consequence.\<close>

definition commit :: "codec \<Rightarrow> 'x host \<Rightarrow> 'x target \<Rightarrow> manifest \<Rightarrow> ('x sys, error, unit) io" where
  "commit cd h t m =
     (let d = mf_dataset_guid m; g = mf_snapshot_guid m in
      bind_io (lift_result (map_err Message (co_enc cd m))) (\<lambda>body.
      bind_io (retry (sleep_sys h) ''write manifest''
          (err_io EStore (store_put (tg_store t) (manifest_key (tg_prefix t) d g) body))) (\<lambda>_.
      try_io (store_delete (tg_store t) (pending_key (tg_prefix t) d g)) (\<lambda>_.
        move_bookmark h (mf_dataset m) (mf_snapshot m) g))))"

definition archive ::
  "codec \<Rightarrow> 'x host \<Rightarrow> 'x target \<Rightarrow> args \<Rightarrow> (send_spec \<Rightarrow> child) \<Rightarrow> nat list \<Rightarrow> bool list \<Rightarrow> zfs_snapshot \<Rightarrow> zfs_dataset
     \<Rightarrow> (string \<times> guid) option \<Rightarrow> ('x sys, error, unit) io" where
  "archive cd h t a zsend picks lands snap ds base =
     (let flags = send_flags_for (zd_encrypted ds); d = zd_guid ds; g = zs_guid snap in
      bind_io (ok_io (zfs_io h (\<lambda>sh. estimate sh
          \<lparr>sp_to = ag_snapshot a, sp_from = map_option fst base, sp_flags = flags\<rparr>))) (\<lambda>est.
      bind_io (zfs_io h (\<lambda>sh. hold sh (hold_tag JOB) (ag_snapshot a))) (\<lambda>_.
      try_io (send_stream cd h t a (chosen_chunk_size a est) zsend picks lands d g base flags) (\<lambda>result.
      bind_io (release_hold h (ag_snapshot a)) (\<lambda>_.
      bind_io (lift_result result) (\<lambda>res s.
        commit cd h t (new_manifest a snap d (map_option snd base) flags (ho_now h (ext s)) res) s))))))"

definition send_run ::
  "codec \<Rightarrow> (string list \<Rightarrow> string list) \<Rightarrow> 'x host \<Rightarrow> 'x target \<Rightarrow> args \<Rightarrow> (send_spec \<Rightarrow> child) \<Rightarrow> nat list \<Rightarrow> bool list
     \<Rightarrow> ('x sys, error, unit) io" where
  "send_run cd arrival h t a zsend picks lands =
     bind_io (lift_result (check_args a)) (\<lambda>_.
     bind_io (zfs_io h (\<lambda>sh. snapshot sh (ag_snapshot a))) (\<lambda>snap.
     bind_io (zfs_io h (\<lambda>sh. dataset sh (zs_dataset snap))) (\<lambda>ds.
     bind_io (manifests (co_dec cd) arrival t) (\<lambda>ms.
       if list_ex (\<lambda>m. mf_snapshot_guid m = zs_guid snap) ms then release_hold h (ag_snapshot a)
       else
         bind_io (choose_base h a ms (zd_guid ds) (zs_dataset snap) (zs_createtxg snap)) (\<lambda>base.
           archive cd h t a zsend picks lands snap ds base)))))"

end
