(* ===== verification/Send_Laws.thy ===== *)
theory Send_Laws
  imports Send Inspect Stream_Laws "HOL-Library.Sublist"
begin

text \<open>
  What a run of \<open>send\<close> does to the bucket, however it ends. The service and the machine are
  those of the locale \<open>sender\<close>; \<open>faithful\<close> is the invariant that makes resuming safe: the chunks
  beside a resume marker are beginnings of the slices of the stream the marker describes.
\<close>

section \<open>The pipe\<close>

fun pipe_bytes :: "pipe \<Rightarrow> bytes" where
  "pipe_bytes [] = []"
| "pipe_bytes (Inl e # p) = []"
| "pipe_bytes (Inr d # p) = (if d = [] then [] else d @ pipe_bytes p)"

lemma read_pipe_bytes:
  assumes "read_pipe n p = (Inr d, p')" "0 < n"
  shows "pipe_bytes p = d @ pipe_bytes p' \<and> length d \<le> n \<and> (d = [] \<longrightarrow> pipe_bytes p = [])"
  using assms
proof (induction n p rule: read_pipe.induct)
  case (3 n d0 p)
  then show ?case by (cases "length d0 \<le> n") (auto split: if_splits)
qed simp_all

lemma fill_chunk_bytes:
  "fill_chunk n b p = (Inr b', p') \<Longrightarrow> length b \<le> n \<Longrightarrow>
   b' = b @ take (n - length b) (pipe_bytes p) \<and> pipe_bytes p' = drop (n - length b) (pipe_bytes p)"
proof (induction n b p rule: fill_chunk.induct)
  case (1 n b p)
  obtain r0 p1 where r: "read_pipe (n - length b) p = (r0, p1)" by fastforce
  show ?case
  proof (cases "length b < n")
    case True
    with r "1.prems"(1) obtain d where d: "r0 = Inr d"
      by (cases r0) (auto simp: fill_chunk.simps [of n b p])
    from True have "0 < n - length b" by simp
    from read_pipe_bytes [OF r [unfolded d] this]
    have bytes: "pipe_bytes p = d @ pipe_bytes p1" "length d \<le> n - length b" "d = [] \<Longrightarrow> pipe_bytes p = []"
      by blast+
    show ?thesis
    proof (cases "d = []")
      case True
      with "1.prems"(1) \<open>length b < n\<close> r d bytes show ?thesis
        by (auto simp: fill_chunk.simps [of n b p])
    next
      case False
      with "1.prems"(1) True r d have f: "fill_chunk n (b @ d) p1 = (Inr b', p')"
        by (simp add: fill_chunk.simps [of n b p])
      have "length (b @ d) \<le> n" using bytes(2) True by simp
      from "1.IH" [OF True r [symmetric] d False f this] bytes show ?thesis by simp
    qed
  next
    case False
    with "1.prems" show ?thesis by (auto simp: fill_chunk.simps [of n b p])
  qed
qed

section \<open>The stream in slices\<close>

definition slice :: "nat \<Rightarrow> nat \<Rightarrow> bytes \<Rightarrow> bytes" where
  "slice n i v = take n (drop (i * n) v)"

lemma length_slice: "length (slice n i v) \<le> n"
  by (simp add: slice_def)

lemma take_slice: "take (i * n) v @ slice n i v = take (Suc i * n) v"
  using take_add [of "i * n" n v] by (simp add: slice_def add.commute)

lemma concat_slices: "concat (map (\<lambda>i. slice n i v) [0..<k]) = take (k * n) v"
proof (induction k)
  case (Suc k)
  then show ?case using take_slice [of k n v] by (simp del: mult_Suc)
qed simp

lemma prefix_slice: "prefix v w \<Longrightarrow> prefix (slice n i v) (slice n i w)"
  by (auto simp: slice_def prefix_def min_def)

text \<open>Every chunk of a directory is a beginning of a slice of \<open>v\<close>.\<close>

definition slices_of ::
  "string \<Rightarrow> guid \<Rightarrow> guid \<Rightarrow> nat \<Rightarrow> bytes \<Rightarrow> (string \<Rightarrow> bytes option) \<Rightarrow> bool" where
  "slices_of P d g n v b \<longleftrightarrow>
     (\<forall>q c. b (chunk_key P d g q) = Some c \<longrightarrow> prefix c (slice n (unat q) v))"

text \<open>\<open>orig g base flags\<close> is the stream that sends the snapshot \<open>g\<close> on that base.\<close>

type_synonym origin = "guid \<Rightarrow> guid option \<Rightarrow> send_flags \<Rightarrow> bytes"

definition faithful ::
  "codec \<Rightarrow> origin \<Rightarrow> string \<Rightarrow> (string \<Rightarrow> bytes option) \<Rightarrow> bool" where
  "faithful cd orig P b \<longleftrightarrow>
     (\<forall>d g x p. b (pending_key P d g) = Some x \<longrightarrow> co_decp cd x = Inr p \<longrightarrow>
        slices_of P d g (unat (pd_chunk_size p)) (orig g (pd_from_guid p) (pd_send_flags p)) b)"

lemma slices_of_less:
  "slices_of P d g n v b \<Longrightarrow> (\<And>k. b' k = b k \<or> b' k = None) \<Longrightarrow> slices_of P d g n v b'"
  unfolding slices_of_def by (metis option.distinct(1))

lemma faithful_less:
  assumes "faithful cd orig P b" "\<And>k. b' k = b k \<or> b' k = None"
  shows "faithful cd orig P b'"
  unfolding faithful_def
proof (intro allI impI)
  fix d g x p
  assume "b' (pending_key P d g) = Some x" "co_decp cd x = Inr p"
  then have "b (pending_key P d g) = Some x" using assms(2) by (metis option.distinct(1))
  with assms(1) \<open>co_decp cd x = Inr p\<close> slices_of_less [OF _ assms(2)]
  show "slices_of P d g (unat (pd_chunk_size p)) (orig g (pd_from_guid p) (pd_send_flags p)) b'"
    by (simp add: faithful_def)
qed

section \<open>Retries with an invariant\<close>

lemma retry_from_inv:
  assumes op: "keeps I op" and sl: "\<And>n w. I w \<Longrightarrow> I (sleep n w)"
  shows "I w \<Longrightarrow> retry_from a sleep what op w = (Inr v, w') \<Longrightarrow> \<exists>u. I u \<and> op u = (Inr v, w')"
proof (induction "6 - a" arbitrary: a w rule: less_induct)
  case less
  show ?case using less.prems(2)
  proof (cases rule: retry_from_cases)
    case (again e w1)
    have "I (sleep (wait_ms (Suc a)) w1)" using keepsD [OF op less.prems(1) again(1)] sl by blast
    with less.hyps [OF _ _ again(4)] again(3) show ?thesis by simp
  qed (use less.prems(1) in auto)
qed

text \<open>A retried write of one object.\<close>

lemma retry_write:
  assumes op: "\<And>s r s'. op s = (r, s') \<Longrightarrow> (f s' = f s \<or> f s' = (f s)(k := v)) \<and>
      (\<forall>u. r = Inr u \<longrightarrow> f s' = (f s)(k := v))"
    and sl: "\<And>n s. f (sleep n s) = f s"
    and run: "retry sleep what op s = (r, s')"
  shows "f s' = f s \<or> f s' = (f s)(k := v)" "r = Inr u \<Longrightarrow> f s' = (f s)(k := v)"
proof -
  let ?I = "\<lambda>t. f t = f s \<or> f t = (f s)(k := v)"
  have keeps: "keeps ?I op"
    unfolding keeps_def using op by (metis fun_upd_upd prod.collapse)
  have sl': "?I (sleep n t)" if "?I t" for n t using that sl by simp
  show "?I s'" using keepsD [OF retry_keeps [OF keeps sl'] _ run] by blast
  assume "r = Inr u"
  with run have "retry_from 0 sleep what op s = (Inr u, s')" by (simp add: retry_def)
  from retry_from_inv [OF keeps sl' _ this] obtain t where "?I t" "op t = (Inr u, s')" by blast
  with op show "f s' = (f s)(k := v)" by (metis fun_upd_upd)
qed

section \<open>A run in progress\<close>

text \<open>
  What a run is about: the directory it writes to, the size of its chunks, the bytes it reads
  from the pipe, its marker, and the bucket when the loop starts.
\<close>

record job =
  jb_prefix :: string
  jb_ds :: guid
  jb_snap :: guid
  jb_size :: nat
  jb_bytes :: bytes
  jb_mine :: pending
  jb_bucket :: "string \<Rightarrow> bytes option"

abbreviation jkey :: "job \<Rightarrow> u32 \<Rightarrow> string" where
  "jkey j \<equiv> chunk_key (jb_prefix j) (jb_ds j) (jb_snap j)"

abbreviation jmarker :: "job \<Rightarrow> string" where
  "jmarker j \<equiv> pending_key (jb_prefix j) (jb_ds j) (jb_snap j)"

abbreviation jslice :: "job \<Rightarrow> nat \<Rightarrow> bytes" where
  "jslice j i \<equiv> slice (jb_size j) i (jb_bytes j)"

text \<open>Only the marker and the chunks of the directory are touched, and the chunks rightly.\<close>

definition on_course :: "codec \<Rightarrow> job \<Rightarrow> (string \<Rightarrow> bytes option) \<Rightarrow> bool" where
  "on_course cd j b \<longleftrightarrow>
     (\<forall>k. (\<forall>q. k \<noteq> jkey j q) \<longrightarrow> k \<noteq> jmarker j \<longrightarrow> b k = jb_bucket j k) \<and>
     (\<forall>q. b (jkey j q) = jb_bucket j (jkey j q) \<or> b (jkey j q) = Some (jslice j (unat q))) \<and>
     (\<exists>x p. b (jmarker j) = Some x \<and> co_decp cd x = Inr p \<and> same_stream p (jb_mine j))"

text \<open>What the uploads leave alone.\<close>

definition stage :: "sending \<Rightarrow> parser \<times> string option \<times> bytes \<times> chunk list \<times> u32 \<times> u64 \<times> pending \<times> int" where
  "stage sd = (sd_parser sd, sd_end sd, sd_fed sd, sd_chunks sd, sd_seq sd, sd_total sd, sd_mine sd,
     sd_refreshed sd)"

definition upload_ok :: "job \<Rightarrow> upload \<Rightarrow> bool" where
  "upload_ok j u \<longleftrightarrow> up_key u = jkey j (up_seq u) \<and> up_data u = jslice j (unat (up_seq u))"

definition uploads_ok :: "job \<Rightarrow> nat \<Rightarrow> (string \<Rightarrow> bytes option) \<Rightarrow> sending \<Rightarrow> bool" where
  "uploads_ok j k b sd \<longleftrightarrow>
     set (sd_uploaded sd) \<union> up_seq ` set (sd_inflight sd) = of_nat ` {..<k} \<and>
     (\<forall>q \<in> set (sd_uploaded sd). b (jkey j q) = Some (jslice j (unat q))) \<and>
     list_all (upload_ok j) (sd_inflight sd)"

lemma on_courseD:
  assumes "on_course cd j b"
  shows "(\<And>q. k \<noteq> jkey j q) \<Longrightarrow> k \<noteq> jmarker j \<Longrightarrow> b k = jb_bucket j k"
    "\<exists>x p. b (jmarker j) = Some x \<and> co_decp cd x = Inr p \<and> same_stream p (jb_mine j)"
  using assms unfolding on_course_def by blast+

lemma on_course_chunk:
  "on_course cd j b \<Longrightarrow> on_course cd j (b(jkey j q \<mapsto> jslice j (unat q)))"
  by (simp add: on_course_def key_simps)

lemma on_course_marker:
  "on_course cd j b \<Longrightarrow> co_decp cd x = Inr p \<Longrightarrow> same_stream p (jb_mine j) \<Longrightarrow>
   on_course cd j (b(jmarker j \<mapsto> x))"
  by (auto simp: on_course_def key_simps)

lemma uploads_ok_chunk:
  "uploads_ok j k b sd \<Longrightarrow> uploads_ok j k (b(jkey j q \<mapsto> jslice j (unat q))) sd"
  by (auto simp: uploads_ok_def key_simps)

lemma uploads_ok_marker: "uploads_ok j k b sd \<Longrightarrow> uploads_ok j k (b(jmarker j \<mapsto> x)) sd"
  by (auto simp: uploads_ok_def key_simps)

lemma on_course_slices:
  assumes "on_course cd j b" "prefix (jb_bytes j) v"
    "slices_of (jb_prefix j) (jb_ds j) (jb_snap j) (jb_size j) v (jb_bucket j)"
  shows "slices_of (jb_prefix j) (jb_ds j) (jb_snap j) (jb_size j) v b"
  unfolding slices_of_def
proof (intro allI impI)
  fix q c assume "b (jkey j q) = Some c"
  with assms(1) have "jb_bucket j (jkey j q) = Some c \<or> c = jslice j (unat q)"
    unfolding on_course_def by (metis option.inject)
  with assms(3) prefix_slice [OF assms(2)] show "prefix c (slice (jb_size j) (unat q) v)"
    by (auto simp: slices_of_def)
qed

text \<open>The records of the first \<open>k\<close> chunks, and the state of the loop that has read \<open>i\<close> of them and disposed of \<open>k\<close>.\<close>

definition chunk_record :: "(bytes \<Rightarrow> string) \<Rightarrow> nat \<Rightarrow> bytes \<Rightarrow> nat \<Rightarrow> chunk" where
  "chunk_record blake n w i =
     \<lparr>ck_seq = of_nat i, ck_bytes = of_nat (length (slice n i w)), ck_blake3 = blake (slice n i w)\<rparr>"

definition read_ok :: "codec \<Rightarrow> bytes \<Rightarrow> parser \<Rightarrow> string option \<Rightarrow> bool" where
  "read_ok cd v q end_checksum \<longleftrightarrow>
     (\<exists>evs. feed v parser_new = (Inr evs, q) \<and> end_checksum = last_end cd evs None)"

definition stage_ok :: "codec \<Rightarrow> (bytes \<Rightarrow> string) \<Rightarrow> job \<Rightarrow> nat \<Rightarrow> nat \<Rightarrow> sending \<Rightarrow> bool" where
  "stage_ok cd blake j i k sd \<longleftrightarrow>
     read_ok cd (take (i * jb_size j) (jb_bytes j)) (sd_parser sd) (sd_end sd) \<and>
     sd_fed sd = take (k * jb_size j) (jb_bytes j) \<and>
     sd_total sd = of_nat (length (sd_fed sd)) \<and>
     sd_chunks sd = map (chunk_record blake (jb_size j) (jb_bytes j)) [0..<k] \<and>
     sd_seq sd = of_nat k \<and> same_stream (sd_mine sd) (jb_mine j)"

lemma stage_ok_cong: "stage sd' = stage sd \<Longrightarrow> stage_ok cd blake j i k sd' = stage_ok cd blake j i k sd"
  by (simp add: stage_ok_def stage_def)

lemma read_ok_append:
  assumes "read_ok cd v q e" "feed c q = (Inr evs, q')"
  shows "read_ok cd (v @ c) q' (last_end cd evs e)"
proof -
  from assms(1) obtain evs0 where "feed v parser_new = (Inr evs0, q)" "e = last_end cd evs0 None"
    by (auto simp: read_ok_def)
  with assms(2) feed_append [OF parser_ok_new, of v c] show ?thesis
    by (simp add: read_ok_def bind_io_def ret_def last_end_def)
qed

text \<open>The codec reads back what it writes.\<close>

definition codec_ok :: "codec \<Rightarrow> bool" where
  "codec_ok cd \<longleftrightarrow>
     (\<forall>m x. co_enc cd m = Inr x \<longrightarrow> co_dec cd x = Inr m) \<and>
     (\<forall>p x. co_encp cd p = Inr x \<longrightarrow> co_decp cd x = Inr p)"

text \<open>What is known of the chunks that are already there.\<close>

definition existing_ok :: "job \<Rightarrow> bytes \<Rightarrow> (string \<Rightarrow> u64 option) \<Rightarrow> bool" where
  "existing_ok j v ex \<longleftrightarrow>
     prefix (jb_bytes j) v \<and> 0 < jb_size j \<and> jb_size j < 2 ^ 64 \<and>
     slices_of (jb_prefix j) (jb_ds j) (jb_snap j) (jb_size j) v (jb_bucket j) \<and>
     (\<forall>q m. ex (jkey j q) = Some m \<longrightarrow> (\<exists>c. jb_bucket j (jkey j q) = Some c \<and> of_nat (length c) = m))"

lemma existing_is_slice:
  assumes "existing_ok j v ex" "on_course cd j b"
    "ex (jkey j q) = Some (of_nat (length (jslice j (unat q))))"
  shows "b (jkey j q) = Some (jslice j (unat q))"
proof -
  let ?s = "slice (jb_size j) (unat q)"
  from assms(1,3) obtain c where c: "jb_bucket j (jkey j q) = Some c"
    "(of_nat (length c) :: u64) = of_nat (length (jslice j (unat q)))" by (auto simp: existing_ok_def)
  have p: "prefix c (?s v)" "prefix (jslice j (unat q)) (?s v)"
    using assms(1) c(1) prefix_slice by (auto simp: existing_ok_def slices_of_def)
  have "length (?s v) < 2 ^ 64" using assms(1) length_slice [of "jb_size j" "unat q" v] by (simp add: existing_ok_def)
  with p have "length c < 2 ^ 64" "length (jslice j (unat q)) < 2 ^ 64"
    using prefix_length_le by (meson le_less_trans)+
  with c(2) have "length c = length (jslice j (unat q))" by (metis unat_of_nat_u64)
  with p have "c = jslice j (unat q)" by (metis append_eq_conv_conj prefix_def)
  with c(1) assms(2) show ?thesis by (metis on_course_def)
qed

text \<open>
  \<open>settled\<close>: what a run leaves behind that has not committed: another bucket in which only
  the directory has changed, the manifest's place has gained nothing, and both invariants hold.
\<close>

definition settled ::
  "codec \<Rightarrow> origin \<Rightarrow> string \<Rightarrow> guid \<Rightarrow> guid \<Rightarrow> (string \<Rightarrow> bytes option) \<Rightarrow> (string \<Rightarrow> bytes option) \<Rightarrow> bool" where
  "settled cd orig P d g b b' \<longleftrightarrow>
     (\<forall>k. \<not> below (snapshot_dir P d g) k \<longrightarrow> b' k = b k) \<and>
     (b' (manifest_key P d g) = b (manifest_key P d g) \<or> b' (manifest_key P d g) = None) \<and>
     faithful cd orig P b' \<and> tidy P b'"

lemma below_dir_iff: "below (snapshot_dir P d g) (snapshot_dir P d' g' @ slash # f) \<longleftrightarrow> d = d' \<and> g = g'"
proof
  assume "below (snapshot_dir P d g) (snapshot_dir P d' g' @ slash # f)"
  then obtain r where "snapshot_dir P d' g' @ slash # f = snapshot_dir P d g @ slash # r"
    by (auto simp: below_def starts_with_iff)
  then show "d = d' \<and> g = g'" by (simp only: snapshot_file_inject)
qed (simp add: below_def starts_with_iff)

lemmas below_keys = below_dir_iff [of P d g d' g' "''manifest.json''" for P d g d' g', folded key_files]
  below_dir_iff [of P d g d' g' "''pending.json''" for P d g d' g', folded key_files]
  below_dir_iff [of P d g d' g' "chunk_file q" for P d g d' g' q, folded key_files]

lemma settled_less:
  assumes "faithful cd orig P b" "tidy P b"
    and less: "\<And>k. b' k = b k \<or> below (snapshot_dir P d g) k \<and> b' k = None"
  shows "settled cd orig P d g b b'"
proof -
  have l: "b' k = b k \<or> b' k = None" for k using less [of k] by auto
  have "clean_path k" if "b' k \<noteq> None" "below (key_root P) k" for k
    using assms(2) l [of k] that by (simp add: tidy_def)
  then have "tidy P b'" using assms(2) by (simp add: tidy_def)
  moreover have "b' k = b k" if "\<not> below (snapshot_dir P d g) k" for k using less [of k] that by simp
  ultimately show ?thesis using faithful_less [OF assms(1) l] l by (simp add: settled_def)
qed

lemma settled_course:
  assumes fa: "faithful cd orig P b" and ti: "tidy P b"
    and less: "\<And>k. jb_bucket j k = b k \<or> below (snapshot_dir P d g) k \<and> jb_bucket j k = None"
    and oc: "on_course cd j b'" and j: "jb_prefix j = P" "jb_ds j = d" "jb_snap j = g"
      "jb_size j = unat (pd_chunk_size (jb_mine j))" "pd_from_guid (jb_mine j) = fg" "pd_send_flags (jb_mine j) = fl"
    and v: "prefix (jb_bytes j) (orig g fg fl)" "slices_of P d g (jb_size j) (orig g fg fl) (jb_bucket j)"
  shows "settled cd orig P d g b b'"
proof -
  have base: "settled cd orig P d g b (jb_bucket j)" using fa ti less by (rule settled_less)
  then have fa': "faithful cd orig P (jb_bucket j)" and ti': "tidy P (jb_bucket j)"
    by (simp_all add: settled_def)
  have other: "b' k = jb_bucket j k" if "\<And>q. k \<noteq> chunk_key P d g q" "k \<noteq> pending_key P d g" for k
    using on_courseD(1) [OF oc, of k] that j by simp
  have out: "b' k = jb_bucket j k" if "\<not> below (snapshot_dir P d g) k" for k
    using that by (intro other) (auto simp: below_keys)
  have mine: "slices_of P d g (jb_size j) (orig g fg fl) b'"
    using on_course_slices [OF oc v(1)] v(2) j by simp
  have "faithful cd orig P b'"
    unfolding faithful_def
  proof (intro allI impI)
    fix d' g' x p
    assume x: "b' (pending_key P d' g') = Some x" "co_decp cd x = Inr p"
    show "slices_of P d' g' (unat (pd_chunk_size p)) (orig g' (pd_from_guid p) (pd_send_flags p)) b'"
    proof (cases "d' = d \<and> g' = g")
      case True
      from on_courseD(2) [OF oc] j obtain y q where
        "b' (pending_key P d g) = Some y" "co_decp cd y = Inr q" "same_stream q (jb_mine j)" by auto
      with x True have "same_stream p (jb_mine j)" by simp
      with True mine j show ?thesis by (simp add: same_stream_def)
    next
      case False
      then have "\<not> below (snapshot_dir P d g) (pending_key P d' g')"
        "\<And>q. \<not> below (snapshot_dir P d g) (chunk_key P d' g' q)" by (simp_all add: below_keys) blast+
      from out [OF this(1)] out [OF this(2)] x fa' [unfolded faithful_def, rule_format, of d' g' x p]
      show ?thesis by (simp add: slices_of_def)
    qed
  qed
  moreover have "tidy P b'"
    unfolding tidy_def
  proof (intro conjI allI impI)
    show root: "clean_path (key_root P)" using ti by (simp add: tidy_def)
    fix k assume k: "b' k \<noteq> None" "below (key_root P) k"
    show "clean_path k"
    proof (cases "(\<exists>q. k = chunk_key P d g q) \<or> k = pending_key P d g")
      case True
      with clean_keys [OF root] show ?thesis by auto
    next
      case False
      then have "b' k = jb_bucket j k" by (intro other) auto
      with k have "jb_bucket j k \<noteq> None" by simp
      with k(2) ti' show ?thesis by (simp add: tidy_def)
    qed
  qed
  moreover have "b' (manifest_key P d g) = jb_bucket j (manifest_key P d g)"
    by (rule other) (simp_all add: key_simps)
  ultimately show ?thesis using base out by (simp add: settled_def)
qed

text \<open>What a run that has read the whole stream \<open>v\<close> has made of it.\<close>

definition stored ::
  "codec \<Rightarrow> (bytes \<Rightarrow> string) \<Rightarrow> string \<Rightarrow> guid \<Rightarrow> guid \<Rightarrow> bytes \<Rightarrow> (string \<Rightarrow> bytes option)
     \<Rightarrow> chunk list \<times> u64 \<times> string \<times> string option \<Rightarrow> bool" where
  "stored cd blake P d g v b res \<longleftrightarrow>
     (case res of (chunks, tot, hash, end_checksum) \<Rightarrow>
        (\<exists>n k. chunks = map (chunk_record blake n v) [0..<k] \<and> length v \<le> k * n \<and> k \<le> 2 ^ 32 \<and> 0 < n \<and>
           (\<forall>i < k. b (chunk_key P d g (of_nat i)) = Some (slice n i v))) \<and>
        tot = of_nat (length v) \<and> hash = blake v \<and>
        (\<exists>q. read_ok cd v q end_checksum \<and> parser_finish q = Inr ()))"

text \<open>\<open>zfs send\<close> writes a beginning of the stream, all of it if it exits with success.\<close>

definition child_ok :: "child \<Rightarrow> bytes \<Rightarrow> bool" where
  "child_ok ch v \<longleftrightarrow> prefix (pipe_bytes (ch_pipe ch)) v \<and>
     (ch_status ch = Inr (Some 0) \<longrightarrow> pipe_bytes (ch_pipe ch) = v)"

section \<open>The service and the machine of a sender\<close>

text \<open>What is stored below a directory has keys that need no encoding.\<close>

definition clean_below :: "string \<Rightarrow> (string \<Rightarrow> bytes option) \<Rightarrow> bool" where
  "clean_below p b \<longleftrightarrow> (\<forall>k. b k \<noteq> None \<longrightarrow> below p k \<longrightarrow> clean_path k)"

text \<open>The ids of the only version an object has in a bucket without versioning.\<close>

definition sole_version :: "string \<Rightarrow> bool" where
  "sole_version ver \<longleftrightarrow> ver = [] \<or> ver = ''null''"

text \<open>
  Beyond \<open>s3_backend\<close>: the bucket calls of \<open>store/admin.rs\<close>, on a bucket without versioning,
  and a machine whose clock, processes and random numbers leave the bucket alone.
\<close>

locale sender = s3_store be view st
  for be :: "'x backend" and view :: "'x \<Rightarrow> string \<Rightarrow> bytes option" and st :: "'x store" +
  fixes h :: "'x host"
  assumes sleep_view: "view (ho_sleep h n x) = view x"
    and zfs_view: "ho_zfs h args x = (out, x') \<Longrightarrow> view x' = view x"
    and spawn_view: "ho_spawn h args x = (rs, x') \<Longrightarrow> view x' = view x"
    and uuid_view: "ho_uuid h x = (i, x') \<Longrightarrow> view x' = view x"
    and abort_view: "be_abort_multipart be k upl x = (ra, x') \<Longrightarrow> view x' = view x"
    and ad_put_any: "st_admin st = Some a \<Longrightarrow> clean_path k \<Longrightarrow> ad_put_object_crc32c a k v c x = (r, x') \<Longrightarrow>
      view x' = view x \<or> view x' = (view x)(k \<mapsto> v)"
    and ad_put_ok: "st_admin st = Some a \<Longrightarrow> clean_path k \<Longrightarrow> ad_put_object_crc32c a k v c x = (Inr u, x') \<Longrightarrow>
      view x' = (view x)(k \<mapsto> v)"
    and ad_versions_view: "st_admin st = Some a \<Longrightarrow> clean_path p \<Longrightarrow> clean_below p (view x) \<Longrightarrow>
      ad_list_versions a (p @ ''/'') x = (rv, x') \<Longrightarrow> view x' = view x"
    and ad_versions_ok: "st_admin st = Some a \<Longrightarrow> clean_path p \<Longrightarrow> clean_below p (view x) \<Longrightarrow>
      ad_list_versions a (p @ ''/'') x = (Inr vs, x') \<Longrightarrow>
      (\<forall>(k, ver) \<in> set vs. clean_path k \<and> below p k \<and> sole_version ver) \<and> (\<forall>k. view x k \<noteq> None \<longrightarrow> below p k \<longrightarrow> k \<in> fst ` set vs)"
    and ad_delete_any: "st_admin st = Some a \<Longrightarrow> clean_path k \<Longrightarrow> sole_version ver \<Longrightarrow>
      ad_delete_version a k ver x = (r, x') \<Longrightarrow>
      view x' = view x \<or> view x' = (view x)(k := None)"
    and ad_delete_ok: "st_admin st = Some a \<Longrightarrow> clean_path k \<Longrightarrow> sole_version ver \<Longrightarrow>
      ad_delete_version a k ver x = (Inr u, x') \<Longrightarrow>
      view x' = (view x)(k := None)"
    and ad_uploads_view: "st_admin st = Some a \<Longrightarrow> clean_path p \<Longrightarrow> ad_list_uploads a (p @ ''/'') x = (ru, x') \<Longrightarrow>
      view x' = view x"
begin

lemma sleep_contents: "contents (sleep_sys h n s) = contents s"
  by (simp add: sleep_sys_def sleep_view)

lemma on_ext_view:
  assumes "\<And>x r x'. m x = (r, x') \<Longrightarrow> view x' = view x" "on_ext m s = (r, s')"
  shows "contents s' = contents s"
  using assms by (auto simp: on_ext_def split: prod.splits)

lemma put_verified_write:
  assumes "clean_path k" "store_put_verified st k v c s = (r, s')"
  shows "(contents s' = contents s \<or> contents s' = (contents s)(k \<mapsto> v)) \<and>
    (\<forall>u. r = Inr u \<longrightarrow> contents s' = (contents s)(k \<mapsto> v))"
proof -
  have put: "(contents s' = contents t \<or> contents s' = (contents t)(k \<mapsto> v)) \<and>
      (\<forall>u. r = Inr u \<longrightarrow> contents s' = (contents t)(k \<mapsto> v))" if "store_put st k v t = (r, s')" for t
    using bk.put_any [OF assms(1) that] bk.put_ok [OF assms(1)] that by auto
  show ?thesis
  proof (cases "st_admin st")
    case None
    with assms(2) put [of s] show ?thesis by (simp add: store_put_verified_def)
  next
    case (Some a)
    obtain r0 x where x: "ad_put_object_crc32c a k v c (ext s) = (r0, x)" by fastforce
    have any: "view x = contents s \<or> view x = (contents s)(k \<mapsto> v)" using ad_put_any [OF Some assms(1) x] .
    show ?thesis
    proof (cases "crc32c_on s")
      case False
      with assms(2) Some put [of s] show ?thesis by (simp add: store_put_verified_def)
    next
      case on: True
      show ?thesis
      proof (cases "\<exists>op status msg. r0 = Inl (AdS3 op status ''ChecksumNotEchoed'' msg)")
        case True
        with assms(2) Some on x have "store_put st k v (s\<lparr>ext := x, crc32c_on := False\<rparr>) = (r, s')"
          by (auto simp: store_put_verified_def)
        from put [OF this] any show ?thesis by auto
      next
        case False
        then have "s' = s\<lparr>ext := x\<rparr> \<and> (\<forall>u. r = Inr u \<longrightarrow> r0 = Inr ())"
          using assms(2) Some on x
          by (auto simp: store_put_verified_def split: sum.splits admin_error.splits if_splits)
        with any ad_put_ok [OF Some assms(1)] x show ?thesis by auto
      qed
    qed
  qed
qed

lemma run_upload_write:
  assumes t: "tg_store t = st" and k: "clean_path (up_key u)" and run: "run_upload h t u s = (r, s')"
  shows "contents s' = contents s \<or> contents s' = (contents s)(up_key u \<mapsto> up_data u)"
    "r = Inr x \<Longrightarrow> contents s' = (contents s)(up_key u \<mapsto> up_data u)"
proof -
  let ?op = "err_io EStore (store_put_verified st (up_key u) (up_data u) (up_crc u))"
  have op: "(contents v' = contents v \<or> contents v' = (contents v)(up_key u \<mapsto> up_data u)) \<and>
      (\<forall>x. r' = Inr x \<longrightarrow> contents v' = (contents v)(up_key u \<mapsto> up_data u))"
    if "?op v = (r', v')" for v r' v'
    using put_verified_write [OF k, of "up_data u" "up_crc u" v] that
    by (cases "store_put_verified st (up_key u) (up_data u) (up_crc u) v"; cases r')
      (auto simp: err_io_def map_sum_Inr)
  have r: "retry (sleep_sys h) ''upload chunk'' ?op s = (r, s')" using run by (simp add: run_upload_def t)
  show "contents s' = contents s \<or> contents s' = (contents s)(up_key u \<mapsto> up_data u)"
    by (rule retry_write(1) [where f = contents, OF op sleep_contents r])
  show "r = Inr x \<Longrightarrow> contents s' = (contents s)(up_key u \<mapsto> up_data u)"
    by (rule retry_write(2) [where f = contents, OF op sleep_contents r])
qed

lemma write_marker_write:
  assumes t: "tg_store t = st" and k: "clean_path key" and run: "write_marker cd h t key p s = (r, s')"
  shows "contents s' = contents s \<or> (\<exists>x. co_encp cd p = Inr x \<and> contents s' = (contents s)(key \<mapsto> x))"
    "r = Inr u \<Longrightarrow> \<exists>x. co_encp cd p = Inr x \<and> contents s' = (contents s)(key \<mapsto> x)"
proof -
  have "(contents s' = contents s \<or> (\<exists>x. co_encp cd p = Inr x \<and> contents s' = (contents s)(key \<mapsto> x))) \<and>
    (\<forall>u. r = Inr u \<longrightarrow> (\<exists>x. co_encp cd p = Inr x \<and> contents s' = (contents s)(key \<mapsto> x)))"
  proof (cases "co_encp cd p")
    case (Inl e)
    with run show ?thesis
      by (auto simp: write_marker_def bind_io_def lift_result_def map_err_def split: sum.splits prod.splits)
  next
    case (Inr x)
    let ?op = "err_io EStore (store_put st key x)"
    have op: "(contents v' = contents v \<or> contents v' = (contents v)(key \<mapsto> x)) \<and>
        (\<forall>u. r' = Inr u \<longrightarrow> contents v' = (contents v)(key \<mapsto> x))" if "?op v = (r', v')" for v r' v'
      using bk.put_any [OF k, of x v] bk.put_ok [OF k, of x v] that
      by (cases "store_put st key x v"; cases r') (auto simp: err_io_def map_sum_Inr)
    have r: "retry (sleep_sys h) ''write resume marker'' ?op s = (r, s')"
      using run Inr by (simp add: write_marker_def bind_io_def lift_result_def map_err_def t)
    from retry_write [where f = contents, OF op sleep_contents r] Inr show ?thesis by auto
  qed
  then show "contents s' = contents s \<or> (\<exists>x. co_encp cd p = Inr x \<and> contents s' = (contents s)(key \<mapsto> x))"
    "r = Inr u \<Longrightarrow> \<exists>x. co_encp cd p = Inr x \<and> contents s' = (contents s)(key \<mapsto> x)" by blast+
qed

lemma join_one_ok:
  assumes t: "tg_store t = st" and root: "clean_path (key_root (jb_prefix j))"
    and "sd_inflight sd \<noteq> []" and run: "join_one h t (s, sd) = (r, s', sd')"
    and oc: "on_course cd j (contents s)" and up: "uploads_ok j k (contents s) sd"
  shows "on_course cd j (contents s')" "list_all (upload_ok j) (sd_inflight sd')"
    "stage sd' = stage sd"
    "r = Inr x \<Longrightarrow> uploads_ok j k (contents s') sd'"
proof -
  obtain u sd1 where d: "take_done sd = (u, sd1)" by fastforce
  from take_done_split [OF assms(3) d] obtain xs ys where
    fl: "sd_inflight sd = xs @ u # ys" "sd_inflight sd1 = xs @ ys" .
  from take_done_frame [OF d] obtain us ps where sd1: "sd1 = sd\<lparr>sd_inflight := us, sd_picks := ps\<rparr>" by blast
  obtain r0 where r0: "run_upload h t u s = (r0, s')"
    and r: "r = r0" "r0 = Inr () \<longrightarrow> sd' = sd1\<lparr>sd_uploaded := up_seq u # sd_uploaded sd1\<rparr>"
      "r0 \<noteq> Inr () \<longrightarrow> sd' = sd1"
    using run d by (auto simp: join_one_def split: prod.splits sum.splits)
  have u: "up_key u = jkey j (up_seq u)" "up_data u = jslice j (unat (up_seq u))"
    and others: "list_all (upload_ok j) (xs @ ys)"
    using up fl by (auto simp: uploads_ok_def upload_ok_def)
  have key: "clean_path (up_key u)" using clean_keys(3) [OF root] u by simp
  note W = run_upload_write [OF t key r0, unfolded u]
  show "on_course cd j (contents s')" using W(1) oc on_course_chunk [OF oc] by auto
  show "list_all (upload_ok j) (sd_inflight sd')" using others r fl(2) by (cases "r0 = Inr ()") auto
  show "stage sd' = stage sd" using r sd1 by (cases "r0 = Inr ()") (auto simp: stage_def)
  assume "r = Inr x"
  with r W(2) [of x] have b: "contents s' = (contents s)(jkey j (up_seq u) \<mapsto> jslice j (unat (up_seq u)))"
    and sd': "sd' = sd1\<lparr>sd_uploaded := up_seq u # sd_uploaded sd1\<rparr>" by auto
  have "sd_uploaded sd1 = sd_uploaded sd" by (simp add: sd1)
  with uploads_ok_chunk [OF up, of "up_seq u"] others sd' fl
  show "uploads_ok j k (contents s') sd'" by (auto simp: uploads_ok_def b)
qed

lemma drain_to_ok:
  assumes t: "tg_store t = st" and root: "clean_path (key_root (jb_prefix j))"
  shows "drain_to h t n (s, sd) = (r, s', sd') \<Longrightarrow> on_course cd j (contents s) \<Longrightarrow>
    uploads_ok j k (contents s) sd \<Longrightarrow>
    on_course cd j (contents s') \<and> list_all (upload_ok j) (sd_inflight sd') \<and>
    stage sd' = stage sd \<and>
    (r = Inr () \<longrightarrow> uploads_ok j k (contents s') sd' \<and> length (sd_inflight sd') \<le> n)"
proof (induction "length (sd_inflight sd)" arbitrary: s sd rule: less_induct)
  case less
  show ?case
  proof (cases "length (sd_inflight sd) \<le> n")
    case True
    with less.prems(1) have "r = Inr ()" "s' = s" "sd' = sd" by (simp_all add: drain_to.simps)
    then show ?thesis using less.prems True by (simp add: uploads_ok_def)
  next
    case False
    then have ne: "sd_inflight sd \<noteq> []" by auto
    obtain r1 s1 sd1 where j1: "join_one h t (s, sd) = (r1, s1, sd1)" by (metis prod.collapse)
    note J = join_one_ok [OF t root ne j1 less.prems(2,3)]
    show ?thesis
    proof (cases r1)
      case (Inl e)
      with less.prems(1) False j1 have "r = Inl e" "s' = s1" "sd' = sd1" by (simp_all add: drain_to.simps)
      with J show ?thesis by blast
    next
      case (Inr x)
      with less.prems(1) False j1 have "drain_to h t n (s1, sd1) = (r, s', sd')" by (simp add: drain_to.simps)
      from less.hyps [OF join_one_inflight [OF ne j1] this J(1) J(4) [OF Inr]] J(3)
      show ?thesis by auto
    qed
  qed
qed

lemma refresh_lease_ok:
  assumes t: "tg_store t = st" and root: "clean_path (key_root (jb_prefix j))" and cd: "codec_ok cd"
    and run: "refresh_lease cd h t (jmarker j) (s, sd) = (r, s', sd')"
    and oc: "on_course cd j (contents s)" and up: "uploads_ok j k (contents s) sd"
    and sg: "stage_ok cd blake j i k sd"
  shows "on_course cd j (contents s') \<and> uploads_ok j k (contents s') sd' \<and>
    stage_ok cd blake j i k sd'"
proof (cases "LEASE_REFRESH \<le> ho_now h (ext s) - sd_refreshed sd")
  case False
  with run oc up sg show ?thesis by (simp add: refresh_lease_def)
next
  case True
  define m where "m = (sd_mine sd)\<lparr>pd_refreshed_at := ho_now h (ext s)\<rparr>"
  have same: "same_stream m (jb_mine j)" using sg by (simp add: m_def stage_ok_def same_stream_def)
  obtain r0 where w: "write_marker cd h t (jmarker j) m s = (r0, s')"
    and sd': "sd' = sd\<lparr>sd_mine := m\<rparr> \<or> (\<exists>x. sd' = sd\<lparr>sd_mine := m, sd_refreshed := x\<rparr>)"
    using run True by (auto simp: refresh_lease_def Let_def m_def split: prod.splits sum.splits)
  from write_marker_write(1) [OF t clean_keys(2) [OF root] w]
  have b: "on_course cd j (contents s') \<and> uploads_ok j k (contents s') sd"
  proof
    assume "\<exists>x. co_encp cd m = Inr x \<and> contents s' = (contents s)(jmarker j \<mapsto> x)"
    then obtain x where x: "co_encp cd m = Inr x" "contents s' = (contents s)(jmarker j \<mapsto> x)" by blast
    from x(1) cd have "co_decp cd x = Inr m" by (simp add: codec_ok_def)
    with on_course_marker [OF oc this same] uploads_ok_marker [OF up] x(2) show ?thesis by simp
  qed (use oc up in simp)
  from sd' same sg b show ?thesis
    by (elim disjE exE) (simp_all add: uploads_ok_def stage_ok_def)
qed

lemma enqueue_chunk_ok:
  assumes t: "tg_store t = st" "tg_prefix t = jb_prefix j" and root: "clean_path (key_root (jb_prefix j))"
    and ex: "existing_ok j v ex" and k: "k < 2 ^ 32"
    and run: "enqueue_chunk h t (jb_ds j) (jb_snap j) ex par (jslice j k) (s, sd) = (r, s', sd')"
    and oc: "on_course cd j (contents s)" and up: "uploads_ok j k (contents s) sd"
    and sg: "stage_ok cd (ho_blake3 h) j (Suc k) k sd"
  shows "on_course cd j (contents s') \<and> list_all (upload_ok j) (sd_inflight sd') \<and>
    (r = Inr () \<longrightarrow> uploads_ok j (Suc k) (contents s') sd' \<and> stage_ok cd (ho_blake3 h) j (Suc k) (Suc k) sd')"
proof -
  define q where "q = sd_seq sd"
  define sd1 where "sd1 = sd\<lparr>sd_fed := sd_fed sd @ jslice j k,
    sd_total := sd_total sd + of_nat (length (jslice j k)),
    sd_chunks := sd_chunks sd @ [\<lparr>ck_seq = q, ck_bytes = of_nat (length (jslice j k)),
      ck_blake3 = ho_blake3 h (jslice j k)\<rparr>]\<rparr>"
  have q: "q = of_nat k" "unat q = k" using sg k by (simp_all add: q_def stage_ok_def unat_of_nat_u32)
  have up1: "uploads_ok j k (contents s) sd1" using up by (simp add: uploads_ok_def sd1_def)
  have sg1: "stage_ok cd (ho_blake3 h) j (Suc k) (Suc k) sd2"
    if "stage sd2 = stage (sd1\<lparr>sd_seq := q + 1\<rparr>)" for sd2
  proof -
    have "stage_ok cd (ho_blake3 h) j (Suc k) (Suc k) (sd1\<lparr>sd_seq := q + 1\<rparr>)"
    proof -
      have "sd_total sd1 = of_nat (length (sd_fed sd1))" using sg by (simp add: stage_ok_def sd1_def)
      moreover have "sd_fed sd1 = take (Suc k * jb_size j) (jb_bytes j)"
        using sg take_slice [of k "jb_size j" "jb_bytes j"] by (simp add: stage_ok_def sd1_def)
      moreover have "sd_chunks sd1 = map (chunk_record (ho_blake3 h) (jb_size j) (jb_bytes j)) [0..<Suc k]"
        using sg q by (simp add: stage_ok_def sd1_def chunk_record_def)
      moreover have "sd_parser sd1 = sd_parser sd" "sd_end sd1 = sd_end sd" "sd_mine sd1 = sd_mine sd"
        by (simp_all add: sd1_def)
      ultimately show ?thesis using sg q by (simp add: stage_ok_def add.commute del: length_take)
    qed
    then show ?thesis using stage_ok_cong [OF that] by blast
  qed
  have cover: "of_nat ` {..<Suc k} = insert q (of_nat ` {..<k} :: u32 set)"
    using q by (simp add: lessThan_Suc)
  show ?thesis
  proof (cases "ex (jkey j q) = Some (of_nat (length (jslice j k)))")
    case True
    with run t have r: "r = Inr ()" "s' = s"
      "sd' = sd1\<lparr>sd_uploaded := q # sd_uploaded sd1, sd_seq := q + 1\<rparr>"
      by (auto simp: enqueue_chunk_def Let_def q_def sd1_def)
    have "stage sd' = stage (sd1\<lparr>sd_seq := q + 1\<rparr>)" by (simp add: r(3) stage_def)
    from sg1 [OF this] have sg': "stage_ok cd (ho_blake3 h) j (Suc k) (Suc k) sd'" .
    have "contents s (jkey j q) = Some (jslice j k)"
      using existing_is_slice [OF ex oc] True q by simp
    with up1 r(3) have "uploads_ok j (Suc k) (contents s) sd'"
      using q by (auto simp: uploads_ok_def cover)
    with r(1,2) oc sg' show ?thesis by (simp add: uploads_ok_def)
  next
    case False
    obtain r2 s2 sd2 where d: "drain_to h t (max par 1 - 1) (s, sd1) = (r2, s2, sd2)"
      by (metis prod.collapse)
    note D = drain_to_ok [OF t(1) root d oc up1]
    show ?thesis
    proof (cases r2)
      case (Inl e)
      with run False t d have "r = Inl e" "s' = s2" "sd' = sd2"
        by (simp_all add: enqueue_chunk_def Let_def q_def sd1_def)
      with D show ?thesis by simp
    next
      case (Inr x)
      let ?u = "\<lparr>up_seq = q, up_key = jkey j q, up_data = jslice j k, up_crc = ho_crc32c h (jslice j k)\<rparr>"
      from Inr run False t d have r: "r = Inr ()" "s' = s2"
        "sd' = sd2\<lparr>sd_inflight := sd_inflight sd2 @ [?u], sd_seq := q + 1\<rparr>"
        by (auto simp: enqueue_chunk_def Let_def q_def sd1_def)
      have "stage sd' = stage (sd1\<lparr>sd_seq := q + 1\<rparr>)" using D by (simp add: r(3) stage_def)
      from sg1 [OF this] have sg': "stage_ok cd (ho_blake3 h) j (Suc k) (Suc k) sd'" .
      have "upload_ok j ?u" by (simp add: upload_ok_def q(2))
      with D Inr r(3) have "uploads_ok j (Suc k) (contents s2) sd'"
        by (auto simp: uploads_ok_def cover)
      with r(1,2) D sg' show ?thesis by (simp add: uploads_ok_def)
    qed
  qed
qed

lemma handle_chunk_ok:
  assumes t: "tg_store t = st" "tg_prefix t = jb_prefix j" and root: "clean_path (key_root (jb_prefix j))"
    and cd: "codec_ok cd" and ex: "existing_ok j v ex" and k: "k < 2 ^ 32"
    and run: "handle_chunk cd h t (jb_ds j) (jb_snap j) ex par (jslice j k) (s, sd) = (r, s', sd')"
    and oc: "on_course cd j (contents s)" and up: "uploads_ok j k (contents s) sd"
    and sg: "stage_ok cd (ho_blake3 h) j k k sd"
  shows "on_course cd j (contents s') \<and> list_all (upload_ok j) (sd_inflight sd') \<and>
    (r = Inr () \<longrightarrow> uploads_ok j (Suc k) (contents s') sd' \<and> stage_ok cd (ho_blake3 h) j (Suc k) (Suc k) sd')"
proof -
  obtain r0 q where f: "feed (jslice j k) (sd_parser sd) = (r0, q)" by fastforce
  show ?thesis
  proof (cases r0)
    case (Inl e)
    with run f have "r = Inl (EStream e)" "s' = s" "sd' = sd\<lparr>sd_parser := q\<rparr>" by (simp_all add: handle_chunk_def)
    with oc up show ?thesis by (simp add: uploads_ok_def)
  next
    case (Inr evs)
    define sd0 where "sd0 = sd\<lparr>sd_parser := q, sd_end := last_end cd evs (sd_end sd)\<rparr>"
    have up0: "uploads_ok j k (contents s) sd0" using up by (simp add: uploads_ok_def sd0_def)
    have "read_ok cd (take (k * jb_size j) (jb_bytes j) @ jslice j k) q (last_end cd evs (sd_end sd))"
      using sg by (intro read_ok_append [OF _ f [unfolded Inr]]) (simp add: stage_ok_def)
    then have sg0: "stage_ok cd (ho_blake3 h) j (Suc k) k sd0"
      using sg unfolding take_slice by (simp add: stage_ok_def sd0_def)
    obtain r1 s1 sd1 where l: "refresh_lease cd h t (jmarker j) (s, sd0) = (r1, s1, sd1)"
      by (metis prod.collapse)
    note L = refresh_lease_ok [OF t(1) root cd l oc up0 sg0]
    show ?thesis
    proof (cases r1)
      case Inl': (Inl e)
      with run f Inr l t(2) have "r = Inl e" "s' = s1" "sd' = sd1"
        by (simp_all add: handle_chunk_def bind_io_def sd0_def)
      with L show ?thesis by (simp add: uploads_ok_def)
    next
      case Inr': (Inr u)
      with run f Inr l t(2)
      have "enqueue_chunk h t (jb_ds j) (jb_snap j) ex par (jslice j k) (s1, sd1) = (r, s', sd')"
        by (simp add: handle_chunk_def bind_io_def sd0_def)
      from enqueue_chunk_ok [OF t root ex k this] L show ?thesis by blast
    qed
  qed
qed

lemma send_loop_ok:
  assumes t: "tg_store t = st" "tg_prefix t = jb_prefix j" and root: "clean_path (key_root (jb_prefix j))"
    and cd: "codec_ok cd" and ex: "existing_ok j v ex" and short: "length (jb_bytes j) \<le> 2 ^ 32 * jb_size j"
  shows "send_loop cd h t (jb_ds j) (jb_snap j) ex par (jb_size j) p (s, sd) = (r, s', sd') \<Longrightarrow>
    pipe_bytes p = drop (k * jb_size j) (jb_bytes j) \<Longrightarrow> on_course cd j (contents s) \<Longrightarrow>
    uploads_ok j k (contents s) sd \<Longrightarrow> stage_ok cd (ho_blake3 h) j k k sd \<Longrightarrow> k \<le> 2 ^ 32 \<Longrightarrow>
    on_course cd j (contents s') \<and> list_all (upload_ok j) (sd_inflight sd') \<and>
    (r = Inr () \<longrightarrow> (\<exists>k. uploads_ok j k (contents s') sd' \<and> stage_ok cd (ho_blake3 h) j k k sd' \<and>
       length (jb_bytes j) \<le> k * jb_size j \<and> k \<le> 2 ^ 32))"
proof (induction "pipe_size p" arbitrary: p s sd k rule: less_induct)
  case less
  note loop = less.prems(1) [unfolded send_loop.simps [of cd h t "jb_ds j" "jb_snap j" ex par "jb_size j" p]]
  obtain r0 p1 where f: "fill_chunk (jb_size j) [] p = (r0, p1)" by fastforce
  have up: "list_all (upload_ok j) (sd_inflight sd)" using less.prems(4) by (simp add: uploads_ok_def)
  show ?case
  proof (cases r0)
    case (Inl e)
    with loop f have "r = Inl (Message e)" "s' = s" "sd' = sd" by simp_all
    with less.prems(3) up show ?thesis by simp
  next
    case (Inr b)
    from fill_chunk_bytes [OF f [unfolded Inr]] less.prems(2)
    have b: "b = jslice j k" "pipe_bytes p1 = drop (Suc k * jb_size j) (jb_bytes j)"
      by (simp_all add: slice_def add.commute)
    show ?thesis
    proof (cases "b = []")
      case True
      with loop f Inr have "r = Inr ()" "s' = s" "sd' = sd" by simp_all
      moreover have "length (jb_bytes j) \<le> k * jb_size j"
        using True b(1) ex by (simp add: slice_def existing_ok_def)
      ultimately show ?thesis using less.prems(3-6) up by blast
    next
      case False
      with b(1) have "k * jb_size j < length (jb_bytes j)"
        by (cases "k * jb_size j < length (jb_bytes j)") (simp_all add: slice_def)
      with short have "k * jb_size j < 2 ^ 32 * jb_size j" by linarith
      then have k: "k < 2 ^ 32" by simp
      obtain r1 s1 sd1 where c: "handle_chunk cd h t (jb_ds j) (jb_snap j) ex par (jslice j k) (s, sd) = (r1, s1, sd1)"
        by (metis prod.collapse)
      note C = handle_chunk_ok [OF t root cd ex k c less.prems(3-5)]
      show ?thesis
      proof (cases r1)
        case (Inl e)
        with loop f Inr False c b(1) have "r = Inl e" "s' = s1" "sd' = sd1" by simp_all
        with C show ?thesis by simp
      next
        case Inr': (Inr u)
        with loop f Inr False c b(1)
        have l: "send_loop cd h t (jb_ds j) (jb_snap j) ex par (jb_size j) p1 (s1, sd1) = (r, s', sd')" by simp
        have "pipe_size p1 < pipe_size p" using fill_chunk_size [OF f] Inr False by blast
        from less.hyps [OF this l b(2)] C Inr' k show ?thesis by simp
      qed
    qed
  qed
qed

lemma abandon_ok:
  assumes t: "tg_store t = st" and root: "clean_path (key_root (jb_prefix j))"
  shows "list_all (upload_ok j) us \<Longrightarrow> on_course cd j (contents s) \<Longrightarrow>
    on_course cd j (contents (abandon t lands us s))"
proof (induction us arbitrary: lands s)
  case (Cons u us)
  have u: "up_key u = jkey j (up_seq u)" "up_data u = jslice j (unat (up_seq u))"
    using Cons.prems(1) by (simp_all add: upload_ok_def)
  let ?r = "store_put_verified st (up_key u) (up_data u) (up_crc u) s"
  have "clean_path (up_key u)" using clean_keys(3) [OF root] u by simp
  from put_verified_write [OF this, of "up_data u" "up_crc u" s "fst ?r" "snd ?r"]
  have "contents (snd ?r) = contents s \<or> contents (snd ?r) = (contents s)(up_key u \<mapsto> up_data u)" by simp
  then have "on_course cd j (contents (snd ?r))"
    using Cons.prems(2) on_course_chunk [OF Cons.prems(2), of "up_seq u"] u by auto
  with Cons show ?case by (simp add: t)
qed simp

text \<open>Clearing a directory.\<close>

lemma purge_version_ok:
  assumes "clean_path (fst kv)" "sole_version (snd kv)" "purge_version st kv s = (r, s')"
  shows "(contents s' = contents s \<or> contents s' = (contents s)(fst kv := None)) \<and>
    (r = Inr () \<longrightarrow> contents s' = (contents s)(fst kv := None))"
proof (cases "st_admin st")
  case None
  with assms(3) have "store_delete st (fst kv) s = (r, s')" by (simp add: purge_version_def)
  with assms(1) bk.del_any bk.del_ok show ?thesis by fastforce
next
  case (Some a)
  obtain r0 x where x: "ad_delete_version a (fst kv) (snd kv) (ext s) = (r0, x)" by fastforce
  with assms(3) Some have "r = map_sum Admin id r0" "s' = s\<lparr>ext := x\<rparr>"
    by (auto simp: purge_version_def outside_def)
  with ad_delete_any [OF Some assms(1,2) x] ad_delete_ok [OF Some assms(1,2)] x show ?thesis by (auto simp: map_sum_Inr)
qed

lemma purge_all_ok:
  "\<forall>kv \<in> set vs. clean_path (fst kv) \<and> sole_version (snd kv) \<Longrightarrow> for_each (purge_version st) vs s = (r, s') \<Longrightarrow>
   (\<forall>k. contents s' k = contents s k \<or> k \<in> fst ` set vs \<and> contents s' k = None) \<and>
   (r = Inr () \<longrightarrow> contents s' = (\<lambda>k. if k \<in> fst ` set vs then None else contents s k))"
proof (induction vs arbitrary: s)
  case (Cons kv vs)
  obtain r0 s1 where 1: "purge_version st kv s = (r0, s1)" by fastforce
  have P: "(contents s1 = contents s \<or> contents s1 = (contents s)(fst kv := None)) \<and>
      (r0 = Inr () \<longrightarrow> contents s1 = (contents s)(fst kv := None))"
    using Cons.prems(1) by (intro purge_version_ok [OF _ _ 1]) simp_all
  show ?case
  proof (cases r0)
    case (Inl e)
    with Cons.prems(2) 1 have "r = Inl e" "s' = s1" by (simp_all add: bind_io_def)
    with P show ?thesis by auto
  next
    case (Inr u)
    with Cons.prems(2) 1 have "for_each (purge_version st) vs s1 = (r, s')" by (simp add: bind_io_def)
    from Cons.IH [OF _ this] Cons.prems(1) have I: "(\<forall>k. contents s' k = contents s1 k \<or> k \<in> fst ` set vs \<and> contents s' k = None) \<and>
       (r = Inr () \<longrightarrow> contents s' = (\<lambda>k. if k \<in> fst ` set vs then None else contents s1 k))" by simp
    from P Inr have s1: "contents s1 = (contents s)(fst kv := None)" by simp
    have "contents s' k = contents s k \<or> k \<in> fst ` set (kv # vs) \<and> contents s' k = None" for k
      using I [THEN conjunct1, rule_format, of k] s1 by (cases "k = fst kv") auto
    moreover have "contents s' = (\<lambda>k. if k \<in> fst ` set (kv # vs) then None else contents s k)" if "r = Inr ()"
      using I s1 that by auto
    ultimately show ?thesis by blast
  qed
qed simp

lemma list_versions_ok:
  assumes p: "clean_path p" and run: "store_list_versions st (p @ ''/'') s = (r, s')"
    and clean: "\<And>k. contents s k \<noteq> None \<Longrightarrow> below p k \<Longrightarrow> clean_path k"
  shows "contents s' = contents s \<and> (\<forall>vs. r = Inr vs \<longrightarrow>
    (\<forall>kv \<in> set vs. clean_path (fst kv) \<and> below p (fst kv) \<and> sole_version (snd kv)) \<and>
    (\<forall>k. contents s k \<noteq> None \<longrightarrow> below p k \<longrightarrow> k \<in> fst ` set vs))"
proof (cases "st_admin st")
  case (Some a)
  obtain r0 x where x: "ad_list_versions a (p @ ''/'') (ext s) = (r0, x)" by fastforce
  with run Some have "r = map_sum Admin id r0" "s' = s\<lparr>ext := x\<rparr>"
    by (auto simp: store_list_versions_def outside_def)
  moreover have "clean_below p (contents s)" using clean by (simp add: clean_below_def)
  ultimately show ?thesis
    using ad_versions_view [OF Some p _ x] ad_versions_ok [OF Some p] x by (fastforce simp: map_sum_Inr)
next
  case None
  obtain r0 where l: "store_list st (p @ ''/'') s = (r0, s')"
    "r = map_sum id (map (\<lambda>(k, _). (k, []))) r0"
    using run None by (auto simp: store_list_versions_def bind_io_def ret_def split: prod.splits sum.splits)
  note L = bk.list_any [OF p l(1)] bk.list_ok [OF p]
  show ?thesis
  proof (cases r0)
    case (Inr items)
    from L(2) [OF l(1) [unfolded Inr]] have I: "k \<in> fst ` set items \<longleftrightarrow> contents s k \<noteq> None \<and> below p k" for k
      by force
    define vs :: "(string \<times> string) list" where "vs = map (\<lambda>(k, _). (k, [])) items"
    have "fst ` set vs = fst ` set items" unfolding vs_def by force
    with I have vs: "k \<in> fst ` set vs \<longleftrightarrow> contents s k \<noteq> None \<and> below p k" for k by simp
    have "r = Inr vs" using l(2) Inr by (simp add: vs_def)
    moreover have "clean_path (fst kv) \<and> below p (fst kv) \<and> sole_version (snd kv)" if "kv \<in> set vs" for kv
      using vs [of "fst kv"] that clean by (auto simp: vs_def sole_version_def)
    ultimately show ?thesis using L(1) vs by simp
  qed (use L l in auto)
qed

lemma purge_prefix_ok:
  assumes p: "clean_path p" and run: "purge_prefix st (p @ ''/'') s = (r, s')"
    and clean: "\<And>k. contents s k \<noteq> None \<Longrightarrow> below p k \<Longrightarrow> clean_path k"
  shows "(\<forall>k. contents s' k = contents s k \<or> below p k \<and> contents s' k = None) \<and>
    (\<forall>x. r = Inr x \<longrightarrow> (\<forall>k. below p k \<longrightarrow> contents s' k = None))"
proof -
  have up: "contents v' = contents v" if "store_list_uploads st (p @ ''/'') v = (r', v')" for v r' v'
    using that ad_uploads_view [OF _ p]
    by (fastforce simp: store_list_uploads_def outside_def ret_def split: option.splits prod.splits)
  have ab: "contents v' = contents v" if "store_abort_multipart st k i v = (r', v')" for k i v r' v'
  proof -
    obtain r0 x where x: "be_abort_multipart be (store_path st k) i (ext v) = (r0, x)" by fastforce
    with that have "v' = v\<lparr>ext := x\<rparr>"
      by (auto simp: store_abort_multipart_def outside_def try_io_def inner ret_def throw_def lift_result_def
          split: sum.splits store_error.splits if_splits)
    with abort_view [OF x] show ?thesis by simp
  qed
  obtain rv s1 where 1: "store_list_versions st (p @ ''/'') s = (rv, s1)" by fastforce
  note V = list_versions_ok [OF p 1 clean]
  show ?thesis
  proof (cases rv)
    case (Inl e)
    with run 1 have "r = Inl e" "s' = s1" by (simp_all add: purge_prefix_def bind_io_def)
    with V show ?thesis by simp
  next
    case (Inr vs)
    obtain rd s2 where 2: "for_each (purge_version st) vs s1 = (rd, s2)" by fastforce
    have D: "(\<forall>k. contents s2 k = contents s1 k \<or> k \<in> fst ` set vs \<and> contents s2 k = None) \<and>
       (rd = Inr () \<longrightarrow> contents s2 = (\<lambda>k. if k \<in> fst ` set vs then None else contents s1 k))"
      using V Inr by (intro purge_all_ok [OF _ 2]) blast
    have tail: "contents s' = contents s2 \<and> (\<forall>x. r = Inr x \<longrightarrow> rd = Inr ())"
    proof (cases rd)
      case (Inl e)
      with run 1 Inr 2 have "r = Inl e" "s' = s2" by (simp_all add: purge_prefix_def bind_io_def)
      then show ?thesis by simp
    next
      case Inr': (Inr u)
      let ?tail = "bind_io (store_list_uploads st (p @ ''/'')) (\<lambda>us.
        bind_io (for_each (\<lambda>(key, i). store_abort_multipart st key i) us) (\<lambda>_. ret (length vs, length us)))"
      have "?tail s2 = (r, s')" using run 1 Inr 2 Inr' by (simp add: purge_prefix_def bind_io_def)
      moreover have "keeps (\<lambda>v. contents v = contents s2) ?tail"
      proof (intro keeps_bind keeps_for_each keeps_ret)
        show "keeps (\<lambda>v. contents v = contents s2) (store_list_uploads st (p @ ''/''))"
          unfolding keeps_def using up by (metis prod.collapse)
        show "keeps (\<lambda>v. contents v = contents s2) (case y of (key, i) \<Rightarrow> store_abort_multipart st key i)" for y
          using ab [of "fst y" "snd y"] by (cases y) (metis (mono_tags, lifting) fst_conv keeps_def old.prod.case prod.collapse snd_conv)
      qed
      ultimately have "contents s' = contents s2"
        using keepsD [of "\<lambda>v. contents v = contents s2" ?tail s2 r s'] by blast
      then show ?thesis using Inr' by simp
    qed
    have "below p k" if "k \<in> fst ` set vs" for k using V Inr that by auto
    then have a: "contents s' k = contents s k \<or> below p k \<and> contents s' k = None" for k
      using D [THEN conjunct1, rule_format, of k] V tail by auto
    have "contents s' k = None" if "r = Inr x" "below p k" for x k
    proof (cases "contents s k")
      case None
      then show ?thesis using a [of k] by auto
    next
      case (Some v)
      with V Inr that(2) have "k \<in> fst ` set vs" by auto
      with D tail that(1) show ?thesis by simp
    qed
    with a show ?thesis by blast
  qed
qed

text \<open>The decision to resume.\<close>

lemma previous_marker_ok:
  assumes "tg_store t = st" "clean_path k" "previous_marker t k s = (r, s')"
  shows "contents s' = contents s \<and> (\<forall>x. r = Inr x \<longrightarrow> contents s k = x)"
proof -
  obtain r0 s1 where g: "store_get st k s = (r0, s1)" by fastforce
  note G = bk.get_any [OF assms(2) g] bk.get_ok [OF assms(2)] bk.get_missing [OF assms(2)]
  show ?thesis
  proof (cases "\<exists>n. r0 = Inl (NotFound n)")
    case True
    with assms(1,3) g G show ?thesis by (auto simp: previous_marker_def try_io_def)
  next
    case False
    with assms(1,3) g have "s' = s1 \<and> (\<forall>x. r = Inr x \<longrightarrow> (\<exists>v. r0 = Inr v \<and> x = Some v))"
      by (auto simp: previous_marker_def try_io_def split: sum.splits store_error.splits)
    with g G show ?thesis by auto
  qed
qed

lemma new_marker_ok:
  assumes "new_marker h cs from_guid flags s = (r, s')"
  shows "contents s' = contents s \<and> (\<exists>mine. r = Inr mine \<and> pd_from_guid mine = from_guid \<and>
    pd_send_flags mine = flags \<and> pd_chunk_size mine = cs)"
  using assms uuid_view by (auto simp: new_marker_def split: prod.splits)

lemma resume_decision_Inr:
  "resume_decision cd snap marker mine previous now = Inr True \<Longrightarrow>
   \<exists>x p. previous = Some x \<and> co_decp cd x = Inr p \<and> same_stream p mine"
  by (auto simp: resume_decision_def split: option.splits sum.splits if_splits)

lemma below_chunk: "below (snapshot_dir p d g) (chunk_key p d g q)"
  by (simp add: below_def starts_with_iff key_files)

lemma prepare_resume_ok:
  assumes t: "tg_store t = st" and tidy: "tidy (tg_prefix t) (contents s)"
    and fa: "faithful cd orig (tg_prefix t) (contents s)"
    and run: "prepare_resume cd h t snap cs d g from_guid flags s = (r, s')"
  shows "(\<forall>k. contents s' k = contents s k \<or> below (snapshot_dir (tg_prefix t) d g) k \<and> contents s' k = None) \<and>
    (\<forall>mine ex. r = Inr (mine, ex) \<longrightarrow>
       pd_from_guid mine = from_guid \<and> pd_send_flags mine = flags \<and> pd_chunk_size mine = cs \<and>
       slices_of (tg_prefix t) d g (unat cs) (orig g from_guid flags) (contents s') \<and>
       (\<forall>q m. ex (chunk_key (tg_prefix t) d g q) = Some m \<longrightarrow>
          (\<exists>c. contents s' (chunk_key (tg_prefix t) d g q) = Some c \<and> of_nat (length c) = m)))"
proof -
  let ?dir = "snapshot_dir (tg_prefix t) d g" and ?marker = "pending_key (tg_prefix t) d g"
  have root: "clean_path (key_root (tg_prefix t))" using tidy by (simp add: tidy_def)
  then have dir: "clean_path ?dir" by (simp add: clean_dir)
  have clean: "clean_path k" if "contents s k \<noteq> None" "below ?dir k" for k
    using that tidy by (auto simp: tidy_def below_def starts_with_iff snapshot_dir_def)
  obtain rl s1 where 1: "store_list st (?dir @ ''/'') s = (rl, s1)" by fastforce
  have b1: "contents s1 = contents s" using bk.list_any [OF dir 1] .
  note run = run [unfolded prepare_resume_def Let_def]
  show ?thesis
  proof (cases rl)
    case (Inl e)
    with run 1 t b1 show ?thesis by (auto simp: bind_io_def err_io_def)
  next
    case (Inr items)
    from bk.list_ok [OF dir 1 [unfolded Inr]] have items: "distinct (map fst items)"
      "(k, n) \<in> set items \<longleftrightarrow> (\<exists>v. contents s k = Some v \<and> below ?dir k \<and> n = of_nat (length v))" for k n
      by blast+
    obtain mine s2 where 2: "new_marker h cs from_guid flags s1 = (Inr mine, s2)"
      and m: "pd_from_guid mine = from_guid" "pd_send_flags mine = flags" "pd_chunk_size mine = cs"
      and b2: "contents s2 = contents s"
      using new_marker_ok [of cs from_guid flags s1] b1 by (metis prod.collapse)
    obtain rp s3 where 3: "previous_marker t ?marker s2 = (rp, s3)" by fastforce
    note P = previous_marker_ok [OF t clean_keys(2) [OF root] 3]
    have b3: "contents s3 = contents s" using P b2 by simp
    show ?thesis
    proof (cases rp)
      case (Inl e)
      with run 1 t Inr 2 3 b3 show ?thesis by (auto simp: bind_io_def err_io_def)
    next
      case Inr': (Inr previous)
      let ?dec = "resume_decision cd snap ?marker mine previous (ho_now h (ext s3))"
      show ?thesis
      proof (cases ?dec)
        case (Inl e)
        with run 1 t Inr 2 3 Inr' b3 show ?thesis by (auto simp: bind_io_def err_io_def lift_result_def)
      next
        case dec: (Inr resume)
        show ?thesis
        proof (cases "\<not> resume \<and> items \<noteq> []")
          case True
          obtain rd where 4: "purge_prefix st (?dir @ ''/'') s3 = (rd, s')"
            and r: "\<forall>mine' ex. r = Inr (mine', ex) \<longrightarrow> (\<exists>x. rd = Inr x) \<and> mine' = mine \<and> ex = (\<lambda>_. None)"
            using run 1 t Inr 2 3 Inr' dec True
            by (cases "purge_prefix st (?dir @ ''/'') s3"; cases "fst (purge_prefix st (?dir @ ''/'') s3)")
              (auto simp: bind_io_def err_io_def lift_result_def)
          from purge_prefix_ok [OF dir 4] clean b3 have
            Q: "\<forall>k. contents s' k = contents s k \<or> below ?dir k \<and> contents s' k = None"
            "\<forall>x. rd = Inr x \<longrightarrow> (\<forall>k. below ?dir k \<longrightarrow> contents s' k = None)" by simp_all
          have "slices_of (tg_prefix t) d g (unat cs) (orig g from_guid flags) (contents s')" if "rd = Inr x" for x
            using Q(2) that by (simp add: slices_of_def below_chunk)
          with Q(1) r m show ?thesis by auto
        next
          case False
          then have e: "r = Inr (mine, map_of (rev items))" "s' = s3"
            using run 1 t Inr 2 3 Inr' dec by (auto simp: bind_io_def err_io_def lift_result_def split: if_splits)
          have "slices_of (tg_prefix t) d g (unat cs) (orig g from_guid flags) (contents s)"
          proof (cases resume)
            case True
            with dec have "?dec = Inr True" by simp
            from resume_decision_Inr [OF this] obtain x p where
              p: "previous = Some x" "co_decp cd x = Inr p" "same_stream p mine" by blast
            with P Inr' b2 have "contents s ?marker = Some x" by simp
            from fa [unfolded faithful_def, rule_format, OF this p(2)] p(3) m show ?thesis
              by (simp add: same_stream_def)
          next
            case no: False
            with False have "items = []" by simp
            then have "contents s k = None" if "below ?dir k" for k
              using items(2) that by (cases "contents s k") auto
            then show ?thesis by (simp add: slices_of_def below_chunk)
          qed
          moreover have "\<exists>c. contents s k = Some c \<and> of_nat (length c) = m"
            if "map_of (rev items) k = Some m" for k m
          proof -
            from map_of_SomeD [OF that] have "(k, m) \<in> set items" by simp
            with items(2) show ?thesis by auto
          qed
          ultimately show ?thesis using e m b3 by simp
        qed
      qed
    qed
  qed
qed

lemma spawn_child_view:
  assumes "spawn_child h args s = (r, s')"
  shows "contents s' = contents s"
proof -
  obtain r0 where "on_ext (ho_spawn h args) s = (r0, s')"
    using assms by (auto simp: spawn_child_def err_io_def split: prod.splits)
  then show ?thesis using spawn_view by (rule on_ext_view [rotated])
qed

text \<open>The loop and the last joins, on course from beginning to end.\<close>

lemma stream_loop_ok:
  assumes t: "tg_store t = st" "tg_prefix t = jb_prefix j" and root: "clean_path (key_root (jb_prefix j))"
    and cd: "codec_ok cd" and ex: "existing_ok j v ex" and short: "length (jb_bytes j) \<le> 2 ^ 32 * jb_size j"
    and p: "pipe_bytes p = jb_bytes j" and oc: "on_course cd j (contents s)"
    and run: "bind_io (send_loop cd h t (jb_ds j) (jb_snap j) ex par (jb_size j) p) (\<lambda>_. drain_to h t 0)
        (s, sending_start (jb_mine j) now picks) = (r, s', sd')"
  shows "on_course cd j (contents s') \<and> list_all (upload_ok j) (sd_inflight sd') \<and>
    (r = Inr () \<longrightarrow> (\<exists>k. uploads_ok j k (contents s') sd' \<and> sd_inflight sd' = [] \<and>
       stage_ok cd (ho_blake3 h) j k k sd' \<and> length (jb_bytes j) \<le> k * jb_size j \<and> k \<le> 2 ^ 32))"
proof -
  let ?sd = "sending_start (jb_mine j) now picks"
  obtain r1 s1 sd1 where l: "send_loop cd h t (jb_ds j) (jb_snap j) ex par (jb_size j) p (s, ?sd) = (r1, s1, sd1)"
    by (metis prod.collapse)
  have up: "uploads_ok j 0 (contents s) ?sd" by (simp add: uploads_ok_def sending_start_def)
  have sg: "stage_ok cd (ho_blake3 h) j 0 0 ?sd"
    by (simp add: stage_ok_def sending_start_def read_ok_def feed_def last_end_def)
  note L = send_loop_ok [OF t root cd ex short l _ oc up sg] p
  show ?thesis
  proof (cases r1)
    case (Inl e)
    with run l have "r = Inl e" "s' = s1" "sd' = sd1" by (simp_all add: bind_io_def)
    with L show ?thesis by simp
  next
    case (Inr u)
    with run l have d: "drain_to h t 0 (s1, sd1) = (r, s', sd')" by (simp add: bind_io_def)
    from L Inr obtain k where k: "on_course cd j (contents s1)" "uploads_ok j k (contents s1) sd1"
      "stage_ok cd (ho_blake3 h) j k k sd1" "length (jb_bytes j) \<le> k * jb_size j" "k \<le> 2 ^ 32" by auto
    from drain_to_ok [OF t(1) root d k(1,2)] k(3-5) stage_ok_cong [of sd' sd1]
    show ?thesis by auto
  qed
qed

lemma conclude_Inr:
  assumes "conclude h ch sd = Inr res"
  shows "ch_status ch = Inr (Some 0)" "parser_finish (sd_parser sd) = Inr ()"
    "card (set (sd_uploaded sd)) = length (sd_chunks sd)"
    "res = (sd_chunks sd, sd_total sd, ho_blake3 h (sd_fed sd), sd_end sd)"
  using assms
  by (auto simp: conclude_def result_simps map_err_def wait_child_def split: if_splits sum.splits)

lemma conclude_stored:
  assumes ch: "child_ok ch v" and c: "conclude h ch sd = Inr res" and j: "jb_bytes j = pipe_bytes (ch_pipe ch)"
    "jb_size j > 0" and up: "uploads_ok j k b sd" and fl: "sd_inflight sd = []"
    and sg: "stage_ok cd (ho_blake3 h) j k k sd" and len: "length (jb_bytes j) \<le> k * jb_size j"
  shows "stored cd (ho_blake3 h) (jb_prefix j) (jb_ds j) (jb_snap j) v b res"
proof -
  note C = conclude_Inr [OF c]
  have v: "jb_bytes j = v" using ch C(1) j by (simp add: child_ok_def)
  have set: "set (sd_uploaded sd) = of_nat ` {..<k}" using up fl by (simp add: uploads_ok_def)
  have chunks: "sd_chunks sd = map (chunk_record (ho_blake3 h) (jb_size j) v) [0..<k]"
    using sg v by (simp add: stage_ok_def)
  then have "card (of_nat ` {..<k} :: u32 set) = k" using C(3) set by simp
  moreover have "card (of_nat ` {..<k} :: u32 set) \<le> card (UNIV :: u32 set)" by (rule card_mono) simp_all
  ultimately have k: "k \<le> 2 ^ 32" by (simp add: card_word)
  have at: "b (jkey j (of_nat i)) = Some (slice (jb_size j) i v)" if "i < k" for i
  proof -
    have "unat (of_nat i :: u32) = i" using that k by (intro unat_of_nat_u32) simp
    moreover have "of_nat i \<in> set (sd_uploaded sd)" using set that by simp
    ultimately show ?thesis using up v by (auto simp: uploads_ok_def)
  qed
  have fed: "sd_fed sd = v" "sd_total sd = of_nat (length v)" "read_ok cd v (sd_parser sd) (sd_end sd)"
    using sg len v by (simp_all add: stage_ok_def)
  have "\<exists>n k. sd_chunks sd = map (chunk_record (ho_blake3 h) n v) [0..<k] \<and> length v \<le> k * n \<and> k \<le> 2 ^ 32 \<and>
      0 < n \<and> (\<forall>i < k. b (jkey j (of_nat i)) = Some (slice n i v))"
    using chunks len v k j(2) at by (intro exI [of _ "jb_size j"] exI [of _ k]) simp
  with fed C(2) show ?thesis by (auto simp: stored_def C(4))
qed

lemma send_stream_ok:
  fixes base :: "(string \<times> guid) option" and a :: args and zsend :: "send_spec \<Rightarrow> child"
    and flags :: send_flags and orig :: origin and g :: guid
  defines "ch \<equiv> zsend \<lparr>sp_to = ag_snapshot a, sp_from = map_option fst base, sp_flags = flags\<rparr>"
    and "v \<equiv> orig g (map_option snd base) flags"
  assumes t: "tg_store t = st" and tidy: "tidy (tg_prefix t) (contents s)"
    and fa: "faithful cd orig (tg_prefix t) (contents s)" and cd: "codec_ok cd"
    and ch: "child_ok ch v" and cs: "cs \<noteq> 0"
    and short: "length (pipe_bytes (ch_pipe ch)) \<le> 2 ^ 32 * unat cs"
    and run: "send_stream cd h t a cs zsend picks lands d g base flags s = (r, s')"
  shows "settled cd orig (tg_prefix t) d g (contents s) (contents s') \<and>
    (\<forall>res. r = Inr res \<longrightarrow> stored cd (ho_blake3 h) (tg_prefix t) d g v (contents s') res)"
proof -
  let ?P = "tg_prefix t" and ?dir = "snapshot_dir (tg_prefix t) d g" and ?marker = "pending_key (tg_prefix t) d g"
  let ?spec = "\<lparr>sp_to = ag_snapshot a, sp_from = map_option fst base, sp_flags = flags\<rparr>"
  have root: "clean_path (key_root ?P)" using tidy by (simp add: tidy_def)
  note run = run [unfolded send_stream_def Let_def, folded ch_def]
  obtain rp s1 where 1: "prepare_resume cd h t (ag_snapshot a) cs d g (map_option snd base) flags s = (rp, s1)"
    by fastforce
  note P = prepare_resume_ok [OF t tidy fa 1]
  from P have less: "contents s1 k = contents s k \<or> below ?dir k \<and> contents s1 k = None" for k by blast
  have base: "settled cd orig ?P d g (contents s) (contents s1)" using fa tidy less by (rule settled_less)
  show ?thesis
  proof (cases rp)
    case (Inl e)
    with run 1 have "r = Inl e" "s' = s1" by (simp_all add: bind_io_def)
    with base show ?thesis by simp
  next
    case (Inr me)
    obtain mine ex where me: "me = (mine, ex)" by (cases me)
    define j where "j = \<lparr>jb_prefix = ?P, jb_ds = d, jb_snap = g, jb_size = unat cs,
      jb_bytes = pipe_bytes (ch_pipe ch), jb_mine = mine, jb_bucket = contents s1\<rparr>"
    have j: "jb_prefix j = ?P" "jb_ds j = d" "jb_snap j = g" "jb_bytes j = pipe_bytes (ch_pipe ch)"
      "jb_mine j = mine" "jb_bucket j = contents s1" "jb_size j = unat cs" by (simp_all add: j_def)
    have M: "pd_from_guid mine = map_option snd base" "pd_send_flags mine = flags" "pd_chunk_size mine = cs"
      "slices_of ?P d g (unat cs) v (contents s1)"
      "\<And>q m. ex (chunk_key ?P d g q) = Some m \<Longrightarrow>
          \<exists>c. contents s1 (chunk_key ?P d g q) = Some c \<and> of_nat (length c) = m"
      using P Inr me by (auto simp: v_def)
    have pre: "prefix (jb_bytes j) v" using ch by (simp add: child_ok_def j)
    have exok: "existing_ok j v ex"
      using pre M(4,5) unat_pos [OF cs] unsigned_less [of cs, where 'a = nat] by (simp add: existing_ok_def j)
    have course: "settled cd orig ?P d g (contents s) b'" if "on_course cd j b'" for b'
      using settled_course [OF fa tidy _ that, of d g "map_option snd base" flags] less M pre
      by (simp add: j v_def [symmetric])
    obtain rw s2 where 2: "write_marker cd h t ?marker mine s1 = (rw, s2)" by fastforce
    note W = write_marker_write [OF t clean_keys(2) [OF root] 2]
    have marked: "on_course cd j (contents s2)" if "co_encp cd mine = Inr x" "contents s2 = (contents s1)(?marker \<mapsto> x)" for x
      using that cd by (auto simp: on_course_def j codec_ok_def key_simps)
    have set2: "settled cd orig ?P d g (contents s) (contents s2)" using W(1) base marked course by auto
    show ?thesis
    proof (cases rw)
      case (Inl e)
      with run 1 Inr me 2 have "r = Inl e" "s' = s2" by (simp_all add: bind_io_def)
      with set2 show ?thesis by simp
    next
      case Inr2: (Inr u)
      have oc2: "on_course cd j (contents s2)" using W(2) Inr2 marked by auto
      obtain rs s3 where 3: "spawn_child h (send_args ?spec) s2 = (rs, s3)" by fastforce
      have b3: "contents s3 = contents s2" using 3 by (rule spawn_child_view)
      show ?thesis
      proof (cases rs)
        case (Inl e)
        with run 1 Inr me 2 Inr2 3 have "r = Inl e" "s' = s3" by (simp_all add: bind_io_def)
        with set2 b3 show ?thesis by simp
      next
        case Inr3: (Inr u)
        obtain rl s4 sd where 4: "bind_io (send_loop cd h t d g ex (ag_parallel a) (unat cs) (ch_pipe ch))
            (\<lambda>_. drain_to h t 0) (s3, sending_start mine (ho_now h (ext s2)) picks) = (rl, s4, sd)"
          by (metis prod.collapse)
        have L: "on_course cd j (contents s4) \<and> list_all (upload_ok j) (sd_inflight sd) \<and>
            (rl = Inr () \<longrightarrow> (\<exists>k. uploads_ok j k (contents s4) sd \<and> sd_inflight sd = [] \<and>
               stage_ok cd (ho_blake3 h) j k k sd \<and> length (jb_bytes j) \<le> k * jb_size j \<and> k \<le> 2 ^ 32))"
          using root oc2 b3 4 short
          by (intro stream_loop_ok [OF t _ _ cd exok]) (simp_all add: j)
        have tail: "(r, s') = (case rl of Inl e \<Rightarrow> (Inl e, abandon t lands (sd_inflight sd) s4)
            | Inr _ \<Rightarrow> (conclude h ch sd, s4))"
          using run 1 Inr me 2 Inr2 3 Inr3 4 by (simp add: bind_io_def [where f = "case_prod _"] bind_io_def [of "write_marker cd h t ?marker mine"] bind_io_def [of "spawn_child h (send_args ?spec)"])
        show ?thesis
        proof (cases rl)
          case (Inl e)
          with tail have "r = Inl e" "s' = abandon t lands (sd_inflight sd) s4" by simp_all
          moreover have "on_course cd j (contents (abandon t lands (sd_inflight sd) s4))"
            using L root by (intro abandon_ok [OF t]) (simp_all add: j)
          ultimately show ?thesis using course by simp
        next
          case Inr4: (Inr u)
          with tail have r: "r = conclude h ch sd" "s' = s4" by simp_all
          from L Inr4 obtain k where k: "uploads_ok j k (contents s4) sd" "sd_inflight sd = []"
            "stage_ok cd (ho_blake3 h) j k k sd" "length (jb_bytes j) \<le> k * jb_size j" by auto
          have "stored cd (ho_blake3 h) ?P d g v (contents s4) res" if "conclude h ch sd = Inr res" for res
            using conclude_stored [OF ch that j(4) _ k] unat_pos [OF cs] by (simp add: j)
          with r L course show ?thesis by simp
        qed
      qed
    qed
  qed
qed

end

section \<open>The bucket in memory\<close>

lemma as_admin_eq: "as_admin m x = (r, x') \<longleftrightarrow> (\<exists>r0. m x = (r0, x') \<and> r = map_sum (\<lambda>_. ad_unavailable) id r0)"
  by (auto simp: as_admin_def err_io_def split: prod.splits)

lemma mem_frames:
  "mem_view (ho_sleep (mem_host answers) n x) = mem_view x"
  "ho_zfs (mem_host answers) args x = (out, x') \<Longrightarrow> mem_view x' = mem_view x"
  "ho_spawn (mem_host answers) args x = (rs, x') \<Longrightarrow> mem_view x' = mem_view x"
  "ho_uuid (mem_host answers) x = (i, x') \<Longrightarrow> mem_view x' = mem_view x"
  "be_abort_multipart mem_backend k upl x = (ra, x') \<Longrightarrow> mem_view x' = mem_view x"
  using mem_write_cases(1) [of id x ra x' id]
  by (auto simp: mem_host_def mem_zfs_def mem_view_def mem_backend_def)

lemma mem_put_cases:
  assumes "mem_write (with_object k v) x = (r, x')"
  shows "mem_view x' = mem_view x \<or> mem_view x' = (mem_view x)(k \<mapsto> v)"
    "r = Inr u \<Longrightarrow> mem_view x' = (mem_view x)(k \<mapsto> v)"
  using mem_write_cases(1,2) [where g = "\<lambda>m. m(k \<mapsto> v)", OF assms] by simp_all

lemma mem_drop_cases:
  assumes "mem_write (without k) x = (r, x')"
  shows "mem_view x' = mem_view x \<or> mem_view x' = (mem_view x)(k := None)"
    "r = Inr u \<Longrightarrow> mem_view x' = (mem_view x)(k := None)"
  using mem_write_cases(1,2) [where g = "\<lambda>m. m(k := None)", OF assms] by simp_all

lemma mem_admin_view:
  "ad_put_object_crc32c mem_admin k v c x = (r, x') \<Longrightarrow>
     mem_view x' = mem_view x \<or> mem_view x' = (mem_view x)(k \<mapsto> v)"
  "ad_put_object_crc32c mem_admin k v c x = (Inr u, x') \<Longrightarrow> mem_view x' = (mem_view x)(k \<mapsto> v)"
  "ad_list_versions mem_admin p x = (rv, x') \<Longrightarrow> mem_view x' = mem_view x"
  "ad_delete_version mem_admin k ver x = (r, x') \<Longrightarrow>
     mem_view x' = mem_view x \<or> mem_view x' = (mem_view x)(k := None)"
  "ad_delete_version mem_admin k ver x = (Inr u, x') \<Longrightarrow> mem_view x' = (mem_view x)(k := None)"
  "ad_list_uploads mem_admin p x = (ru, x') \<Longrightarrow> mem_view x' = mem_view x"
  using mem_put_cases [of k v x _ x'] mem_drop_cases [of k x _ x'] mem_read_cases(1)
  by (auto simp: mem_admin_def as_admin_eq throw_def map_sum_Inr eq_commute [of "Inr _" "map_sum _ _ _"]
      split: if_splits)

lemma mem_admin_versions:
  assumes "ad_list_versions mem_admin p x = (Inr vs, x')"
  shows "fst ` set vs = {k. mem_view x k \<noteq> None \<and> starts_with p k}"
proof -
  let ?f = "\<lambda>x. Inr (map (\<lambda>k. (k, ''null'')) (filter (starts_with p) (remdups (map fst (me_objects x)))))"
  from assms obtain r0 where "mem_read ?f x = (r0, x')" "Inr vs = map_sum (\<lambda>_. ad_unavailable) id r0"
    by (auto simp: mem_admin_def as_admin_eq)
  with mem_read_cases(2) [OF this(1)] have
    vs: "vs = map (\<lambda>k. (k, ''null'')) (filter (starts_with p) (remdups (map fst (me_objects x))))" by auto
  have "mem_view x k \<noteq> None \<longleftrightarrow> k \<in> set (map fst (me_objects x))" for k
    by (auto simp: mem_view_def map_of_eq_None_iff)
  with vs show ?thesis by (auto simp: image_image)
qed

lemma mem_admin_null: "ad_list_versions mem_admin p x = (Inr vs, x') \<Longrightarrow> (k, ver) \<in> set vs \<Longrightarrow> ver = ''null''"
  using mem_read_cases(2) by (fastforce simp: mem_admin_def as_admin_eq)

interpretation mem_sender: sender mem_backend mem_view mem_store "mem_host answers" for answers
  by unfold_locales (simp_all add: mem_frames mem_store_def)

lemma mem_service_admin: "st_admin mem_service = Some a \<longleftrightarrow> a = mem_admin"
  by (auto simp: mem_service_def)

interpretation mem_service: sender mem_backend mem_view mem_service "mem_host answers" for answers
proof (unfold_locales, goal_cases)
  case (10 a p x vs x')
  then have l: "ad_list_versions mem_admin (p @ ''/'') x = (Inr vs, x')" by (simp only: mem_service_admin)
  have "k \<in> fst ` set vs \<longleftrightarrow> mem_view x k \<noteq> None \<and> below p k" for k
    using mem_admin_versions [OF l] by (simp add: below_def)
  moreover have "k \<in> fst ` set vs" if "(k, ver) \<in> set vs" for k ver using that by force
  ultimately show ?case using mem_admin_null [OF l] 10(3) by (auto simp: clean_below_def sole_version_def)
qed (simp_all only: mem_service_admin mem_frames mem_admin_view, simp_all add: mem_service_def)

end
