(* ===== verification/Send_Run.thy ===== *)
theory Send_Run
  imports Send_Laws
begin

text \<open>
  The whole command: the base, the stream, the commit. \<open>healthy\<close> is the invariant of a bucket
  that \<open>send\<close> keeps however it ends: every listed backup is a whole stream of \<open>zfs send\<close>, with the
  lengths, hashes and end checksum its manifest records, and what has been uploaded without
  being listed is a beginning of the stream its resume marker describes.
\<close>

section \<open>Healthy buckets\<close>

definition archived ::
  "codec \<Rightarrow> (bytes \<Rightarrow> string) \<Rightarrow> origin \<Rightarrow> string \<Rightarrow> (string \<Rightarrow> bytes option) \<Rightarrow> manifest \<Rightarrow> bool" where
  "archived cd blake orig P b m \<longleftrightarrow>
     (let v = orig (mf_snapshot_guid m) (mf_from_guid m) (mf_send_flags m) in
      holds_stream blake P b m v \<and> of_nat (length v) = mf_bytes m \<and> blake v = mf_stream_blake3 m \<and>
      (\<exists>q. read_ok cd v q (mf_end_checksum m) \<and> parser_finish q = Inr ()))"

text \<open>Every manifest is filed under its own GUIDs.\<close>

definition well_filed :: "codec \<Rightarrow> string \<Rightarrow> (string \<Rightarrow> bytes option) \<Rightarrow> bool" where
  "well_filed cd P b \<longleftrightarrow>
     (\<forall>k x m. manifest_at P b k x \<longrightarrow> co_dec cd x = Inr m \<longrightarrow>
        k = manifest_key P (mf_dataset_guid m) (mf_snapshot_guid m))"

definition intact ::
  "codec \<Rightarrow> (bytes \<Rightarrow> string) \<Rightarrow> origin \<Rightarrow> string \<Rightarrow> (string \<Rightarrow> bytes option) \<Rightarrow> bool" where
  "intact cd blake orig P b \<longleftrightarrow> (\<forall>m. listed (co_dec cd) P b m \<longrightarrow> archived cd blake orig P b m)"

definition healthy ::
  "codec \<Rightarrow> (bytes \<Rightarrow> string) \<Rightarrow> origin \<Rightarrow> string \<Rightarrow> (string \<Rightarrow> bytes option) \<Rightarrow> bool" where
  "healthy cd blake orig P b \<longleftrightarrow>
     tidy P b \<and> well_filed cd P b \<and> faithful cd orig P b \<and> intact cd blake orig P b"

lemma archived_verified: "archived cd blake orig P b m \<Longrightarrow> verified blake P b m"
  by (auto simp: archived_def verified_def Let_def)

lemma intact_sound: "intact cd blake orig P b \<Longrightarrow> sound_bucket (co_dec cd) blake P b"
  unfolding intact_def sound_bucket_def
  using holds_stream_iff [of blake P b] by (fastforce simp: archived_def Let_def)

lemma archived_cong:
  assumes "\<And>q. b' (chunk_key P (mf_dataset_guid m) (mf_snapshot_guid m) q)
      = b (chunk_key P (mf_dataset_guid m) (mf_snapshot_guid m) q)"
  shows "archived cd blake orig P b' m = archived cd blake orig P b m"
proof -
  have "chunk_good blake P b' m = chunk_good blake P b m"
    using assms by (simp add: chunk_good_def fun_eq_iff)
  then show ?thesis by (simp add: archived_def holds_stream_def)
qed

text \<open>Deleting keeps the invariant as long as no listed backup loses a chunk.\<close>

lemma healthy_less:
  assumes h: "healthy cd blake orig P b" and less: "\<And>k. b' k = b k \<or> b' k = None"
    and sound: "sound_bucket (co_dec cd) blake P b'"
  shows "healthy cd blake orig P b'"
proof -
  have sub: "b k = Some x" if "b' k = Some x" for k x using less [of k] that by simp
  have "tidy P b'"
    using h sub by (fastforce simp: healthy_def tidy_def)
  moreover have "well_filed cd P b'"
    using h sub unfolding healthy_def well_filed_def manifest_at_def by blast
  moreover have "faithful cd orig P b'"
    using h by (intro faithful_less [OF _ less]) (simp add: healthy_def)
  moreover have "archived cd blake orig P b' m" if l: "listed (co_dec cd) P b' m" for m
  proof -
    from l have "listed (co_dec cd) P b m" using sub by (auto simp: listed_def)
    with h have a: "archived cd blake orig P b m" by (simp add: healthy_def intact_def)
    from sound l have "backup_good blake P b' m" by (simp add: sound_bucket_def)
    then obtain w where w: "holds_stream blake P b' m w" using holds_stream_iff by blast
    have "chunk_good blake P b m c d" if "chunk_good blake P b' m c d" for c d
      using that sub by (simp add: chunk_good_def)
    with w have "holds_stream blake P b m w"
      unfolding holds_stream_def by (metis (mono_tags, lifting) list_all2_mono)
    moreover from a have "holds_stream blake P b m (orig (mf_snapshot_guid m) (mf_from_guid m) (mf_send_flags m))"
      by (simp add: archived_def Let_def)
    ultimately have "w = orig (mf_snapshot_guid m) (mf_from_guid m) (mf_send_flags m)"
      by (rule holds_stream_unique)
    with w a show ?thesis by (simp add: archived_def Let_def)
  qed
  ultimately show ?thesis by (simp add: healthy_def intact_def)
qed

lemma manifest_at_dir:
  assumes "manifest_at P b k x" "below (snapshot_dir P d g) k"
  shows "k = manifest_key P d g"
proof -
  from assms obtain d' n r where k: "slash \<notin> set d'" "slash \<notin> set n"
    "k = key_root P @ slash # d' @ slash # n @ slash # ''manifest.json''"
    "k = snapshot_dir P d g @ slash # r"
    by (auto simp: manifest_at_def below_def starts_with_iff)
  then have "d' @ slash # n @ slash # ''manifest.json'' = guid_display d @ slash # guid_display g @ slash # r"
    by (simp add: snapshot_dir_def)
  then have "split_on slash (d' @ slash # n @ slash # ''manifest.json'')
      = split_on slash (guid_display d @ slash # guid_display g @ slash # r)" by (rule arg_cong)
  then have "d' = guid_display d" "n = guid_display g"
    using k(1,2) by (simp_all add: split_on_append_sep)
  then show ?thesis using k(3) by (simp add: manifest_key_def snapshot_dir_def)
qed

lemma settled_manifest:
  assumes s: "settled cd orig P d g b b'" and m: "manifest_at P b' k x"
  shows "b k = Some x"
proof (cases "below (snapshot_dir P d g) k")
  case True
  with m s manifest_at_dir [OF m True] show ?thesis by (auto simp: manifest_at_def settled_def)
next
  case False
  with m s show ?thesis by (simp add: manifest_at_def settled_def)
qed

lemma settled_listed:
  assumes s: "settled cd orig P d g b b'" and l: "listed dec P b' m"
  shows "listed dec P b m"
proof -
  from l obtain v where v: "b' (manifest_key P (mf_dataset_guid m) (mf_snapshot_guid m)) = Some v" "dec v = Inr m"
    by (auto simp: listed_def)
  from settled_manifest [OF s manifest_key_at [where b = b', OF v(1)]] v(2) show ?thesis by (auto simp: listed_def)
qed

lemma healthy_settled:
  assumes h: "healthy cd blake orig P b" and s: "settled cd orig P d g b b'"
    and new: "\<And>m. listed (co_dec cd) P b m \<Longrightarrow> mf_snapshot_guid m \<noteq> g"
  shows "healthy cd blake orig P b'"
proof -
  have out: "b' k = b k" if "\<not> below (snapshot_dir P d g) k" for k using s that by (simp add: settled_def)
  have man: "b k = Some x" if "manifest_at P b' k x" for k x using settled_manifest [OF s that] .
  then have "well_filed cd P b'"
    using h unfolding healthy_def well_filed_def manifest_at_def by blast
  moreover have "archived cd blake orig P b' m" if l: "listed (co_dec cd) P b' m" for m
  proof -
    from settled_listed [OF s l] have lb: "listed (co_dec cd) P b m" .
    then have "mf_snapshot_guid m \<noteq> g" by (rule new)
    then have "b' (chunk_key P (mf_dataset_guid m) (mf_snapshot_guid m) q)
        = b (chunk_key P (mf_dataset_guid m) (mf_snapshot_guid m) q)" for q
      by (intro out) (simp add: below_keys)
    from archived_cong [where b' = b' and b = b, OF this] lb h show ?thesis by (simp add: healthy_def intact_def)
  qed
  ultimately show ?thesis using s by (simp add: healthy_def intact_def settled_def)
qed

lemma manifest_key_filed:
  "manifest_key P d g = key_root P @ slash # guid_display d @ slash # guid_display g @ slash # ''manifest.json''"
  by (simp add: manifest_key_def snapshot_dir_def)

lemma healthy_commit:
  assumes h: "healthy cd blake orig P b" and m: "archived cd blake orig P b m" and x: "co_dec cd x = Inr m"
  shows "healthy cd blake orig P (b(manifest_key P (mf_dataset_guid m) (mf_snapshot_guid m) \<mapsto> x))"
    (is "healthy _ _ _ _ ?b'")
proof -
  let ?k = "manifest_key P (mf_dataset_guid m) (mf_snapshot_guid m)"
  have root: "clean_path (key_root P)" using h by (simp add: healthy_def tidy_def)
  have "tidy P ?b'" using h clean_keys(1) [OF root] by (auto simp: healthy_def tidy_def)
  moreover have "well_filed cd P ?b'"
    unfolding well_filed_def
  proof (intro allI impI)
    fix k y m' assume k: "manifest_at P ?b' k y" "co_dec cd y = Inr m'"
    show "k = manifest_key P (mf_dataset_guid m') (mf_snapshot_guid m')"
    proof (cases "k = ?k")
      case True
      with k x show ?thesis by (simp add: manifest_at_def)
    next
      case False
      with k(1) have "manifest_at P b k y" by (simp add: manifest_at_def)
      with k(2) h show ?thesis by (simp add: healthy_def well_filed_def)
    qed
  qed
  moreover have "faithful cd orig P ?b'"
    using h by (simp add: healthy_def faithful_def slices_of_def key_simps)
  moreover have "archived cd blake orig P ?b' m'" if l: "listed (co_dec cd) P ?b' m'" for m'
  proof -
    have "archived cd blake orig P b m'"
    proof (cases "manifest_key P (mf_dataset_guid m') (mf_snapshot_guid m') = ?k")
      case True
      with l x m show ?thesis by (auto simp: listed_def)
    next
      case False
      with l have "listed (co_dec cd) P b m'" by (simp add: listed_def)
      with h show ?thesis by (simp add: healthy_def intact_def)
    qed
    then show ?thesis by (subst archived_cong [where b = b]) (simp_all add: key_simps)
  qed
  ultimately show ?thesis by (simp add: healthy_def intact_def)
qed

lemma healthy_delete_pending:
  assumes "healthy cd blake orig P b"
  shows "healthy cd blake orig P (b(pending_key P d g := None))"
  by (rule healthy_less [OF assms])
    (use assms sound_delete_pending intact_sound in \<open>auto simp: healthy_def\<close>)

lemma stored_archived:
  assumes s: "stored cd blake P d (zs_guid snap) v b res"
    and v: "v = orig (zs_guid snap) from_guid flags"
  shows "archived cd blake orig P b (new_manifest a snap d from_guid flags now res)"
proof -
  obtain chunks tot hash ec where res: "res = (chunks, tot, hash, ec)" by (metis prod.collapse)
  let ?m = "new_manifest a snap d from_guid flags now res"
  from s obtain n k where nk: "chunks = map (chunk_record blake n v) [0..<k]" "length v \<le> k * n"
    "\<And>i. i < k \<Longrightarrow> b (chunk_key P d (zs_guid snap) (of_nat i)) = Some (slice n i v)"
    and rest: "tot = of_nat (length v)" "hash = blake v" "\<exists>q. read_ok cd v q ec \<and> parser_finish q = Inr ()"
    by (auto simp: stored_def res)
  have m: "mf_chunks ?m = map (chunk_record blake n v) [0..<k]" "mf_dataset_guid ?m = d"
    "mf_snapshot_guid ?m = zs_guid snap" "mf_from_guid ?m = from_guid" "mf_send_flags ?m = flags"
    "mf_bytes ?m = of_nat (length v)" "mf_stream_blake3 ?m = blake v" "mf_end_checksum ?m = ec"
    using nk(1) rest by (simp_all add: new_manifest_def res)
  have "list_all2 (chunk_good blake P b ?m) (mf_chunks ?m) (map (\<lambda>i. slice n i v) [0..<k])"
    unfolding m(1) list.rel_map
    by (rule list.rel_refl_strong) (simp add: chunk_good_def chunk_record_def m(2,3) nk(3))
  moreover have "v = concat (map (\<lambda>i. slice n i v) [0..<k])" using nk(2) by (simp add: concat_slices)
  ultimately have "holds_stream blake P b ?m v" unfolding holds_stream_def by blast
  with m rest(3) v show ?thesis by (simp add: archived_def Let_def)
qed

section \<open>Names and GUIDs\<close>

text \<open>
  What ZFS promises for the time of one run: the names it lists belong to GUIDs, a relative
  base is one of the dataset being sent, and \<open>zfs send\<close> writes the stream of the two GUIDs and
  the flags. No stream needs more than \<open>2 ^ 32\<close> chunks of the smallest size.
\<close>

definition base_name :: "string \<Rightarrow> string \<Rightarrow> string" where
  "base_name to f =
     (if starts_with ''@'' f \<or> starts_with ''#'' f
      then (case split_once (CHR ''@'') to of Some (ds, _) \<Rightarrow> ds @ f | None \<Rightarrow> f) else f)"

definition names_ok :: "'x host \<Rightarrow> (string \<Rightarrow> guid) \<Rightarrow> bool" where
  "names_ok h guid_of \<longleftrightarrow>
     (\<forall>ds x ss x'. snapshots (ho_zfs h) ds x = (Inr ss, x') \<longrightarrow>
        (\<forall>s \<in> set ss. guid_of (zs_name s) = zs_guid s \<and>
           \<not> starts_with ''@'' (zs_name s) \<and> \<not> starts_with ''#'' (zs_name s))) \<and>
     (\<forall>ds x bs x'. bookmarks (ho_zfs h) ds x = (Inr bs, x') \<longrightarrow>
        (\<forall>b \<in> set bs. guid_of (zb_name b) = zb_guid b \<and>
           \<not> starts_with ''@'' (zb_name b) \<and> \<not> starts_with ''#'' (zb_name b)))"

definition sends_ok :: "origin \<Rightarrow> (string \<Rightarrow> guid) \<Rightarrow> (send_spec \<Rightarrow> child) \<Rightarrow> bool" where
  "sends_ok orig guid_of zsend \<longleftrightarrow>
     (\<forall>spec. child_ok (zsend spec) (orig (guid_of (sp_to spec))
          (map_option (\<lambda>f. guid_of (base_name (sp_to spec) f)) (sp_from spec)) (sp_flags spec)) \<and>
        length (pipe_bytes (ch_pipe (zsend spec))) \<le> 2 ^ 32 * unat MIN_CHUNK)"

lemma parse_snapshot_name:
  "parse_snapshot line = Inr s \<Longrightarrow> split_once (CHR ''@'') (zs_name s) = Some (zs_dataset s, zs_snapname s)"
  by (auto simp: parse_snapshot_def Let_def result_simps split: if_splits)

lemma snapshots_Inr:
  "snapshots sh ds x = (Inr ss, x') \<Longrightarrow> s \<in> set ss \<Longrightarrow> \<exists>line. parse_snapshot line = Inr s"
  by (auto simp: snapshots_def bind_io_Inr map_result_Inr eq_commute [of "Inr _" "map_result _ _"]
      dest: list_all2_in2)

lemma snapshot_Inr:
  assumes "snapshot sh name x = (Inr s, x')"
  shows "zs_name s = name" "split_once (CHR ''@'') name = Some (zs_dataset s, zs_snapname s)"
    "\<exists>ds y ss y'. snapshots sh ds y = (Inr ss, y') \<and> s \<in> set ss"
proof -
  from assms obtain ds ss where ss: "snapshots sh ds x = (Inr ss, x')"
    "List.find (\<lambda>s. zs_name s = name) ss = Some s"
    by (auto simp: snapshot_def bind_io_Inr ok_or_Inr eq_commute [of "Inr _" "ok_or _ _"])
  then show n: "zs_name s = name" and in_ss: "\<exists>ds y ss y'. snapshots sh ds y = (Inr ss, y') \<and> s \<in> set ss"
    using find_SomeD [OF ss(2)] by blast+
  from snapshots_Inr [OF ss(1)] find_SomeD [OF ss(2)] obtain line where "parse_snapshot line = Inr s" by blast
  from parse_snapshot_name [OF this] show "split_once (CHR ''@'') name = Some (zs_dataset s, zs_snapname s)"
    by (simp add: n)
qed

lemma names_okD:
  assumes "names_ok h guid_of"
  shows "snapshots (ho_zfs h) ds x = (Inr ss, x') \<Longrightarrow> s \<in> set ss \<Longrightarrow>
      guid_of (zs_name s) = zs_guid s \<and> \<not> starts_with ''@'' (zs_name s) \<and> \<not> starts_with ''#'' (zs_name s)"
    "bookmarks (ho_zfs h) ds x = (Inr bs, x') \<Longrightarrow> b \<in> set bs \<Longrightarrow>
      guid_of (zb_name b) = zb_guid b \<and> \<not> starts_with ''@'' (zb_name b) \<and> \<not> starts_with ''#'' (zb_name b)"
  using assms unfolding names_ok_def by blast+

lemma snapshot_guid:
  "names_ok h guid_of \<Longrightarrow> snapshot (ho_zfs h) name x = (Inr s, x') \<Longrightarrow> guid_of name = zs_guid s"
  using snapshot_Inr [of "ho_zfs h" name x s x'] unfolding names_ok_def by metis

lemma zfs_io_Inr: "zfs_io h m s = (Inr v, s') \<Longrightarrow> \<exists>x x'. m (ho_zfs h) x = (Inr v, x')"
  by (auto simp: zfs_io_def err_io_Inr on_ext_def split: prod.splits)

lemma pick_base_Some:
  "pick_base snaps marks txg ms = Some (f, g) \<Longrightarrow>
   (\<exists>m \<in> set ms. mf_snapshot_guid m = g) \<and>
   ((\<exists>s \<in> set snaps. zs_name s = f \<and> zs_guid s = g \<and> zs_createtxg s < txg) \<or>
    (\<exists>b \<in> set marks. zb_name b = f \<and> zb_guid b = g \<and> zb_createtxg b < txg))"
proof (induction snaps marks txg ms rule: pick_base.induct)
  case (2 snaps marks txg m ms)
  show ?case
  proof (cases "List.find (\<lambda>s. zs_guid s = mf_snapshot_guid m \<and> zs_createtxg s < txg) snaps")
    case (Some s)
    with 2(2) find_SomeD [OF Some] show ?thesis by auto
  next
    case no: None
    show ?thesis
    proof (cases "List.find (\<lambda>b. zb_guid b = mf_snapshot_guid m \<and> zb_createtxg b < txg) marks")
      case (Some b)
      with 2(2) no find_SomeD [OF Some] show ?thesis by auto
    next
      case None
      with 2(2) no 2(1) [OF no None] show ?thesis by auto
    qed
  qed
qed simp

text \<open>A base that is chosen is archived, and its name stands for it.\<close>

lemma choose_base_Some:
  assumes n: "names_ok h guid_of" and ds: "split_once (CHR ''@'') to = Some (ds, x)"
    and c: "choose_base h a ms dg ds txg s = (Inr (Some (f, g)), s')"
  shows "(\<exists>m \<in> set ms. mf_dataset_guid m = dg \<and> mf_snapshot_guid m = g) \<and> guid_of (base_name to f) = g"
proof -
  have full: "\<not> ag_full a" using c by (auto simp: choose_base_def split: if_splits)
  show ?thesis
  proof (cases "ag_from a")
    case None
    with c full obtain snaps marks u v w where
      z: "zfs_io h (\<lambda>sh. snapshots sh ds) s = (Inr snaps, u)" "zfs_io h (\<lambda>sh. bookmarks sh ds) u = (Inr marks, v)"
      and p: "pick_base snaps marks txg (base_candidates ms dg) = Some (f, g)"
      by (auto simp: choose_base_def auto_base_def bind_io_Inr)
    from pick_base_Some [OF p] have m: "\<exists>m \<in> set ms. mf_dataset_guid m = dg \<and> mf_snapshot_guid m = g"
      by (auto simp: base_candidates_def)
    from zfs_io_Inr [OF z(1)] zfs_io_Inr [OF z(2)] obtain x1 x1' x2 x2' where
      y: "snapshots (ho_zfs h) ds x1 = (Inr snaps, x1')" "bookmarks (ho_zfs h) ds x2 = (Inr marks, x2')" by blast
    have "guid_of f = g \<and> \<not> starts_with ''@'' f \<and> \<not> starts_with ''#'' f"
      using pick_base_Some [OF p, THEN conjunct2] names_okD(1) [OF n y(1)] names_okD(2) [OF n y(2)] by auto
    with m show ?thesis by (simp add: base_name_def)
  next
    case (Some from_name)
    with c full obtain u where r: "resolve_base_guid h ds f s = (Inr g, u)"
      and m: "\<exists>m \<in> set ms. mf_dataset_guid m = dg \<and> mf_snapshot_guid m = g"
      by (auto simp: choose_base_def bind_io_Inr err_io_Inr list_ex_iff split: if_splits)
    have full: "(if starts_with ''@'' f \<or> starts_with ''#'' f then ds @ f else f) = base_name to f"
      by (simp add: base_name_def ds)
    note r = r [unfolded resolve_base_guid_def full Let_def]
    show ?thesis
    proof (cases "contains_str ''#'' (base_name to f)")
      case True
      with r obtain marks v where z: "zfs_io h (\<lambda>sh. bookmarks sh ds) s = (Inr marks, v)"
        and b: "map_option zb_guid (List.find (\<lambda>b. zb_name b = base_name to f) marks) = Some g"
        by (auto simp: bind_io_Inr ok_or_Inr eq_commute [of "Inr _" "ok_or _ _"])
      from b obtain b where b: "List.find (\<lambda>b. zb_name b = base_name to f) marks = Some b" "zb_guid b = g" by auto
      from zfs_io_Inr [OF z] obtain y y' where "bookmarks (ho_zfs h) ds y = (Inr marks, y')" by blast
      from names_okD(2) [OF n this] find_SomeD [OF b(1)] b(2) have "guid_of (base_name to f) = g" by metis
      with m show ?thesis by simp
    next
      case False
      with r obtain v w where z: "zfs_io h (\<lambda>sh. snapshot sh (base_name to f)) s = (Inr v, w)" "zs_guid v = g"
        by (auto simp: bind_io_Inr)
      from zfs_io_Inr [OF z(1)] snapshot_guid [OF n] z(2) have "guid_of (base_name to f) = g" by metis
      with m show ?thesis by simp
    qed
  qed
qed

section \<open>The chunk size\<close>

lemma clamp_bounds: "lo \<le> hi \<Longrightarrow> lo \<le> clamp x lo hi \<and> clamp x lo hi \<le> hi"
  by (auto simp: clamp_def)

lemma adaptive_bounds: "lo \<le> hi \<Longrightarrow> lo \<le> adaptive_chunk_size n lo hi \<and> adaptive_chunk_size n lo hi \<le> hi"
  by (simp add: adaptive_chunk_size_def Let_def clamp_bounds)

lemma chosen_bounds:
  assumes "check_args a = Inr ()"
  shows "MIN_CHUNK \<le> chosen_chunk_size a est \<and> chosen_chunk_size a est \<le> MAX_CHUNK"
proof -
  from assms have a: "MIN_CHUNK \<le> ag_chunk_size a" "ag_chunk_size a \<le> MAX_CHUNK"
    "ag_adaptive a \<Longrightarrow> MIN_CHUNK \<le> ag_min a \<and> ag_max a \<le> MAX_CHUNK \<and> ag_min a \<le> ag_max a"
    by (auto simp: check_args_def not_less split: if_splits)
  show ?thesis
  proof (cases "ag_adaptive a")
    case True
    with a(3) adaptive_bounds [of "ag_min a" "ag_max a"] have
      "MIN_CHUNK \<le> adaptive_chunk_size n (ag_min a) (ag_max a) \<and> adaptive_chunk_size n (ag_min a) (ag_max a) \<le> MAX_CHUNK" for n
      by (meson order.trans)
    with True a show ?thesis by (simp add: chosen_chunk_size_def split: option.split)
  qed (use a in \<open>simp add: chosen_chunk_size_def\<close>)
qed

section \<open>The run\<close>

text \<open>What the runs of \<open>zfs\<close> keep of the machine, every query keeps.\<close>

lemma zfs_keeps:
  assumes run: "\<And>args. keeps I (zfs_run sh args)"
  shows "keeps I (snapshots sh ds)" "keeps I (snapshot sh n)" "keeps I (dataset sh ds)"
    "keeps I (bookmarks sh ds)" "keeps I (estimate sh spec)" "keeps I (hold sh tag n)" "keeps I (release sh tag n)"
    "keeps I (bookmark_exists sh bm)" "keeps I (bookmark sh n bm)" "keeps I (destroy_bookmark sh bm)"
proof -
  show 1: "keeps I (snapshots sh ds)" for ds
    unfolding snapshots_def by (intro keeps_bind run keeps_lift_result)
  show "keeps I (snapshot sh n)"
    unfolding snapshot_def by (auto intro!: keeps_bind 1)
  show "keeps I (dataset sh ds)"
    unfolding dataset_def by (intro keeps_bind run keeps_lift_result)
  show "keeps I (bookmarks sh ds)"
    unfolding bookmarks_def by (intro keeps_bind run keeps_lift_result)
  show "keeps I (estimate sh spec)"
    unfolding estimate_def Let_def by (intro keeps_bind run keeps_lift_result)
  show "keeps I (hold sh tag n)"
    unfolding hold_def by (auto intro!: keeps_try run split: sum.split zfs_error.split)
  show "keeps I (release sh tag n)"
    unfolding release_def by (auto intro!: keeps_try run split: sum.split zfs_error.split)
  show 2: "keeps I (bookmark_exists sh bm)"
    unfolding bookmark_exists_def by (auto intro!: keeps_try run split: sum.split)
  show "keeps I (bookmark sh n bm)"
    unfolding bookmark_def by (auto intro!: keeps_try keeps_bind run 2 split: sum.split)
  show "keeps I (destroy_bookmark sh bm)"
    unfolding destroy_bookmark_def by (auto intro!: keeps_try run split: sum.split)
qed

context sender
begin

abbreviation quiet :: "('x, 'e, 'a) io \<Rightarrow> bool" where
  "quiet m \<equiv> (\<forall>b. keeps (\<lambda>x. view x = b) m)"

lemma quiet_run: "quiet (zfs_run (ho_zfs h) args)"
proof
  fix b
  show "keeps (\<lambda>x. view x = b) (zfs_run (ho_zfs h) args)"
    unfolding keeps_def
  proof (intro allI impI)
    fix x assume "view x = b"
    moreover have "snd (zfs_run (ho_zfs h) args x) = snd (ho_zfs h args x)"
      by (simp add: zfs_run_def Let_def split: prod.split outcome.split)
    ultimately show "view (snd (zfs_run (ho_zfs h) args x)) = b"
      using zfs_view [of args x "fst (ho_zfs h args x)" "snd (ho_zfs h args x)"] by simp
  qed
qed

lemma quiet_queries:
  "quiet (snapshots (ho_zfs h) ds)" "quiet (snapshot (ho_zfs h) n)" "quiet (dataset (ho_zfs h) ds)"
  "quiet (bookmarks (ho_zfs h) ds)" "quiet (estimate (ho_zfs h) spec)"
  "quiet (hold (ho_zfs h) tag n)" "quiet (release (ho_zfs h) tag n)" "quiet (bookmark_exists (ho_zfs h) bm)"
  "quiet (bookmark (ho_zfs h) n bm)" "quiet (destroy_bookmark (ho_zfs h) bm)"
  by (intro allI zfs_keeps quiet_run [rule_format])+

lemma keeps_zfs_io: "quiet (m (ho_zfs h)) \<Longrightarrow> keeps (\<lambda>s. contents s = b) (zfs_io h m)"
  unfolding keeps_def zfs_io_def err_io_def on_ext_def by (auto simp: case_prod_beta)

lemma zfs_io_view: "quiet (m (ho_zfs h)) \<Longrightarrow> zfs_io h m s = (r, s') \<Longrightarrow> contents s' = contents s"
  using keepsD [OF keeps_zfs_io [of m "contents s"] refl] by blast

lemma keeps_release_hold: "keeps (\<lambda>s. contents s = b) (release_hold h n)"
  unfolding release_hold_def by (intro keeps_try keeps_zfs_io quiet_queries keeps_ret)

lemma keeps_move_bookmark: "keeps (\<lambda>s. contents s = b) (move_bookmark h ds n g)"
  unfolding move_bookmark_def
  by (auto intro!: keeps_try keeps_zfs_io quiet_queries keeps_for_each split: sum.split option.split)

lemma keeps_choose_base: "keeps (\<lambda>s. contents s = b) (choose_base h a ms dg ds txg)"
  unfolding choose_base_def auto_base_def resolve_base_guid_def Let_def
  by (auto intro!: keeps_bind keeps_err keeps_zfs_io quiet_queries split: option.split)

lemma keeps_ok_io: "keeps I m \<Longrightarrow> keeps I (ok_io m)"
  unfolding ok_io_def by (intro keeps_try keeps_ret)

lemma ok_io_total: "\<exists>v w'. ok_io m w = (Inr v, w')"
  by (cases "m w") (simp add: ok_io_def try_io_def ret_def)

lemma keeps_fixed: "(\<And>b. keeps (\<lambda>s. contents s = b) m) \<Longrightarrow> m s = (r, s') \<Longrightarrow> contents s' = contents s"
  using keepsD [of "\<lambda>v. contents v = contents s" m s r s'] by blast

text \<open>The commit: nothing, the manifest, or the manifest without the marker.\<close>

lemma commit_ok:
  assumes t: "tg_store t = st" and root: "clean_path (key_root (tg_prefix t))"
    and run: "commit cd h t m s = (r, s')"
  defines "k \<equiv> manifest_key (tg_prefix t) (mf_dataset_guid m) (mf_snapshot_guid m)"
    and "pk \<equiv> pending_key (tg_prefix t) (mf_dataset_guid m) (mf_snapshot_guid m)"
  shows "r \<noteq> Inr () \<and> contents s' = contents s \<or>
    (\<exists>x. co_enc cd m = Inr x \<and>
       (contents s' = (contents s)(k \<mapsto> x) \<or> contents s' = (contents s)(k \<mapsto> x, pk := None)))"
proof (cases "co_enc cd m")
  case (Inl e)
  with run show ?thesis by (auto simp: commit_def Let_def bind_io_def lift_result_def map_err_def)
next
  case (Inr x)
  let ?op = "err_io EStore (store_put st k x)"
  note clean = clean_keys [OF root]
  have op: "(contents v' = contents v \<or> contents v' = (contents v)(k \<mapsto> x)) \<and>
      (\<forall>u. r' = Inr u \<longrightarrow> contents v' = (contents v)(k \<mapsto> x))" if "?op v = (r', v')" for v r' v'
    using bk.put_any [OF clean(1), of _ _ x v] bk.put_ok [OF clean(1), of _ _ x v] that
    by (cases "store_put st k x v"; cases r') (auto simp: err_io_def map_sum_Inr k_def)
  obtain rw s1 where 1: "retry (sleep_sys h) ''write manifest'' ?op s = (rw, s1)" by fastforce
  note W = retry_write [where f = contents, OF op sleep_contents 1]
  show ?thesis
  proof (cases rw)
    case (Inl e)
    with run Inr 1 t have "r = Inl e" "s' = s1"
      by (simp_all add: commit_def Let_def bind_io_def lift_result_def map_err_def k_def)
    with W(1) Inr show ?thesis by auto
  next
    case Inr1: (Inr u)
    have b1: "contents s1 = (contents s)(k \<mapsto> x)" using W(2) Inr1 by blast
    obtain rd s2 where 2: "store_delete st pk s1 = (rd, s2)" by fastforce
    from run Inr 1 t Inr1 2 have "move_bookmark h (mf_dataset m) (mf_snapshot m) (mf_snapshot_guid m) s2 = (r, s')"
      by (simp add: commit_def Let_def bind_io_def lift_result_def map_err_def k_def pk_def try_io_def)
    then have "contents s' = contents s2" by (rule keeps_fixed [OF keeps_move_bookmark])
    moreover have "contents s2 = contents s1 \<or> contents s2 = (contents s1)(pk := None)"
      using bk.del_any [OF clean(2)] 2 unfolding pk_def by blast
    ultimately show ?thesis using b1 Inr by auto
  qed
qed

lemma archive_ok:
  fixes base :: "(string \<times> guid) option"
  assumes t: "tg_store t = st" and h: "healthy cd (ho_blake3 h) orig (tg_prefix t) (contents s)" and cd: "codec_ok cd"
    and args: "check_args a = Inr ()" and zs: "sends_ok orig guid_of zsend"
    and g: "guid_of (ag_snapshot a) = zs_guid snap"
    and base: "\<And>f bg. base = Some (f, bg) \<Longrightarrow> guid_of (base_name (ag_snapshot a) f) = bg"
    and new: "\<And>m. listed (co_dec cd) (tg_prefix t) (contents s) m \<Longrightarrow> mf_snapshot_guid m \<noteq> zs_guid snap"
    and run: "archive cd h t a zsend picks lands snap ds base s = (r, s')"
  shows "healthy cd (ho_blake3 h) orig (tg_prefix t) (contents s') \<and>
    (\<forall>k. \<not> below (snapshot_dir (tg_prefix t) (zd_guid ds) (zs_guid snap)) k \<longrightarrow> contents s' k = contents s k) \<and>
    (r = Inr () \<longrightarrow> (\<exists>m. listed (co_dec cd) (tg_prefix t) (contents s') m \<and> mf_dataset_guid m = zd_guid ds \<and>
       mf_snapshot_guid m = zs_guid snap \<and> mf_snapshot m = ag_snapshot a \<and>
       mf_from_guid m = map_option snd base \<and> mf_format_version m = FORMAT_VERSION \<and>
       (\<forall>m'. listed (co_dec cd) (tg_prefix t) (contents s') m' \<longrightarrow> listed (co_dec cd) (tg_prefix t) (contents s) m' \<or> m' = m)))"
proof -
  let ?P = "tg_prefix t" and ?d = "zd_guid ds" and ?g = "zs_guid snap"
  let ?dir = "snapshot_dir ?P ?d ?g" and ?flags = "send_flags_for (zd_encrypted ds)"
  let ?spec = "\<lparr>sp_to = ag_snapshot a, sp_from = map_option fst base, sp_flags = ?flags\<rparr>"
  have root: "clean_path (key_root ?P)" using h by (simp add: healthy_def tidy_def)
  note run = run [unfolded archive_def Let_def]
  obtain est s1 where 1: "ok_io (zfs_io h (\<lambda>sh. estimate sh ?spec)) s = (Inr est :: error + u64 option, s1)"
    by (metis ok_io_total)
  have b1: "contents s1 = contents s" 
    using 1 by (rule keeps_fixed [rotated]) (intro keeps_ok_io keeps_zfs_io quiet_queries)
  obtain rh s2 where 2: "zfs_io h (\<lambda>sh. hold sh (hold_tag JOB) (ag_snapshot a)) s1 = (rh, s2)" by fastforce
  have b2: "contents s2 = contents s" using zfs_io_view [OF _ 2] quiet_queries(6) b1 by simp
  show ?thesis
  proof (cases rh)
    case (Inl e)
    with run 1 2 have "r = Inl e" "s' = s2" by (simp_all add: bind_io_def)
    with h b2 show ?thesis by simp
  next
    case (Inr hb)
    define cs where "cs = chosen_chunk_size a est"
    obtain rs s3 where 3: "send_stream cd h t a cs zsend picks lands ?d ?g base ?flags s2 = (rs, s3)" by fastforce
    obtain rr s4 where 4: "release_hold h (ag_snapshot a) s3 = (rr, s4)" by fastforce
    have b4: "contents s4 = contents s3" using 4 by (rule keeps_fixed [OF keeps_release_hold])
    have rr: "rr = Inr ()" using 4 by (auto simp: release_hold_def try_io_def split: prod.splits)
    have cs: "unat MIN_CHUNK \<le> unat cs" "0 < unat MIN_CHUNK"
      using chosen_bounds [OF args, of est] by (simp_all add: cs_def word_le_nat_alt MIN_CHUNK_def)
    have names: "map_option (\<lambda>f. guid_of (base_name (ag_snapshot a) f)) (map_option fst base) = map_option snd base"
      using base by (cases base) auto
    have child: "child_ok (zsend ?spec) (orig ?g (map_option snd base) ?flags)"
      and len: "length (pipe_bytes (ch_pipe (zsend ?spec))) \<le> 2 ^ 32 * unat MIN_CHUNK"
      using zs [unfolded sends_ok_def, rule_format, of ?spec] names g by simp_all
    have cs0: "cs \<noteq> 0" using cs by (metis unsigned_0 not_less)
    have "length (pipe_bytes (ch_pipe (zsend ?spec))) \<le> 2 ^ 32 * unat cs"
      using len mult_le_mono2 [OF cs(1), of "2 ^ 32"] by (rule order.trans)
    from send_stream_ok [where orig = orig and g = ?g and base = base and flags = ?flags and zsend = zsend
        and a = a and t = t and s = s2, OF t _ _ cd child cs0 this 3] h b2
    have S: "settled cd orig ?P ?d ?g (contents s) (contents s3)"
      "\<And>res. rs = Inr res \<Longrightarrow> stored cd (ho_blake3 h) ?P ?d ?g (orig ?g (map_option snd base) ?flags) (contents s3) res"
      by (simp_all add: healthy_def)
    have H: "healthy cd (ho_blake3 h) orig ?P (contents s3)" using healthy_settled [OF h S(1) new] .
    have out: "\<forall>k. \<not> below ?dir k \<longrightarrow> contents s3 k = contents s k" using S(1) by (simp add: settled_def)
    have tail: "(r, s') = bind_io (lift_result rs) (\<lambda>res s.
        commit cd h t (new_manifest a snap ?d (map_option snd base) ?flags (ho_now h (ext s)) res) s) s4"
      using run 1 2 3 4 rr Inr by (simp add: bind_io_def try_io_def cs_def)
    show ?thesis
    proof (cases rs)
      case (Inl e)
      with tail have "r = Inl e" "s' = s4" by (simp_all add: bind_io_def lift_result_def)
      with H out b4 show ?thesis by simp
    next
      case Inr3: (Inr res)
      define m where "m = new_manifest a snap ?d (map_option snd base) ?flags (ho_now h (ext s4)) res"
      have m: "mf_dataset_guid m = ?d" "mf_snapshot_guid m = ?g" "mf_snapshot m = ag_snapshot a"
        "mf_from_guid m = map_option snd base"
        "mf_format_version m = FORMAT_VERSION"
        by (simp_all add: m_def new_manifest_def split: prod.split)
      have arch: "archived cd (ho_blake3 h) orig ?P (contents s3) m"
        unfolding m_def by (rule stored_archived) (rule S(2) [OF Inr3], rule refl)
      have "commit cd h t m s4 = (r, s')" using tail Inr3 by (simp add: bind_io_def lift_result_def m_def)
      note C = commit_ok [OF t root this, unfolded b4 m]
      let ?k = "manifest_key ?P ?d ?g" and ?pk = "pending_key ?P ?d ?g"
      have kd: "below ?dir ?k" "below ?dir ?pk" by (simp_all add: below_keys)
      show ?thesis
      proof (cases "r \<noteq> Inr () \<and> contents s' = contents s3")
        case True
        with H out show ?thesis by simp
      next
        case False
        with C obtain x where x: "co_enc cd m = Inr x"
          "contents s' = (contents s3)(?k \<mapsto> x) \<or> contents s' = (contents s3)(?k \<mapsto> x, ?pk := None)" by blast
        from x(1) cd have dec: "co_dec cd x = Inr m" by (simp add: codec_ok_def)
        from healthy_commit [OF H arch dec] m have H1: "healthy cd (ho_blake3 h) orig ?P ((contents s3)(?k \<mapsto> x))"
          by simp
        from x(2) have "healthy cd (ho_blake3 h) orig ?P (contents s')"
          using H1 healthy_delete_pending [OF H1] by auto
        moreover have "listed (co_dec cd) ?P (contents s') m"
          using x(2) dec by (auto simp: listed_def m key_simps)
        moreover have "contents s' k = contents s k" if "\<not> below ?dir k" for k
          using x(2) that out kd by auto
        moreover have "listed (co_dec cd) ?P (contents s) m' \<or> m' = m" if l: "listed (co_dec cd) ?P (contents s') m'" for m'
        proof (cases "manifest_key ?P (mf_dataset_guid m') (mf_snapshot_guid m') = ?k")
          case True
          with l x(2) dec show ?thesis by (auto simp: listed_def key_simps)
        next
          case False
          with l x(2) have "listed (co_dec cd) ?P (contents s3) m'" by (auto simp: listed_def key_simps)
          with settled_listed [OF S(1)] show ?thesis by blast
        qed
        ultimately show ?thesis using m by blast
      qed
    qed
  qed
qed

lemma send_run_ok:
  assumes t: "tg_store t = st" and h: "healthy cd (ho_blake3 h) orig (tg_prefix t) (contents s)" and cd: "codec_ok cd"
    and n: "names_ok h guid_of" and zs: "sends_ok orig guid_of zsend" and arr: "\<And>xs. set (arrival xs) = set xs"
    and run: "send_run cd arrival h t a zsend picks lands s = (r, s')"
  shows "healthy cd (ho_blake3 h) orig (tg_prefix t) (contents s') \<and>
    (\<exists>d. \<forall>k. \<not> below (snapshot_dir (tg_prefix t) d (guid_of (ag_snapshot a))) k \<longrightarrow> contents s' k = contents s k) \<and>
    (\<forall>m. listed (co_dec cd) (tg_prefix t) (contents s) m \<longrightarrow> listed (co_dec cd) (tg_prefix t) (contents s') m) \<and>
    (r = Inr () \<longrightarrow> (\<exists>m. listed (co_dec cd) (tg_prefix t) (contents s') m \<and>
       mf_snapshot_guid m = guid_of (ag_snapshot a) \<and>
       (\<forall>m'. listed (co_dec cd) (tg_prefix t) (contents s') m' \<longrightarrow>
          listed (co_dec cd) (tg_prefix t) (contents s) m' \<or> m' = m) \<and>
       (\<not> listed (co_dec cd) (tg_prefix t) (contents s) m \<longrightarrow>
          mf_snapshot m = ag_snapshot a \<and> mf_format_version m = FORMAT_VERSION \<and>
          (\<forall>bg. mf_from_guid m = Some bg \<longrightarrow>
             (\<exists>b. listed (co_dec cd) (tg_prefix t) (contents s) b \<and>
                mf_dataset_guid b = mf_dataset_guid m \<and> mf_snapshot_guid b = bg)))))"
    (is "?H s' \<and> ?F s' \<and> ?L s' \<and> (r = Inr () \<longrightarrow> ?C s')")
proof -
  have same: "?H v \<and> ?F v \<and> ?L v" if "contents v = contents s" for v using h that by simp
  have tidy: "tidy (tg_prefix t) (contents s)" using h by (simp add: healthy_def)
  show ?thesis
  proof (cases "check_args a")
    case (Inl e)
    with run have "r = Inl e" "s' = s" by (simp_all add: send_run_def bind_io_def lift_result_def)
    with same show ?thesis by simp
  next
    case args: (Inr u)
    obtain r1 s1 where 1: "zfs_io h (\<lambda>sh. snapshot sh (ag_snapshot a)) s = (r1, s1)" by fastforce
    have b1: "contents s1 = contents s" using zfs_io_view [OF _ 1] quiet_queries(2) by simp
    note run = run [unfolded send_run_def args]
    show ?thesis
    proof (cases r1)
      case (Inl e)
      with run 1 have "r = Inl e" "s' = s1" by (simp_all add: bind_io_def lift_result_def)
      with same b1 show ?thesis by simp
    next
      case (Inr snap)
      from zfs_io_Inr [OF 1 [unfolded Inr]] obtain x x' where sn: "snapshot (ho_zfs h) (ag_snapshot a) x = (Inr snap, x')"
        by blast
      have g: "guid_of (ag_snapshot a) = zs_guid snap" using snapshot_guid [OF n sn] .
      obtain r2 s2 where 2: "zfs_io h (\<lambda>sh. dataset sh (zs_dataset snap)) s1 = (r2, s2)" by fastforce
      have b2: "contents s2 = contents s" using zfs_io_view [OF _ 2] quiet_queries(3) b1 by simp
      show ?thesis
      proof (cases r2)
        case (Inl e)
        with run 1 Inr 2 have "r = Inl e" "s' = s2" by (simp_all add: bind_io_def lift_result_def)
        with same b2 show ?thesis by simp
      next
        case Inr2: (Inr ds)
        obtain r3 s3 where 3: "manifests (co_dec cd) arrival t s2 = (r3, s3)" by fastforce
        have tidy2: "tidy (tg_prefix t) (contents s2)" using tidy b2 by simp
        have b3: "contents s3 = contents s" using manifests_frame [OF t tidy2 arr 3] b2 by simp
        show ?thesis
        proof (cases r3)
          case (Inl e)
          with run 1 Inr 2 Inr2 3 have "r = Inl e" "s' = s3" by (simp_all add: bind_io_def lift_result_def)
          with same b3 show ?thesis by simp
        next
          case Inr3: (Inr ms)
          note M = manifests_exact [OF t tidy2 arr 3 [unfolded Inr3]]
          have ms: "m \<in> set ms \<longleftrightarrow> listed (co_dec cd) (tg_prefix t) (contents s) m" for m
          proof
            assume "m \<in> set ms"
            with M(3) b2 obtain k v where "manifest_at (tg_prefix t) (contents s) k v" "co_dec cd v = Inr m" by auto
            moreover from this h have "k = manifest_key (tg_prefix t) (mf_dataset_guid m) (mf_snapshot_guid m)"
              by (simp add: healthy_def well_filed_def)
            ultimately show "listed (co_dec cd) (tg_prefix t) (contents s) m"
              by (auto simp: listed_def manifest_at_def)
          next
            assume "listed (co_dec cd) (tg_prefix t) (contents s) m"
            then obtain v where v: "contents s (manifest_key (tg_prefix t) (mf_dataset_guid m) (mf_snapshot_guid m)) = Some v"
              "co_dec cd v = Inr m" by (auto simp: listed_def)
            from manifest_key_at [where b = "contents s", OF v(1)] v(2) M(3) b2 show "m \<in> set ms" by auto
          qed
          show ?thesis
          proof (cases "list_ex (\<lambda>m. mf_snapshot_guid m = zs_guid snap) ms")
            case True
            with run 1 Inr 2 Inr2 3 Inr3 have rel: "release_hold h (ag_snapshot a) s3 = (r, s')"
              by (simp add: bind_io_def lift_result_def)
            then have b': "contents s' = contents s" using keeps_fixed [OF keeps_release_hold] b3 by metis
            from True ms g b' have "?C s'" by (auto simp: list_ex_iff)
            with same [OF b'] show ?thesis by blast
          next
            case False
            obtain r4 s4 where 4: "choose_base h a ms (zd_guid ds) (zs_dataset snap) (zs_createtxg snap) s3 = (r4, s4)"
              by fastforce
            have b4: "contents s4 = contents s" using keeps_fixed [OF keeps_choose_base 4] b3 by simp
            show ?thesis
            proof (cases r4)
              case (Inl e)
              with run 1 Inr 2 Inr2 3 Inr3 False 4 have "r = Inl e" "s' = s4"
                by (simp_all add: bind_io_def lift_result_def)
              with same b4 show ?thesis by simp
            next
              case Inr4: (Inr base)
              with run 1 Inr 2 Inr2 3 Inr3 False 4
              have ar: "archive cd h t a zsend picks lands snap ds base s4 = (r, s')"
                by (simp add: bind_io_def lift_result_def)
              have names: "(\<exists>m \<in> set ms. mf_dataset_guid m = zd_guid ds \<and> mf_snapshot_guid m = bg) \<and>
                  guid_of (base_name (ag_snapshot a) f) = bg" if "base = Some (f, bg)" for f bg
                using choose_base_Some [OF n snapshot_Inr(2) [OF sn] 4 [unfolded Inr4 that]] .
              have new: "mf_snapshot_guid m \<noteq> zs_guid snap" if "listed (co_dec cd) (tg_prefix t) (contents s4) m" for m
                using that ms False b4 by (auto simp: list_ex_iff)
              have h4: "healthy cd (ho_blake3 h) orig (tg_prefix t) (contents s4)" using h b4 by simp
              have args': "check_args a = Inr ()" using args by simp
              note A = archive_ok [OF t h4 cd args' zs g names [THEN conjunct2] new ar]
              have "?L s'"
              proof (intro allI impI)
                fix m assume l: "listed (co_dec cd) (tg_prefix t) (contents s) m"
                with new b4 have "mf_snapshot_guid m \<noteq> zs_guid snap" by simp
                then have "\<not> below (snapshot_dir (tg_prefix t) (zd_guid ds) (zs_guid snap))
                    (manifest_key (tg_prefix t) (mf_dataset_guid m) (mf_snapshot_guid m))" by (simp add: below_keys)
                with A b4 l show "listed (co_dec cd) (tg_prefix t) (contents s') m" by (simp add: listed_def)
              qed
              moreover have "?C s'" if "r = Inr ()"
              proof -
                from A that obtain m where m: "listed (co_dec cd) (tg_prefix t) (contents s') m"
                  "mf_snapshot_guid m = zs_guid snap" "mf_from_guid m = map_option snd base"
                  "mf_dataset_guid m = zd_guid ds" "mf_snapshot m = ag_snapshot a" "mf_format_version m = FORMAT_VERSION"
                  "\<forall>m'. listed (co_dec cd) (tg_prefix t) (contents s') m' \<longrightarrow>
                     listed (co_dec cd) (tg_prefix t) (contents s4) m' \<or> m' = m" by blast
                moreover have "\<exists>b. listed (co_dec cd) (tg_prefix t) (contents s) b \<and>
                    mf_dataset_guid b = mf_dataset_guid m \<and> mf_snapshot_guid b = bg"
                  if "mf_from_guid m = Some bg" for bg
                proof -
                  from that m(3) obtain f where "base = Some (f, bg)" by (cases base) auto
                  from names [OF this] ms m(4) show ?thesis by auto
                qed
                ultimately show ?thesis unfolding b4 by (intro exI [of _ m]) (simp only: g simp_thms, blast)
              qed
              moreover have "?F s'" using A b4 g by auto
              ultimately show ?thesis using A by blast
            qed
          qed
        qed
      qed
    qed
  qed
qed

end

end
