(* ===== verification/S3_Request.thy ===== *)
theory S3_Request
  imports Object_Store "HOL-Library.List_Lexorder" "HOL-Library.Char_ord" "HOL-Library.Product_Lexorder"
begin

text \<open>
  The first part of \<open>src/store/admin.rs\<close>: how a bucket-level request is encoded, signed (SigV4)
  and sent, and how the answer is read. What the crates \<open>reqwest\<close>, \<open>sha2\<close>, \<open>hmac\<close>, \<open>hex\<close>, \<open>base64\<close>,
  \<open>crc_fast\<close>, \<open>uuid\<close> and \<open>time\<close> provide is the record \<open>wire\<close>.
\<close>

section \<open>Percent encoding and queries\<close>

definition unreserved :: "char \<Rightarrow> bool" where
  "unreserved c \<longleftrightarrow>
     (let n = of_char c :: nat in
      65 \<le> n \<and> n \<le> 90 \<or> 97 \<le> n \<and> n \<le> 122 \<or> 48 \<le> n \<and> n \<le> 57 \<or>
      c \<in> {CHR ''-'', CHR ''_'', CHR ''.'', CHR ''~''})"

definition upper_digit :: "nat \<Rightarrow> char" where
  "upper_digit d = (if d < 10 then char_of (48 + d) else char_of (55 + d))"

text \<open>\<open>%{b:02X}\<close>\<close>

definition percent :: "char \<Rightarrow> string" where
  "percent c = (let n = of_char c in [CHR ''%'', upper_digit (n div 16), upper_digit (n mod 16)])"

definition uri_encode :: "string \<Rightarrow> bool \<Rightarrow> string" where
  "uri_encode s encode_slash =
     concat (map (\<lambda>c. if unreserved c then [c] else if c = slash \<and> \<not> encode_slash then [slash] else percent c) s)"

definition uri_encode_path :: "string \<Rightarrow> string" where
  "uri_encode_path p = join ''/'' (map (\<lambda>seg. uri_encode seg False) (split_on slash p))"

definition key_value :: "string \<Rightarrow> string \<times> string" where
  "key_value kv = (case split_once (CHR ''='') kv of Some p \<Rightarrow> p | None \<Rightarrow> (kv, []))"

definition encoded_pair :: "string \<Rightarrow> string \<times> string" where
  "encoded_pair kv = (case key_value kv of (k, v) \<Rightarrow> (uri_encode k True, uri_encode v True))"

definition show_pair :: "string \<times> string \<Rightarrow> string" where
  "show_pair = (\<lambda>(k, v). k @ ''='' @ v)"

definition canonical_query :: "string \<Rightarrow> string" where
  "canonical_query q =
     (if q = [] then []
      else join ''&'' (map show_pair (sort (map encoded_pair (split_on (CHR ''&'') q)))))"

definition wire_query :: "string \<Rightarrow> string" where
  "wire_query q =
     join ''&'' (map (\<lambda>kv. show_pair (encoded_pair kv)) (filter (\<lambda>kv. kv \<noteq> []) (split_on (CHR ''&'') q)))"

section \<open>The answer\<close>

text \<open>The text between the first opening tag and the first closing tag after it.\<close>

definition xml_tag :: "string \<Rightarrow> string \<Rightarrow> string option" where
  "xml_tag xml tag =
     (let open_tag = ''<'' @ tag @ ''>''; close_tag = ''</'' @ tag @ ''>'' in
      case find_str open_tag xml of
        None \<Rightarrow> None
      | Some i \<Rightarrow>
          (let rest = drop (i + length open_tag) xml in
           case find_str close_tag rest of
             None \<Rightarrow> None
           | Some j \<Rightarrow> Some (trim (take j rest))))"

lemma find_str_bound: "find_str p s = Some i \<Longrightarrow> i + length p \<le> length s"
  by (induction p s arbitrary: i rule: find_str.induct)
    (auto simp: starts_with_iff split: if_splits dest: arg_cong [where f = length])

text \<open>\<open>s.split(p)\<close> for a pattern that is not empty.\<close>

function split_str :: "string \<Rightarrow> string \<Rightarrow> string list" where
  "split_str p s =
     (if p = [] then [s]
      else (case find_str p s of None \<Rightarrow> [s] | Some i \<Rightarrow> take i s # split_str p (drop (i + length p) s)))"
  by pat_completeness auto
termination
proof (relation "measure (\<lambda>(p, s). length s)")
  fix p s i
  assume "p \<noteq> []" "find_str p s = Some i"
  with find_str_bound [of p s i] show "((p, drop (i + length p) s), (p, s)) \<in> measure (\<lambda>(p, s). length s)"
    by (cases p) auto
qed simp

declare split_str.simps [simp del]

section \<open>The client\<close>

datatype crc_algorithm = Crc32Iscsi | Crc64Nvme

record request =
  rq_method :: string
  rq_url :: string
  rq_headers :: "(string \<times> string) list"
  rq_body :: bytes

record response =
  rp_status :: nat
  rp_headers :: "(string \<times> string) list"
  rp_body :: "string + string"

text \<open>\<open>wi_date\<close> is the time as \<open>[year][month][day]T[hour][minute][second]Z\<close>, \<open>wi_now\<close> its display.\<close>

record 'x wire =
  wi_send :: "request \<Rightarrow> ('x, string, response) io"
  wi_date :: "'x \<Rightarrow> string"
  wi_now :: "'x \<Rightarrow> string"
  wi_clock :: "'x \<Rightarrow> int"
  wi_uuid :: "'x \<Rightarrow> string \<times> 'x"
  wi_sha256 :: "bytes \<Rightarrow> bytes"
  wi_hmac :: "bytes \<Rightarrow> bytes \<Rightarrow> bytes"
  wi_hex :: "bytes \<Rightarrow> string"
  wi_b64 :: "bytes \<Rightarrow> string"
  wi_crc :: "crc_algorithm \<Rightarrow> bytes \<Rightarrow> u64"
  wi_combine :: "crc_algorithm \<Rightarrow> u64 \<Rightarrow> u64 \<Rightarrow> u64 \<Rightarrow> u64"

record client =
  cl_cfg :: s3_config
  cl_scheme :: string
  cl_host :: string

text \<open>\<open>build\<close> is the builder of the HTTP client.\<close>

definition admin_new :: "(s3_config \<Rightarrow> string + unit) \<Rightarrow> s3_config \<Rightarrow> admin_error + client" where
  "admin_new build cfg =
     bind_result (ok_or (split_scheme (endpoint cfg)) (AdEndpoint (endpoint cfg))) (\<lambda>(scheme, host).
       if scheme = ''http'' \<and> \<not> allow_http cfg then Inl (AdEndpoint ''http endpoint but allow_http is false'')
       else bind_result (map_sum AdHttp id (build cfg)) (\<lambda>_.
         Inr \<lparr>cl_cfg = cfg, cl_scheme = scheme, cl_host = trim_end_matches slash host\<rparr>))"

text \<open>The host header and the path.\<close>

definition addr :: "client \<Rightarrow> string option \<Rightarrow> string \<times> string" where
  "addr cl key =
     (let k = (case key of Some k \<Rightarrow> slash # k | None \<Rightarrow> []) in
      if path_style (cl_cfg cl) then (cl_host cl, slash # bucket (cl_cfg cl) @ k)
      else (bucket (cl_cfg cl) @ ''.'' @ cl_host cl, if k = [] then ''/'' else k))"

section \<open>The signature\<close>

definition signed_headers :: "string \<Rightarrow> string \<Rightarrow> string \<Rightarrow> (string \<times> string) list \<Rightarrow> (string \<times> string) list" where
  "signed_headers host payload_hash amz_date extra =
     sort ([(''host'', host), (''x-amz-content-sha256'', payload_hash), (''x-amz-date'', amz_date)] @
       map (\<lambda>(k, v). (to_ascii_lowercase k, trim v)) extra)"

definition header_names :: "(string \<times> string) list \<Rightarrow> string" where
  "header_names headers = join '';'' (map fst headers)"

definition canonical_request ::
  "string \<Rightarrow> string \<Rightarrow> string \<Rightarrow> (string \<times> string) list \<Rightarrow> string \<Rightarrow> string" where
  "canonical_request method path canonical headers payload_hash =
     method @ newline # uri_encode_path path @ newline # canonical @ newline #
     concat (map (\<lambda>(k, v). k @ '':'' @ v @ [newline]) headers) @ newline #
     header_names headers @ newline # payload_hash"

definition credential_scope :: "string \<Rightarrow> string \<Rightarrow> string" where
  "credential_scope date reg = date @ ''/'' @ reg @ ''/s3/aws4_request''"

definition string_to_sign :: "'x wire \<Rightarrow> string \<Rightarrow> string \<Rightarrow> string \<Rightarrow> string" where
  "string_to_sign wi amz_date scope req =
     ''AWS4-HMAC-SHA256'' @ newline # amz_date @ newline # scope @ newline #
     wi_hex wi (wi_sha256 wi (name_bytes req))"

definition signing_key :: "'x wire \<Rightarrow> string \<Rightarrow> string \<Rightarrow> string \<Rightarrow> bytes" where
  "signing_key wi secret date reg =
     wi_hmac wi
       (wi_hmac wi (wi_hmac wi (wi_hmac wi (name_bytes (''AWS4'' @ secret)) (name_bytes date)) (name_bytes reg))
         (name_bytes ''s3''))
       (name_bytes ''aws4_request'')"

definition signature :: "'x wire \<Rightarrow> s3_config \<Rightarrow> string \<Rightarrow> string \<Rightarrow> string" where
  "signature wi cfg amz_date req =
     (let date = take 8 amz_date in
      wi_hex wi (wi_hmac wi (signing_key wi (secret_access_key cfg) date (region cfg))
        (name_bytes (string_to_sign wi amz_date (credential_scope date (region cfg)) req))))"

definition authorization :: "'x wire \<Rightarrow> s3_config \<Rightarrow> string \<Rightarrow> (string \<times> string) list \<Rightarrow> string \<Rightarrow> string" where
  "authorization wi cfg amz_date headers req =
     ''AWS4-HMAC-SHA256 Credential='' @ access_key_id cfg @ ''/'' @
     credential_scope (take 8 amz_date) (region cfg) @ '', SignedHeaders='' @ header_names headers @
     '', Signature='' @ signature wi cfg amz_date req"

definition request_url :: "client \<Rightarrow> string \<Rightarrow> string \<Rightarrow> string \<Rightarrow> string" where
  "request_url cl host path query =
     cl_scheme cl @ ''://'' @ host @ path @
     (if wire_query query = [] then [] else ''?'' @ wire_query query)"

definition build_request ::
  "'x wire \<Rightarrow> client \<Rightarrow> string \<Rightarrow> string option \<Rightarrow> string \<Rightarrow> bytes \<Rightarrow> string \<Rightarrow> (string \<times> string) list
     \<Rightarrow> string \<Rightarrow> request" where
  "build_request wi cl method key query body payload_hash extra amz_date =
     (case addr cl key of (host, path) \<Rightarrow>
        (let headers = signed_headers host payload_hash amz_date extra;
             req = canonical_request method path (canonical_query query) headers payload_hash
         in \<lparr>rq_method = method, rq_url = request_url cl host path query,
             rq_headers = (''authorization'', authorization wi (cl_cfg cl) amz_date headers req) #
               filter (\<lambda>(k, _). k \<noteq> ''host'') headers @
               [(''content-length'', fmt_radix 10 (length body))],
             rq_body = body\<rparr>))"

section \<open>Calls\<close>

type_synonym answer = "nat \<times> (string \<times> string) list \<times> string"

definition check_response :: "string \<Rightarrow> response \<Rightarrow> admin_error + answer" where
  "check_response op resp =
     (let status = rp_status resp;
          text = (case rp_body resp of Inr b \<Rightarrow> b | Inl e \<Rightarrow> ''<unreadable response body: '' @ e @ ''>'')
      in if 200 \<le> status \<and> status < 300 then Inr (status, rp_headers resp, text)
         else Inl (AdS3 op status
           (case xml_tag text ''Code'' of Some c \<Rightarrow> c | None \<Rightarrow> fmt_radix 10 status)
           (case xml_tag text ''Message'' of Some m \<Rightarrow> m | None \<Rightarrow> [])))"

definition call_body ::
  "'x wire \<Rightarrow> client \<Rightarrow> string \<Rightarrow> string \<Rightarrow> string option \<Rightarrow> string \<Rightarrow> bytes \<Rightarrow> string \<Rightarrow> (string \<times> string) list
     \<Rightarrow> ('x, admin_error, answer) io" where
  "call_body wi cl op method key query body payload_hash extra x =
     (case wi_send wi (build_request wi cl method key query body payload_hash extra (wi_date wi x)) x of
        (r, x') \<Rightarrow> (bind_result (map_sum AdHttp id r) (check_response op), x'))"

definition call_full ::
  "'x wire \<Rightarrow> client \<Rightarrow> string \<Rightarrow> string \<Rightarrow> string option \<Rightarrow> string \<Rightarrow> bytes \<Rightarrow> (string \<times> string) list
     \<Rightarrow> ('x, admin_error, answer) io" where
  "call_full wi cl op method key query body extra =
     call_body wi cl op method key query body (wi_hex wi (wi_sha256 wi body)) extra"

definition call_unsigned ::
  "'x wire \<Rightarrow> client \<Rightarrow> string \<Rightarrow> string \<Rightarrow> string option \<Rightarrow> string \<Rightarrow> bytes \<Rightarrow> (string \<times> string) list
     \<Rightarrow> ('x, admin_error, answer) io" where
  "call_unsigned wi cl op method key query body extra =
     call_body wi cl op method key query body ''UNSIGNED-PAYLOAD'' extra"

text \<open>\<open>call\<close>: the answer without its headers.\<close>

definition call ::
  "'x wire \<Rightarrow> client \<Rightarrow> string \<Rightarrow> string \<Rightarrow> string option \<Rightarrow> string \<Rightarrow> bytes \<Rightarrow> (string \<times> string) list
     \<Rightarrow> ('x, admin_error, nat \<times> string) io" where
  "call wi cl op method key query body extra =
     bind_io (call_full wi cl op method key query body extra) (\<lambda>(status, _, text). ret (status, text))"

text \<open>\<open>HeaderMap::get\<close> and \<open>to_str().ok()\<close>, which refuses what is not visible ASCII.\<close>

definition visible_ascii :: "char \<Rightarrow> bool" where
  "visible_ascii c \<longleftrightarrow> (let n = of_char c :: nat in n = 9 \<or> 32 \<le> n \<and> n < 127)"

definition header_value :: "(string \<times> string) list \<Rightarrow> string \<Rightarrow> string option" where
  "header_value headers name =
     (case map_of headers name of
        Some v \<Rightarrow> (if list_all visible_ascii v then Some v else None)
      | None \<Rightarrow> None)"

end
