(* ===== verification/Admin_Client.thy ===== *)
theory Admin_Client
  imports S3_Request Stream_Synth
begin

text \<open>
  The operations of \<open>src/store/admin.rs\<close> over the calls of \<open>S3_Request\<close>: the checksummed upload, the
  paginated listings, deletion of versions, the settings of the bucket and the checksum probe.
  A listing asks as long as the service says there is more, which need not end: it is a partial
  function, \<open>None\<close> when it does not return.
\<close>

section \<open>Texts\<close>

text \<open>\<open>AdminError\<close>'s \<open>Display\<close>, and \<open>{:?}\<close> of an optional header value.\<close>

fun show_admin_error :: "admin_error \<Rightarrow> string" where
  "show_admin_error (AdHttp e) = ''http: '' @ e"
| "show_admin_error (AdS3 op status code msg) =
     op @ '': '' @ fmt_radix 10 status @ '' '' @ code @ '': '' @ msg"
| "show_admin_error (AdEndpoint e) = ''bad endpoint: '' @ e"

definition escape_debug :: "string \<Rightarrow> string" where
  "escape_debug s =
     concat (map (\<lambda>c. if c = CHR 0x22 \<or> c = CHR 0x5C then [CHR 0x5C, c]
                      else if c = CHR 0x09 then [CHR 0x5C, CHR ''t''] else [c]) s)"

definition debug_option :: "string option \<Rightarrow> string" where
  "debug_option x =
     (case x of None \<Rightarrow> ''None''
      | Some s \<Rightarrow> ''Some('' @ [CHR 0x22] @ escape_debug s @ [CHR 0x22] @ '')'')"

definition crc32c_b64 :: "'x wire \<Rightarrow> u32 \<Rightarrow> string" where
  "crc32c_b64 wi c = wi_b64 wi (u32_to_be_bytes c)"

section \<open>Checksummed upload\<close>

definition put_object_crc32c ::
  "'x wire \<Rightarrow> client \<Rightarrow> string \<Rightarrow> bytes \<Rightarrow> u32 \<Rightarrow> ('x, admin_error, unit) io" where
  "put_object_crc32c wi cl key data crc =
     (let want = crc32c_b64 wi crc in
      bind_io (call_unsigned wi cl ''PutObject'' ''PUT'' (Some key) [] data
          [(''x-amz-sdk-checksum-algorithm'', ''CRC32C''), (''x-amz-checksum-crc32c'', want)])
        (\<lambda>(_, headers, _).
          let echoed = header_value headers ''x-amz-checksum-crc32c'' in
          if echoed \<noteq> Some want
          then throw (AdS3 ''PutObject'' 200 ''ChecksumNotEchoed''
            (''store returned checksum '' @ debug_option echoed @ '', sent '' @ want @
             ''; target does not verify CRC32C''))
          else ret ()))"

section \<open>Listings\<close>

definition block_pair :: "string \<Rightarrow> string \<Rightarrow> (string \<times> string) option" where
  "block_pair id_tag block =
     (case xml_tag block ''Key'' of
        None \<Rightarrow> None
      | Some k \<Rightarrow> (case xml_tag block id_tag of None \<Rightarrow> None | Some i \<Rightarrow> Some (k, i)))"

definition block_pairs :: "string \<Rightarrow> string \<Rightarrow> string \<Rightarrow> (string \<times> string) list" where
  "block_pairs tag id_tag xml = List.map_filter (block_pair id_tag) (tl (split_str tag xml))"

definition version_entries :: "string \<Rightarrow> (string \<times> string) list" where
  "version_entries xml =
     block_pairs ''<Version>'' ''VersionId'' xml @ block_pairs ''<DeleteMarker>'' ''VersionId'' xml"

definition upload_entries :: "string \<Rightarrow> (string \<times> string) list" where
  "upload_entries xml = block_pairs ''<Upload>'' ''UploadId'' xml"

definition or_empty :: "string option \<Rightarrow> string" where
  "or_empty x = (case x of None \<Rightarrow> [] | Some s \<Rightarrow> s)"

definition next_versions :: "string \<Rightarrow> (string \<times> string) option" where
  "next_versions xml =
     (if xml_tag xml ''IsTruncated'' \<noteq> Some ''true'' then None
      else
        (let km = or_empty (xml_tag xml ''NextKeyMarker'') in
         if km = [] then None else Some (km, or_empty (xml_tag xml ''NextVersionIdMarker''))))"

definition next_uploads :: "string \<Rightarrow> (string \<times> string) option" where
  "next_uploads xml =
     (if xml_tag xml ''IsTruncated'' \<noteq> Some ''true'' then None
      else
        (let km = or_empty (xml_tag xml ''NextKeyMarker''); im = or_empty (xml_tag xml ''NextUploadIdMarker'') in
         if km = [] \<and> im = [] then None else Some (km, im)))"

definition versions_query :: "string \<Rightarrow> string \<Rightarrow> string \<Rightarrow> string" where
  "versions_query prefix km vm =
     ''versions=&prefix='' @ prefix @
     (if km = [] then []
      else ''&key-marker='' @ km @ (if vm = [] then [] else ''&version-id-marker='' @ vm))"

definition uploads_query :: "string \<Rightarrow> string \<Rightarrow> string \<Rightarrow> string" where
  "uploads_query prefix km im =
     ''uploads=&prefix='' @ prefix @
     (if km = [] then [] else ''&key-marker='' @ km @ ''&upload-id-marker='' @ im)"

partial_function (option) list_pages ::
  "(string \<Rightarrow> string \<Rightarrow> ('x, admin_error, nat \<times> string) io) \<Rightarrow> (string \<Rightarrow> (string \<times> string) list)
     \<Rightarrow> (string \<Rightarrow> (string \<times> string) option) \<Rightarrow> string \<Rightarrow> string \<Rightarrow> (string \<times> string) list \<Rightarrow> 'x
     \<Rightarrow> ((admin_error + (string \<times> string) list) \<times> 'x) option" where
  "list_pages ask entries next_page km im out x =
     (case ask km im x of (r, x') \<Rightarrow>
        (case r of
           Inl e \<Rightarrow> Some (Inl e, x')
         | Inr (_, xml) \<Rightarrow>
             (case next_page xml of
                None \<Rightarrow> Some (Inr (out @ entries xml), x')
              | Some (km', im') \<Rightarrow> list_pages ask entries next_page km' im' (out @ entries xml) x')))"

declare list_pages.simps [code]

definition ask_versions ::
  "'x wire \<Rightarrow> client \<Rightarrow> string \<Rightarrow> string \<Rightarrow> string \<Rightarrow> ('x, admin_error, nat \<times> string) io" where
  "ask_versions wi cl prefix km vm =
     call wi cl ''ListObjectVersions'' ''GET'' None (versions_query prefix km vm) [] []"

definition ask_uploads ::
  "'x wire \<Rightarrow> client \<Rightarrow> string \<Rightarrow> string \<Rightarrow> string \<Rightarrow> ('x, admin_error, nat \<times> string) io" where
  "ask_uploads wi cl prefix km im =
     call wi cl ''ListMultipartUploads'' ''GET'' None (uploads_query prefix km im) [] []"

definition list_object_versions ::
  "'x wire \<Rightarrow> client \<Rightarrow> string \<Rightarrow> 'x \<Rightarrow> ((admin_error + (string \<times> string) list) \<times> 'x) option" where
  "list_object_versions wi cl prefix =
     list_pages (ask_versions wi cl prefix) version_entries next_versions [] [] []"

definition list_multipart_uploads ::
  "'x wire \<Rightarrow> client \<Rightarrow> string \<Rightarrow> 'x \<Rightarrow> ((admin_error + (string \<times> string) list) \<times> 'x) option" where
  "list_multipart_uploads wi cl prefix =
     list_pages (ask_uploads wi cl prefix) upload_entries next_uploads [] [] []"

definition delete_version ::
  "'x wire \<Rightarrow> client \<Rightarrow> string \<Rightarrow> string \<Rightarrow> ('x, admin_error, unit) io" where
  "delete_version wi cl key version_id =
     (let q = (if version_id = [] \<or> version_id = ''null'' then [] else ''versionId='' @ version_id) in
      bind_io (call wi cl ''DeleteObject'' ''DELETE'' (Some key) q [] []) (\<lambda>_. ret ()))"

section \<open>The settings of the bucket\<close>

definition head_bucket :: "'x wire \<Rightarrow> client \<Rightarrow> ('x, admin_error, bool) io" where
  "head_bucket wi cl =
     try_io (call wi cl ''HeadBucket'' ''HEAD'' None [] [] []) (\<lambda>r.
       case r of
         Inr _ \<Rightarrow> ret True
       | Inl (AdS3 op status code msg) \<Rightarrow>
           (if status = 404 then ret False else throw (AdS3 op status code msg))
       | Inl e \<Rightarrow> throw e)"

definition versioning :: "'x wire \<Rightarrow> client \<Rightarrow> ('x, admin_error, string) io" where
  "versioning wi cl =
     bind_io (call wi cl ''GetBucketVersioning'' ''GET'' None ''versioning='' [] []) (\<lambda>(_, xml).
       ret (case xml_tag xml ''Status'' of Some s \<Rightarrow> s | None \<Rightarrow> ''Disabled''))"

definition lock_rule :: "string \<Rightarrow> string option" where
  "lock_rule xml =
     map_option
       (\<lambda>m. m @ '' '' @ or_empty
         (or_else (map_option (\<lambda>d. d @ '' days'') (xml_tag xml ''Days''))
           (map_option (\<lambda>y. y @ '' years'') (xml_tag xml ''Years''))))
       (xml_tag xml ''Mode'')"

definition object_lock :: "'x wire \<Rightarrow> client \<Rightarrow> ('x, admin_error, bool \<times> string option) io" where
  "object_lock wi cl =
     try_io (call wi cl ''GetObjectLockConfiguration'' ''GET'' None ''object-lock='' [] []) (\<lambda>r.
       case r of
         Inr (_, xml) \<Rightarrow> ret (xml_tag xml ''ObjectLockEnabled'' = Some ''Enabled'', lock_rule xml)
       | Inl (AdS3 op status code msg) \<Rightarrow>
           (if code = ''ObjectLockConfigurationNotFoundError'' \<or> code = ''NotFound'' then ret (False, None)
            else throw (AdS3 op status code msg))
       | Inl e \<Rightarrow> throw e)"

text \<open>\<open>d.parse::<u32>().ok()\<close>\<close>

definition parse_u32_ok :: "string \<Rightarrow> u32 option" where
  "parse_u32_ok s =
     (case parse_u64 s of
        Inr n \<Rightarrow> (if unat n < 2 ^ 32 then Some (of_nat (unat n)) else None)
      | Inl _ \<Rightarrow> None)"

definition lifecycle_abort_mpu :: "'x wire \<Rightarrow> client \<Rightarrow> ('x, admin_error, u32 option) io" where
  "lifecycle_abort_mpu wi cl =
     try_io (call wi cl ''GetBucketLifecycleConfiguration'' ''GET'' None ''lifecycle='' [] []) (\<lambda>r.
       case r of
         Inr (_, xml) \<Rightarrow>
           ret (case xml_tag xml ''DaysAfterInitiation'' of None \<Rightarrow> None | Some d \<Rightarrow> parse_u32_ok d)
       | Inl (AdS3 op status code msg) \<Rightarrow>
           (if code = ''NoSuchLifecycleConfiguration'' then ret None else throw (AdS3 op status code msg))
       | Inl e \<Rightarrow> throw e)"

section \<open>The checksum probe\<close>

record probe_result =
  pr_algorithm :: string
  pr_part_accepted :: bool
  pr_part_echoes :: "bool option"
  pr_wrong_rejected :: "bool option"
  pr_wrong_code :: "string option"
  pr_complete_accepted :: bool
  pr_complete_checksum :: "string option"
  pr_complete_type :: "string option"
  pr_full_matches :: "bool option"
  pr_error :: "string option"

definition probe_default :: probe_result where
  "probe_default =
     \<lparr>pr_algorithm = [], pr_part_accepted = False, pr_part_echoes = None, pr_wrong_rejected = None,
      pr_wrong_code = None, pr_complete_accepted = False, pr_complete_checksum = None,
      pr_complete_type = None, pr_full_matches = None, pr_error = None\<rparr>"

text \<open>5 MiB of pseudo-random data, by the generator that \<open>fill_random\<close> models.\<close>

definition probe_part :: "u64 \<Rightarrow> bytes" where
  "probe_part seed = fst (fill_random (0x9E3779B97F4A7C15 XOR seed) (replicate (push_bit 20 5) 0))"

definition checksum_text :: "'x wire \<Rightarrow> string \<Rightarrow> u64 \<Rightarrow> string" where
  "checksum_text wi alg_name v =
     (let width = (if alg_name = ''CRC64NVME'' then 8 else 4)
      in wi_b64 wi (drop (8 - width) (rev (u64_to_le_bytes v))))"

definition failed_probe :: "probe_result \<Rightarrow> string \<Rightarrow> ('x, 'e, probe_result) io" where
  "failed_probe r msg = ret (r\<lparr>pr_error := Some msg\<rparr>)"

definition abort_upload :: "'x wire \<Rightarrow> client \<Rightarrow> string \<Rightarrow> string \<Rightarrow> ('x, 'e, unit) io" where
  "abort_upload wi cl key i =
     try_io (call wi cl ''AbortMultipartUpload'' ''DELETE'' (Some key) (''uploadId='' @ i) [] []) (\<lambda>_. ret ())"

definition upload_part ::
  "'x wire \<Rightarrow> client \<Rightarrow> string \<Rightarrow> string \<Rightarrow> string \<Rightarrow> string \<Rightarrow> string \<Rightarrow> bytes \<Rightarrow> u64 \<Rightarrow> ('x, admin_error, answer) io" where
  "upload_part wi cl alg_name hdr key i n part c =
     call_full wi cl ''UploadPart'' ''PUT'' (Some key) (''partNumber='' @ n @ ''&uploadId='' @ i) part
       [(''x-amz-sdk-checksum-algorithm'', alg_name), (''x-amz-checksum-'' @ hdr, checksum_text wi alg_name c)]"

definition complete_document :: "'x wire \<Rightarrow> string \<Rightarrow> string \<Rightarrow> string \<Rightarrow> u64 \<Rightarrow> u64 \<Rightarrow> string" where
  "complete_document wi alg_name etag1 etag2 c1 c2 =
     (let tag = ''Checksum'' @ alg_name;
          part = (\<lambda>n etag c. ''<Part><PartNumber>'' @ n @ ''</PartNumber><ETag>'' @ etag @ ''</ETag><'' @ tag @ ''>'' @
            checksum_text wi alg_name c @ ''</'' @ tag @ ''></Part>'')
      in ''<CompleteMultipartUpload>'' @ part ''1'' etag1 c1 @ part ''2'' etag2 c2 @ ''</CompleteMultipartUpload>'')"

definition complete_probe ::
  "'x wire \<Rightarrow> client \<Rightarrow> crc_algorithm \<Rightarrow> string \<Rightarrow> string \<Rightarrow> bool \<Rightarrow> string \<Rightarrow> string \<Rightarrow> string \<Rightarrow> string \<Rightarrow> probe_result
     \<Rightarrow> ('x, 'e, probe_result) io" where
  "complete_probe wi cl alg alg_name hdr full_object key i etag1 etag2 r =
     (let c1 = wi_crc wi alg (probe_part 1); c2 = wi_crc wi alg (probe_part 2);
          checksum_hdr = ''x-amz-checksum-'' @ hdr;
          full = (if full_object
            then Some (checksum_text wi alg_name (wi_combine wi alg c1 c2 (of_nat (length (probe_part 2)))))
            else None)
      in try_io
        (call_full wi cl ''CompleteMultipartUpload'' ''POST'' (Some key) (''uploadId='' @ i)
          (name_bytes (complete_document wi alg_name etag1 etag2 c1 c2))
          (case full of None \<Rightarrow> [] | Some f \<Rightarrow> [(''x-amz-checksum-type'', ''FULL_OBJECT''), (checksum_hdr, f)]))
        (\<lambda>res.
          case res of
            Inl e \<Rightarrow>
              bind_io (abort_upload wi cl key i) (\<lambda>_.
                failed_probe r (''CompleteMultipartUpload: '' @ show_admin_error e))
          | Inr (_, headers, body) \<Rightarrow>
              (let got = or_else (header_value headers checksum_hdr) (xml_tag body (''Checksum'' @ alg_name)) in
               try_io (call wi cl ''DeleteObject'' ''DELETE'' (Some key) [] [] []) (\<lambda>_.
                 ret (r\<lparr>pr_complete_accepted := True, pr_complete_checksum := got,
                        pr_complete_type := or_else (header_value headers ''x-amz-checksum-type'')
                          (xml_tag body ''ChecksumType''),
                        pr_full_matches := (case (full, got) of (Some want, Some g) \<Rightarrow> Some (want = g)
                                            | _ \<Rightarrow> pr_full_matches r)\<rparr>)))))"

text \<open>Part 2, first with a wrong checksum, then with the right one.\<close>

definition second_part ::
  "'x wire \<Rightarrow> client \<Rightarrow> crc_algorithm \<Rightarrow> string \<Rightarrow> string \<Rightarrow> bool \<Rightarrow> string \<Rightarrow> string \<Rightarrow> string option \<Rightarrow> probe_result
     \<Rightarrow> ('x, 'e, probe_result) io" where
  "second_part wi cl alg alg_name hdr full_object key i etag1 r =
     (let p2 = probe_part 2; c2 = wi_crc wi alg p2;
          again = (\<lambda>r.
            try_io (upload_part wi cl alg_name hdr key i ''2'' p2 c2) (\<lambda>res.
              case res of
                Inl e \<Rightarrow>
                  bind_io (abort_upload wi cl key i) (\<lambda>_. failed_probe r (''UploadPart 2: '' @ show_admin_error e))
              | Inr (_, headers, _) \<Rightarrow>
                  (case (etag1, header_value headers ''etag'') of
                     (Some e1, Some e2) \<Rightarrow> complete_probe wi cl alg alg_name hdr full_object key i e1 e2 r
                   | _ \<Rightarrow>
                     bind_io (abort_upload wi cl key i) (\<lambda>_.
                       failed_probe r ''UploadPart returned no ETag''))))
      in try_io (upload_part wi cl alg_name hdr key i ''2'' p2 (c2 XOR 1)) (\<lambda>res.
           case res of
             Inr _ \<Rightarrow> again (r\<lparr>pr_wrong_rejected := Some False\<rparr>)
           | Inl (AdS3 _ _ code _) \<Rightarrow> again (r\<lparr>pr_wrong_rejected := Some True, pr_wrong_code := Some code\<rparr>)
           | Inl e \<Rightarrow>
               bind_io (abort_upload wi cl key i) (\<lambda>_.
                 failed_probe r (''UploadPart (wrong checksum) transport: '' @ show_admin_error e))))"

definition first_part ::
  "'x wire \<Rightarrow> client \<Rightarrow> crc_algorithm \<Rightarrow> string \<Rightarrow> string \<Rightarrow> bool \<Rightarrow> string \<Rightarrow> string \<Rightarrow> probe_result
     \<Rightarrow> ('x, 'e, probe_result) io" where
  "first_part wi cl alg alg_name hdr full_object key i r =
     (let p1 = probe_part 1; c1 = wi_crc wi alg p1 in
      try_io (upload_part wi cl alg_name hdr key i ''1'' p1 c1) (\<lambda>res.
        case res of
          Inl e \<Rightarrow>
            bind_io (abort_upload wi cl key i) (\<lambda>_.
              failed_probe r (''UploadPart with '' @ alg_name @ '': '' @ show_admin_error e))
        | Inr (_, headers, _) \<Rightarrow>
            second_part wi cl alg alg_name hdr full_object key i (header_value headers ''etag'')
              (r\<lparr>pr_part_accepted := True,
                 pr_part_echoes := map_option (\<lambda>v. v = checksum_text wi alg_name c1)
                   (header_value headers (''x-amz-checksum-'' @ hdr))\<rparr>)))"

definition probe_one ::
  "'x wire \<Rightarrow> client \<Rightarrow> crc_algorithm \<Rightarrow> string \<Rightarrow> string \<Rightarrow> bool \<Rightarrow> ('x, 'e, probe_result) io" where
  "probe_one wi cl alg alg_name hdr full_object x0 =
     (case wi_uuid wi x0 of (u, x) \<Rightarrow>
        (let key = ''v1/.probe-'' @ hdr @ ''-'' @ u; r = probe_default\<lparr>pr_algorithm := alg_name\<rparr> in
         try_io
           (call wi cl ''CreateMultipartUpload'' ''POST'' (Some key) ''uploads='' []
             ((''x-amz-checksum-algorithm'', alg_name) #
              (if full_object then [(''x-amz-checksum-type'', ''FULL_OBJECT'')] else [])))
           (\<lambda>res.
             case res of
               Inl e \<Rightarrow> failed_probe r (''CreateMultipartUpload: '' @ show_admin_error e)
             | Inr (_, xml) \<Rightarrow>
                 (case xml_tag xml ''UploadId'' of
                    None \<Rightarrow> failed_probe r ''CreateMultipartUpload returned no UploadId''
                  | Some i \<Rightarrow> first_part wi cl alg alg_name hdr full_object key i r))
           x))"

definition probe_checksums :: "'x wire \<Rightarrow> client \<Rightarrow> ('x, 'e, probe_result \<times> probe_result) io" where
  "probe_checksums wi cl =
     bind_io (probe_one wi cl Crc32Iscsi ''CRC32C'' ''crc32c'' False) (\<lambda>composite.
     bind_io (probe_one wi cl Crc64Nvme ''CRC64NVME'' ''crc64nvme'' True) (\<lambda>full.
       ret (composite, full)))"

end
