(* ===== verification/Bucket_Check.thy ===== *)
theory Bucket_Check
  imports Admin_Client Targets
begin

text \<open>
  The validation report of \<open>src/store/admin.rs\<close>, \<open>Store::validate\<close> and the command \<open>check\<close>
  (\<open>src/cmd/check.rs\<close>). The bucket calls of the client as the \<open>admin_api\<close> of a store: a listing that
  does not return gives no value, so the store's model says nothing about that case.
\<close>

definition client_api :: "'x wire \<Rightarrow> client \<Rightarrow> 'x admin_api" where
  "client_api wi cl =
     \<lparr>ad_put_object_crc32c = put_object_crc32c wi cl,
      ad_list_uploads = (\<lambda>prefix x. the (list_multipart_uploads wi cl prefix x)),
      ad_list_versions = (\<lambda>prefix x. the (list_object_versions wi cl prefix x)),
      ad_delete_version = delete_version wi cl,
      ad_show = show_admin_error\<rparr>"

section \<open>The report\<close>

fun show_store_error :: "store_error \<Rightarrow> string" where
  "show_store_error (NotFound key) = ''object not found: '' @ key"
| "show_store_error (NoSuchUpload key i) = ''multipart upload '' @ i @ '' for '' @ key @ '' no longer exists''"
| "show_store_error (Config e) = ''configuration: '' @ e"
| "show_store_error (Backend e) = ''object store: '' @ os_display e"
| "show_store_error (Admin e) = ''s3: '' @ show_admin_error e"

record report =
  re_ok :: bool
  re_reachable :: bool
  re_credentials_ok :: bool
  re_bucket_exists :: bool
  re_versioning :: "string option"
  re_object_lock :: "bool option"
  re_lock_retention :: "string option"
  re_abort_mpu_days :: "u32 option"
  re_can_write :: bool
  re_can_read :: bool
  re_can_delete :: bool
  re_can_multipart :: bool
  re_latency_ms :: "u64 option"
  re_crc32c_verified :: "bool option"
  re_crc64_verified :: "bool option"
  re_warnings :: "string list"
  re_errors :: "string list"
  re_checked_at :: string

definition report_default :: report where
  "report_default =
     \<lparr>re_ok = False, re_reachable = False, re_credentials_ok = False, re_bucket_exists = False,
      re_versioning = None, re_object_lock = None, re_lock_retention = None, re_abort_mpu_days = None,
      re_can_write = False, re_can_read = False, re_can_delete = False, re_can_multipart = False,
      re_latency_ms = None, re_crc32c_verified = None, re_crc64_verified = None, re_warnings = [],
      re_errors = [], re_checked_at = []\<rparr>"

definition warn :: "string \<Rightarrow> report \<Rightarrow> report" where
  "warn w r = r\<lparr>re_warnings := re_warnings r @ [w]\<rparr>"

definition fault :: "string \<Rightarrow> report \<Rightarrow> report" where
  "fault e r = r\<lparr>re_errors := re_errors r @ [e]\<rparr>"

text \<open>
  The HEAD of the bucket: \<open>Inl\<close> where \<open>validate\<close> returns early, \<open>Inr\<close> where it goes on.
\<close>

definition reach_bucket :: "'x wire \<Rightarrow> client \<Rightarrow> report \<Rightarrow> ('x sys, report, report) io" where
  "reach_bucket wi cl r s0 =
     (let t0 = wi_clock wi (ext s0);
          elapsed = (\<lambda>s. Some (of_int ((wi_clock wi (ext s) - t0) div 1000000)) :: u64 option)
      in try_io (on_ext (head_bucket wi cl)) (\<lambda>res s.
           case res of
             Inr found \<Rightarrow>
               (let r1 = r\<lparr>re_reachable := True, re_credentials_ok := True, re_bucket_exists := found,
                           re_latency_ms := elapsed s\<rparr>
                in if found then (Inr r1, s)
                   else (Inl (fault (''bucket '' @ bucket (cl_cfg cl) @ '' does not exist'') r1), s))
           | Inl (AdS3 _ status code msg) \<Rightarrow>
               (let r1 = r\<lparr>re_reachable := True, re_latency_ms := elapsed s\<rparr>
                in (Inl (if status = 403 \<or> contains_str ''Signature'' code \<or> contains_str ''AccessKey'' code
                         then fault (''credentials rejected: '' @ code @ '' '' @ msg) r1
                         else fault (''HEAD bucket failed: '' @ fmt_radix 10 status @ '' '' @ code @ '' '' @ msg) r1), s))
           | Inl e \<Rightarrow> (Inl (fault (''endpoint unreachable: '' @ show_admin_error e) r), s)) s0)"

definition read_settings :: "'x wire \<Rightarrow> client \<Rightarrow> report \<Rightarrow> ('x sys, 'e, report) io" where
  "read_settings wi cl r0 =
     try_io (on_ext (versioning wi cl)) (\<lambda>res.
       let r1 = (case res of
           Inr v \<Rightarrow>
             (if v \<noteq> ''Enabled''
              then warn ''versioning is not enabled: deletes are immediate and unrecoverable'' r0 else r0)
             \<lparr>re_versioning := Some v\<rparr>
         | Inl e \<Rightarrow> warn (''could not read versioning: '' @ show_admin_error e) r0) in
     try_io (on_ext (object_lock wi cl)) (\<lambda>res.
       let r2 = (case res of
           Inr (enabled, rule) \<Rightarrow>
             (let r = r1\<lparr>re_object_lock := Some enabled, re_lock_retention := rule\<rparr>
              in if \<not> enabled then warn ''Object Lock is not enabled: backups are not immutable'' r else r)
         | Inl e \<Rightarrow> warn (''could not read Object Lock config: '' @ show_admin_error e) r1) in
     try_io (on_ext (lifecycle_abort_mpu wi cl)) (\<lambda>res.
       ret (case res of
           Inr (Some d) \<Rightarrow> r2\<lparr>re_abort_mpu_days := Some d\<rparr>
         | Inr None \<Rightarrow> warn (''no lifecycle rule aborts incomplete multipart uploads; '' @
             ''stale uploads will bill until the provider'' @ [CHR 0x27] @ ''s own cleanup'') r2
         | Inl e \<Rightarrow> warn (''could not read lifecycle: '' @ show_admin_error e) r2))))"

definition fresh_id :: "'x wire \<Rightarrow> ('x sys, 'e, string) io" where
  "fresh_id wi s = (case wi_uuid wi (ext s) of (u, x) \<Rightarrow> (Inr u, s\<lparr>ext := x\<rparr>))"

text \<open>Reading back and deleting the probe object, and a multipart upload that is aborted at once.\<close>

definition probe_object :: "'x store \<Rightarrow> string \<Rightarrow> bytes \<Rightarrow> report \<Rightarrow> ('x sys, 'e, report) io" where
  "probe_object st key payload r0 =
     try_io (store_get st key) (\<lambda>res.
       let r1 = (case res of
           Inr b \<Rightarrow> (if b = payload then r0\<lparr>re_can_read := True\<rparr>
                     else fault ''probe read returned different bytes'' r0)
         | Inl e \<Rightarrow> fault (''probe read failed: '' @ show_store_error e) r0) in
     try_io (store_delete st key) (\<lambda>res.
       ret (case res of
           Inr _ \<Rightarrow> r1\<lparr>re_can_delete := True\<rparr>
         | Inl e \<Rightarrow> fault (''probe delete failed: '' @ show_store_error e) r1)))"

definition probe_multipart :: "'x store \<Rightarrow> string \<Rightarrow> report \<Rightarrow> ('x sys, 'e, report) io" where
  "probe_multipart st key r =
     try_io (store_create_multipart st key) (\<lambda>res.
       case res of
         Inr i \<Rightarrow>
           try_io (store_abort_multipart st key i) (\<lambda>res.
             let r1 = r\<lparr>re_can_multipart := True\<rparr> in
             ret (case res of
                 Inr _ \<Rightarrow> r1
               | Inl e \<Rightarrow> warn (''probe multipart upload not aborted: '' @ show_store_error e) r1))
       | Inl e \<Rightarrow> ret (fault (''multipart create failed: '' @ show_store_error e) r))"

definition probe_store :: "'x wire \<Rightarrow> 'x store \<Rightarrow> string \<Rightarrow> report \<Rightarrow> ('x sys, 'e, report) io" where
  "probe_store wi st prefix r =
     bind_io (fresh_id wi) (\<lambda>u.
       let key = prefix @ ''.probe/'' @ u; payload = name_bytes ''zfsbackup-rs probe'' in
       try_io (store_put st key payload) (\<lambda>res.
         case res of
           Inl e \<Rightarrow> ret (fault (''probe write failed: '' @ show_store_error e) r)
         | Inr _ \<Rightarrow>
             bind_io (probe_object st key payload (r\<lparr>re_can_write := True\<rparr>)) (\<lambda>r1.
             bind_io (fresh_id wi) (\<lambda>u2.
               probe_multipart st (prefix @ ''.probe/'' @ u2 @ ''-mpu'') r1))))"

definition probe_ok :: "probe_result \<Rightarrow> bool" where
  "probe_ok p \<longleftrightarrow>
     pr_part_accepted p \<and> pr_part_echoes p = Some True \<and> pr_wrong_rejected p = Some True \<and> pr_complete_accepted p"

definition judge_checksums :: "'x wire \<Rightarrow> client \<Rightarrow> report \<Rightarrow> ('x sys, 'e, report) io" where
  "judge_checksums wi cl r =
     try_io (on_ext (probe_checksums wi cl) :: ('x sys, admin_error, probe_result \<times> probe_result) io) (\<lambda>res.
       ret (case res of
           Inr (composite, full) \<Rightarrow>
             (let r1 = r\<lparr>re_crc32c_verified := Some (probe_ok composite),
                         re_crc64_verified := Some (probe_ok full)\<rparr>
              in if re_crc32c_verified r1 \<noteq> Some True
                 then warn (''endpoint does not verify CRC32C on upload; corruption is caught on read '' @
                   ''instead of refused on write'') r1
                 else r1)
         | Inl e \<Rightarrow> warn (''checksum probe failed: '' @ show_admin_error e) r))"

definition validate :: "'x wire \<Rightarrow> client \<Rightarrow> 'x store option \<Rightarrow> string \<Rightarrow> ('x sys, 'e, report) io" where
  "validate wi cl store_opt prefix s =
     try_io (reach_bucket wi cl (report_default\<lparr>re_checked_at := wi_now wi (ext s)\<rparr>)) (\<lambda>res.
       case res of
         Inl r \<Rightarrow> ret r
       | Inr r0 \<Rightarrow>
           bind_io (read_settings wi cl r0) (\<lambda>r1.
           bind_io (case store_opt of Some st \<Rightarrow> probe_store wi st prefix r1 | None \<Rightarrow> ret r1) (\<lambda>r2.
           bind_io (judge_checksums wi cl r2) (\<lambda>r3.
             ret (r3\<lparr>re_ok := (re_errors r3 = [])\<rparr>))))) s"

definition store_validate ::
  "'x wire \<Rightarrow> client option \<Rightarrow> 'x store \<Rightarrow> string \<Rightarrow> ('x sys, store_error, report) io" where
  "store_validate wi admin st prefix =
     (case admin of
        None \<Rightarrow> throw (Config ''this store has no S3 admin client to check'')
      | Some cl \<Rightarrow> validate wi cl (Some st) prefix)"

section \<open>The command\<close>

definition yn :: "bool \<Rightarrow> string" where
  "yn b = (if b then ''yes'' else ''no'')"

definition tri :: "bool option \<Rightarrow> string" where
  "tri b = (case b of Some True \<Rightarrow> ''yes'' | Some False \<Rightarrow> ''NO'' | None \<Rightarrow> ''unknown'')"

text \<open>The values the report is printed with, line by line.\<close>

definition check_lines :: "report \<Rightarrow> string list" where
  "check_lines r =
     [yn (re_reachable r) @ '' ('' @
        (case re_latency_ms r of Some m \<Rightarrow> fmt_radix 10 (unat m) @ '' ms'' | None \<Rightarrow> [CHR 0xE2, CHR 0x80, CHR 0x94]) @ '')'',
      yn (re_credentials_ok r), yn (re_bucket_exists r),
      (case re_versioning r of Some v \<Rightarrow> v | None \<Rightarrow> ''unknown''),
      tri (re_object_lock r) @ (case re_lock_retention r of Some d \<Rightarrow> '' ('' @ d @ '')'' | None \<Rightarrow> []),
      (case re_abort_mpu_days r of Some d \<Rightarrow> fmt_radix 10 (unat d) @ '' days'' | None \<Rightarrow> ''not configured''),
      yn (re_can_write r) @ '' / '' @ yn (re_can_read r) @ '' / '' @ yn (re_can_delete r),
      yn (re_can_multipart r), tri (re_crc32c_verified r), tri (re_crc64_verified r)] @
     map (\<lambda>w. ''warning: '' @ w) (re_warnings r) @ map (\<lambda>e. ''error: '' @ e) (re_errors r)"

text \<open>What is printed, then the outcome.\<close>

definition check_run ::
  "'x wire \<Rightarrow> client option \<Rightarrow> string \<Rightarrow> 'x target \<Rightarrow> ('x sys, error, string list \<times> (error + unit)) io" where
  "check_run wi admin label t =
     bind_io (err_io EStore (store_validate wi admin (tg_store t) (all_manifests_prefix (tg_prefix t)))) (\<lambda>r.
       ret (check_lines r,
         if re_ok r then Inr ()
         else Inl (Message (label @ '' is not usable for backups (see errors above)''))))"

end
