(* ===== verification/Check_Laws.thy ===== *)
theory Check_Laws
  imports Bucket_Check
begin

text \<open>
  What \<open>check\<close> establishes and what it leaves alone: a report is \<open>ok\<close> only when every probe of the object
  store went well, and nothing but the probe objects changes, whatever the service answers.
\<close>

section \<open>What a good report means\<close>

text \<open>The part of the report that only the probes of the store change, and what no later step takes back.\<close>

definition established :: "report \<Rightarrow> bool \<times> bool \<times> bool \<times> bool \<times> bool \<times> bool \<times> bool" where
  "established r = (re_reachable r, re_credentials_ok r, re_bucket_exists r, re_can_write r, re_can_read r,
     re_can_delete r, re_can_multipart r)"

definition same_findings :: "report \<Rightarrow> report \<Rightarrow> bool" where
  "same_findings r r' \<longleftrightarrow> established r' = established r \<and> re_errors r' = re_errors r"

lemma findings_updates [simp]:
  "established (warn w r) = established r" "re_errors (warn w r) = re_errors r"
  "established (fault e r) = established r" "re_errors (fault e r) = re_errors r @ [e]"
  by (simp_all add: established_def warn_def fault_def)

lemma same_findings_warn: "same_findings r r' \<Longrightarrow> same_findings r (warn w r')"
  by (simp add: same_findings_def)

text \<open>What a call that goes well returns, whatever the calls inside it did.\<close>

definition yields :: "('a \<Rightarrow> bool) \<Rightarrow> ('w, 'e, 'a) io \<Rightarrow> bool" where
  "yields Q m \<longleftrightarrow> (\<forall>w x w'. m w = (Inr x, w') \<longrightarrow> Q x)"

lemma yieldsD: "yields Q m \<Longrightarrow> m w = (Inr x, w') \<Longrightarrow> Q x"
  unfolding yields_def by blast

lemma yields_ret: "Q x \<Longrightarrow> yields Q (ret x)"
  by (simp add: yields_def)

lemma yields_try: "(\<And>r. yields Q (f r)) \<Longrightarrow> yields Q (try_io m f)"
  unfolding yields_def try_io_iff by blast

lemma yields_bind: "yields R m \<Longrightarrow> (\<And>x. R x \<Longrightarrow> yields Q (f x)) \<Longrightarrow> yields Q (bind_io m f)"
  unfolding yields_def bind_io_Inr by blast

lemma yields_any: "yields (\<lambda>_. True) m"
  by (simp add: yields_def)

lemma same_findings_steps:
  "same_findings r r"
  "same_findings r r0 \<Longrightarrow> same_findings r (case res of
     Inl e \<Rightarrow> warn (f e) r0 | Inr v \<Rightarrow> (if v \<noteq> c then warn w r0 else r0)\<lparr>re_versioning := Some v\<rparr>)"
  "same_findings r r0 \<Longrightarrow> same_findings r (case res2 of
     Inl e \<Rightarrow> warn (f e) r0 | Inr (enabled, rule) \<Rightarrow>
       if \<not> enabled then warn w (r0\<lparr>re_object_lock := Some enabled, re_lock_retention := rule\<rparr>)
       else r0\<lparr>re_object_lock := Some enabled, re_lock_retention := rule\<rparr>)"
  "same_findings r r0 \<Longrightarrow> same_findings r (case res3 of
     Inl e \<Rightarrow> warn (f e) r0 | Inr None \<Rightarrow> warn w r0 | Inr (Some d) \<Rightarrow> r0\<lparr>re_abort_mpu_days := Some d\<rparr>)"
  "same_findings r r0 \<Longrightarrow> same_findings r (case res4 of
     Inl e \<Rightarrow> warn (f e) r0 | Inr (a, b) \<Rightarrow>
       if re_crc32c_verified (r0\<lparr>re_crc32c_verified := Some (probe_ok a), re_crc64_verified := Some (probe_ok b)\<rparr>) \<noteq> Some True
       then warn w (r0\<lparr>re_crc32c_verified := Some (probe_ok a), re_crc64_verified := Some (probe_ok b)\<rparr>)
       else r0\<lparr>re_crc32c_verified := Some (probe_ok a), re_crc64_verified := Some (probe_ok b)\<rparr>)"
  by (auto simp: same_findings_def established_def warn_def split: sum.split prod.split option.split)

lemma read_settings_findings: "yields (same_findings r) (read_settings wi cl r)"
  unfolding read_settings_def Let_def by (intro yields_try yields_ret same_findings_steps)

lemma judge_checksums_findings: "yields (same_findings r) (judge_checksums wi cl r)"
  unfolding judge_checksums_def Let_def by (intro yields_try yields_ret same_findings_steps)

lemma reach_bucket_good:
  "reach_bucket wi cl r s = (Inr r', s') \<Longrightarrow> re_errors r' = re_errors r \<and> re_reachable r' \<and> re_credentials_ok r' \<and> re_bucket_exists r'"
  unfolding reach_bucket_def Let_def try_io_iff
  by (elim exE conjE) (simp split: sum.splits admin_error.splits if_splits, clarsimp)

lemma reach_bucket_bad:
  "reach_bucket wi cl r s = (Inl r', s') \<Longrightarrow> re_ok r' = re_ok r"
  unfolding reach_bucket_def Let_def try_io_iff
  by (elim exE conjE) (simp split: sum.splits admin_error.splits if_splits; clarsimp simp: fault_def)

text \<open>Good probes: no fault was reported, and the capabilities are there.\<close>

lemma probe_object_findings:
  "yields (\<lambda>r'. re_errors r' = [] \<longrightarrow> re_errors r = [] \<and>
     established r' = established (r\<lparr>re_can_read := True, re_can_delete := True\<rparr>)) (probe_object st key payload r)"
  unfolding probe_object_def Let_def
  by (intro yields_try yields_ret)
    (simp add: established_def fault_def split: sum.split)

lemma probe_multipart_findings:
  "yields (\<lambda>r'. re_errors r' = [] \<longrightarrow> re_errors r = [] \<and> established r' = established (r\<lparr>re_can_multipart := True\<rparr>))
     (probe_multipart st key r)"
  unfolding probe_multipart_def Let_def
  by (intro yields_try, split sum.split, intro conjI allI impI yields_try yields_ret)
    (auto simp: established_def fault_def warn_def split: sum.splits)

lemma probe_store_findings:
  "yields (\<lambda>r'. re_errors r' = [] \<longrightarrow> re_errors r = [] \<and>
     established r' = established (r\<lparr>re_can_write := True, re_can_read := True, re_can_delete := True, re_can_multipart := True\<rparr>))
     (probe_store wi st prefix r)"
  unfolding probe_store_def Let_def
proof (rule yields_bind [OF yields_any], rule yields_try, split sum.split, intro conjI allI impI)
  fix u e
  show "yields (\<lambda>r'. re_errors r' = [] \<longrightarrow> re_errors r = [] \<and>
     established r' = established (r\<lparr>re_can_write := True, re_can_read := True, re_can_delete := True, re_can_multipart := True\<rparr>))
     (ret (fault (''probe write failed: '' @ show_store_error e) r))"
    by (rule yields_ret) simp
next
  fix u v
  let ?m = "\<lambda>r1. bind_io (fresh_id wi) (\<lambda>u2. probe_multipart st (prefix @ ''.probe/'' @ u2 @ ''-mpu'') r1)"
  have "yields (\<lambda>r'. re_errors r' = [] \<longrightarrow> re_errors r1 = [] \<and> established r' = established (r1\<lparr>re_can_multipart := True\<rparr>))
     (?m r1)" for r1
    by (rule yields_bind [OF yields_any], rule probe_multipart_findings)
  then show "yields (\<lambda>r'. re_errors r' = [] \<longrightarrow> re_errors r = [] \<and>
     established r' = established (r\<lparr>re_can_write := True, re_can_read := True, re_can_delete := True, re_can_multipart := True\<rparr>))
     (bind_io (probe_object st (prefix @ ''.probe/'' @ u) (name_bytes ''zfsbackup-rs probe'') (r\<lparr>re_can_write := True\<rparr>)) ?m)"
    by (intro yields_bind [OF probe_object_findings]) (auto simp: yields_def established_def)
qed

lemma validate_ok:
  fixes wi :: "'x wire" and r :: report
  assumes "validate wi cl (Some st) prefix s = ((Inr r :: 'e + report), s')" "re_ok r"
  shows "re_errors r = [] \<and> re_reachable r \<and> re_credentials_ok r \<and> re_bucket_exists r \<and>
    re_can_write r \<and> re_can_read r \<and> re_can_delete r \<and> re_can_multipart r"
proof -
  let ?r0 = "report_default\<lparr>re_checked_at := wi_now wi (ext s)\<rparr>"
  obtain res s1 where 1: "reach_bucket wi cl ?r0 s = (res, s1)" by fastforce
  show ?thesis
  proof (cases res)
    case (Inl r1)
    with assms 1 reach_bucket_bad [of wi cl ?r0 s r1 s1] show ?thesis
      by (simp add: validate_def try_io_def ret_def report_default_def)
  next
    case (Inr r1)
    let ?Q = "\<lambda>r. re_ok r \<longrightarrow> re_errors r = [] \<and> re_reachable r \<and> re_credentials_ok r \<and> re_bucket_exists r \<and>
      re_can_write r \<and> re_can_read r \<and> re_can_delete r \<and> re_can_multipart r"
    have r1: "re_reachable r1 \<and> re_credentials_ok r1 \<and> re_bucket_exists r1"
      using reach_bucket_good [OF 1 [unfolded Inr]] by simp
    have "yields ?Q (bind_io (read_settings wi cl r1) (\<lambda>r1.
        bind_io (probe_store wi st prefix r1) (\<lambda>r2.
        bind_io (judge_checksums wi cl r2) (\<lambda>r3. ret (r3\<lparr>re_ok := (re_errors r3 = [])\<rparr>)))) :: ('x sys, 'e, report) io)"
    proof (rule yields_bind [OF read_settings_findings], rule yields_bind [OF probe_store_findings],
        rule yields_bind [OF judge_checksums_findings], rule yields_ret)
      fix r2 r3 r4
      assume "same_findings r1 r2" "same_findings r3 r4" "re_errors r3 = [] \<longrightarrow> re_errors r2 = [] \<and>
        established r3 = established (r2\<lparr>re_can_write := True, re_can_read := True, re_can_delete := True,
          re_can_multipart := True\<rparr>)"
      with r1 show "?Q (r4\<lparr>re_ok := (re_errors r4 = [])\<rparr>)" by (auto simp: same_findings_def established_def)
    qed
    moreover have "(bind_io (read_settings wi cl r1) (\<lambda>r1.
        bind_io (probe_store wi st prefix r1) (\<lambda>r2.
        bind_io (judge_checksums wi cl r2) (\<lambda>r3. ret (r3\<lparr>re_ok := (re_errors r3 = [])\<rparr>)))) :: ('x sys, 'e, report) io) s1 = (Inr r, s')"
      using assms(1) 1 Inr by (simp add: validate_def try_io_def)
    ultimately have "?Q r" by (rule yieldsD)
    with assms(2) show ?thesis by simp
  qed
qed

section \<open>What a check leaves alone\<close>

lemma safe_no_slash: "safe_segment u \<Longrightarrow> slash \<notin> set u"
  by (auto simp: safe_segment_def safe_char_def)

lemma clean_probe: "clean_path root \<Longrightarrow> safe_segment u \<Longrightarrow> slash \<notin> set u \<Longrightarrow> clean_path (root @ ''/.probe/'' @ u)"
proof -
  assume a: "clean_path root" "safe_segment u" "slash \<notin> set u"
  have "clean_path ''.probe''" by (simp add: clean_path_segment safe_segment_def safe_char_def)
  with a show ?thesis
    using clean_path_append [of root "''.probe'' @ slash # u"] clean_path_append [of "''.probe''" u]
    by (simp add: clean_path_segment)
qed

text \<open>The objects a check may write: those of the checksum probe and the probe object of the store.\<close>

definition checksum_object :: "string \<Rightarrow> bool" where
  "checksum_object k \<longleftrightarrow> (\<exists>n. (\<forall>c \<in> set n. safe_char c) \<and> k = ''v1/.probe-'' @ n)"

lemma clean_checksum_object: "checksum_object k \<Longrightarrow> clean_path k"
proof -
  assume "checksum_object k"
  then obtain n where n: "\<forall>c \<in> set n. safe_char c" "k = ''v1'' @ slash # ''.probe-'' @ n"
    by (auto simp: checksum_object_def)
  then have "slash \<notin> set n" by (auto simp: safe_char_def)
  with n(1) have "clean_path (''.probe-'' @ n)" by (simp add: clean_path_segment safe_segment_def safe_char_def)
  moreover have "clean_path ''v1''" by (simp add: clean_path_segment safe_segment_def safe_char_def)
  ultimately show ?thesis unfolding n(2) using clean_path_append by blast
qed

definition probe_key :: "string \<Rightarrow> string \<Rightarrow> bool" where
  "probe_key root k \<longleftrightarrow> checksum_object k \<or> (\<exists>u. safe_segment u \<and> slash \<notin> set u \<and> k = root @ ''/.probe/'' @ u)"

text \<open>
  A predicate on the outside that the requests of a check keep: those without a key, and those on the objects of the
  checksum probe.
\<close>

locale request_invariant =
  fixes wi :: "'x wire" and cl :: client and I :: "'x \<Rightarrow> bool"
  assumes keeps_ask: "key = None \<and> m \<in> {''HEAD'', ''GET''} \<or> (\<exists>p. key = Some p \<and> checksum_object p) \<Longrightarrow>
      keeps I (call_full wi cl op m key q body extra)"
    and keeps_uuid: "I x \<Longrightarrow> wi_uuid wi x = (u, x') \<Longrightarrow> I x' \<and> (\<forall>c \<in> set u. safe_char c)"
begin

lemma keeps_call:
  assumes "key = None \<and> m \<in> {''HEAD'', ''GET''} \<or> (\<exists>p. key = Some p \<and> checksum_object p)"
  shows "keeps I (call_full wi cl op m key q body extra)" "keeps I (call wi cl op m key q body extra)"
  unfolding call_def using keeps_ask [OF assms] by (auto split: prod.split)

lemma keeps_settings:
  "keeps I (head_bucket wi cl)" "keeps I (versioning wi cl)"
  "keeps I (object_lock wi cl)" "keeps I (lifecycle_abort_mpu wi cl)"
  unfolding head_bucket_def versioning_def object_lock_def lifecycle_abort_mpu_def
  by (auto intro!: keeps_try keeps_bind keeps_call split: sum.split prod.split admin_error.split option.split)

lemma keeps_fresh: "keeps (\<lambda>s. I (ext s)) (fresh_id wi)"
  unfolding keeps_def fresh_id_def using keeps_uuid by (auto split: prod.splits)

lemma keeps_probe_call:
  assumes "checksum_object p"
  shows "keeps I (call_full wi cl op m (Some p) q body extra)"
    "keeps I (call wi cl op m (Some p) q body extra)"
  by (rule keeps_call; use assms in blast)+

lemma keeps_abort_upload: "checksum_object p \<Longrightarrow> keeps I (abort_upload wi cl p i)"
  unfolding abort_upload_def by (intro keeps_try keeps_ret keeps_probe_call)

lemma keeps_failed: "keeps I (failed_probe r msg)"
  unfolding failed_probe_def by simp

lemma keeps_complete_probe:
  "checksum_object p \<Longrightarrow> keeps I (complete_probe wi cl alg nm hdr full p i e1 e2 r)"
  unfolding complete_probe_def Let_def
  by (intro keeps_try keeps_probe_call)
    (auto split: sum.split intro!: keeps_try keeps_bind keeps_probe_call keeps_abort_upload keeps_failed)

lemma keeps_second_part:
  "checksum_object p \<Longrightarrow> keeps I (second_part wi cl alg nm hdr full p i e1 r)"
  unfolding second_part_def Let_def upload_part_def
  by (intro keeps_try keeps_probe_call)
    (auto split: sum.split option.split admin_error.split
      intro!: keeps_try keeps_bind keeps_probe_call keeps_abort_upload keeps_failed keeps_complete_probe)

lemma keeps_first_part:
  "checksum_object p \<Longrightarrow> keeps I (first_part wi cl alg nm hdr full p i r)"
  unfolding first_part_def Let_def upload_part_def
  by (intro keeps_try keeps_probe_call)
    (auto split: sum.split intro!: keeps_bind keeps_abort_upload keeps_failed keeps_second_part)

lemma keeps_probe_one:
  assumes hdr: "\<forall>c \<in> set hdr. safe_char c"
  shows "keeps I (probe_one wi cl alg nm hdr full)"
proof -
  have "keeps I
      (try_io (call wi cl ''CreateMultipartUpload'' ''POST'' (Some p) ''uploads='' [] hs)
        (\<lambda>res. case res of
           Inl e \<Rightarrow> failed_probe r (''CreateMultipartUpload: '' @ show_admin_error e)
         | Inr (_, xml) \<Rightarrow>
             (case xml_tag xml ''UploadId'' of
                None \<Rightarrow> failed_probe r ''CreateMultipartUpload returned no UploadId''
              | Some i \<Rightarrow> first_part wi cl alg nm hdr full p i r)))" if "checksum_object p" for p hs r
    using that by (intro keeps_try keeps_probe_call)
      (auto split: sum.split option.split intro!: keeps_failed keeps_first_part)
  moreover have "checksum_object (''v1/.probe-'' @ n)" if "\<forall>c \<in> set n. safe_char c" for n
    using that by (auto simp: checksum_object_def)
  ultimately have body: "keeps I
      (try_io (call wi cl ''CreateMultipartUpload'' ''POST'' (Some (''v1/.probe-'' @ n)) ''uploads='' [] hs)
        (\<lambda>res. case res of
           Inl e \<Rightarrow> failed_probe r (''CreateMultipartUpload: '' @ show_admin_error e)
         | Inr (_, xml) \<Rightarrow>
             (case xml_tag xml ''UploadId'' of
                None \<Rightarrow> failed_probe r ''CreateMultipartUpload returned no UploadId''
              | Some i \<Rightarrow> first_part wi cl alg nm hdr full (''v1/.probe-'' @ n) i r)))"
    if "\<forall>c \<in> set n. safe_char c" for n hs r using that by blast
  show ?thesis
    unfolding keeps_def probe_one_def Let_def
  proof (intro allI impI)
    fix x
    assume x: "I x"
    obtain u x' where u: "wi_uuid wi x = (u, x')" by fastforce
    from keeps_uuid [OF x u] hdr have "I x'" "\<forall>c \<in> set (hdr @ ''-'' @ u). safe_char c" by (auto simp: safe_char_def)
    from body [OF this(2), unfolded keeps_def, rule_format, OF this(1)] show "I (snd (case wi_uuid wi x of (u, x) \<Rightarrow>
        try_io (call wi cl ''CreateMultipartUpload'' ''POST'' (Some (''v1/.probe-'' @ hdr @ ''-'' @ u)) ''uploads='' []
             ((''x-amz-checksum-algorithm'', nm) # (if full then [(''x-amz-checksum-type'', ''FULL_OBJECT'')] else [])))
           (\<lambda>res. case res of
               Inl e \<Rightarrow> failed_probe (probe_default\<lparr>pr_algorithm := nm\<rparr>) (''CreateMultipartUpload: '' @ show_admin_error e)
             | Inr (_, xml) \<Rightarrow>
                 (case xml_tag xml ''UploadId'' of
                    None \<Rightarrow> failed_probe (probe_default\<lparr>pr_algorithm := nm\<rparr>) ''CreateMultipartUpload returned no UploadId''
                  | Some i \<Rightarrow> first_part wi cl alg nm hdr full (''v1/.probe-'' @ hdr @ ''-'' @ u) i
                      (probe_default\<lparr>pr_algorithm := nm\<rparr>)))
           x))"
      unfolding u prod.case .
  qed
qed

lemma keeps_probe_checksums: "keeps I (probe_checksums wi cl)"
  unfolding probe_checksums_def by (intro keeps_bind keeps_probe_one keeps_ret) (simp_all add: safe_char_def)

lemma keeps_lifted: "keeps I m \<Longrightarrow> keeps (\<lambda>s. I (ext s)) (on_ext m)"
  unfolding keeps_def on_ext_def by (auto split: prod.splits)

lemma keeps_reach: "keeps (\<lambda>s. I (ext s)) (reach_bucket wi cl r)"
proof -
  have "keeps (\<lambda>s. I (ext s)) (on_ext (head_bucket wi cl))" by (rule keeps_lifted) (rule keeps_settings)
  then show ?thesis
    unfolding keeps_def reach_bucket_def Let_def try_io_def
    by (auto split: prod.split sum.split admin_error.split)
qed

lemma keeps_read_settings: "keeps (\<lambda>s. I (ext s)) (read_settings wi cl r)"
  unfolding read_settings_def Let_def by (intro keeps_try keeps_ret keeps_lifted keeps_settings)

lemma keeps_judge: "keeps (\<lambda>s. I (ext s)) (judge_checksums wi cl r)"
  unfolding judge_checksums_def by (intro keeps_try keeps_ret keeps_lifted keeps_probe_checksums)

end

text \<open>
  The service behind the requests of the client: reading the bucket changes nothing, and a request on an object
  nothing but that object. The names that are drawn for probes are plain path segments.
\<close>

locale s3_service = s3_store be view st
  for be :: "'x backend" and view :: "'x \<Rightarrow> string \<Rightarrow> bytes option" and st :: "'x store" +
  fixes wi :: "'x wire" and cl :: client
  assumes ask_view: "call_full wi cl op m key q body extra x = (r, x') \<Longrightarrow>
      (case key of None \<Rightarrow> m \<in> {''HEAD'', ''GET''} | Some p \<Rightarrow> clean_path p) \<Longrightarrow> key \<noteq> Some k \<Longrightarrow> view x' k = view x k"
    and fresh_view: "wi_uuid wi x = (u, x') \<Longrightarrow> view x' = view x \<and> safe_segment u"
    and multipart_view: "be_create_multipart be k x = (ri, x') \<Longrightarrow> view x' = view x"
    and abort_view: "be_abort_multipart be k i x = (ru, x') \<Longrightarrow> view x' = view x"
begin

definition untouched :: "string \<Rightarrow> (string \<Rightarrow> bytes option) \<Rightarrow> 'x \<Rightarrow> bool" where
  "untouched root b x \<longleftrightarrow> (\<forall>k. \<not> probe_key root k \<longrightarrow> view x k = b k)"

sublocale asking: request_invariant wi cl "untouched root b" for root b
proof
  fix key :: "string option" and m op q body extra
  assume key: "key = None \<and> m \<in> {''HEAD'', ''GET''} \<or> (\<exists>p. key = Some p \<and> checksum_object p)"
  show "keeps (untouched root b) (call_full wi cl op m key q body extra)"
    unfolding keeps_def untouched_def
  proof (intro allI impI)
    fix x k assume x: "\<forall>k. \<not> probe_key root k \<longrightarrow> view x k = b k" and k: "\<not> probe_key root k"
    have "case key of None \<Rightarrow> m \<in> {''HEAD'', ''GET''} | Some p \<Rightarrow> clean_path p" "key \<noteq> Some k"
      using key k clean_checksum_object by (auto simp: probe_key_def)
    from ask_view [OF prod.collapse [symmetric] this] x k
    show "view (snd (call_full wi cl op m key q body extra x)) k = b k" by simp
  qed
next
  fix x u x'
  assume "untouched root b x" "wi_uuid wi x = (u, x')"
  with fresh_view show "untouched root b x' \<and> (\<forall>c \<in> set u. safe_char c)"
    by (simp add: untouched_def safe_segment_def)
qed

lemma keeps_multipart:
  "keeps (\<lambda>s. untouched root b (ext s)) (probe_multipart st key r)"
proof -
  have "keeps (\<lambda>s. untouched root b (ext s)) (store_create_multipart st key)"
    unfolding keeps_def store_create_multipart_def outside_split inner untouched_def
    using multipart_view by (auto simp: outside_def split: prod.splits)
  moreover have "keeps (\<lambda>s. untouched root b (ext s)) (store_abort_multipart st key i)" for i
    unfolding store_abort_multipart_def
  proof (rule keeps_try)
    show "keeps (\<lambda>s. untouched root b (ext s)) (outside Backend (be_abort_multipart (st_inner st) (store_path st key) i))"
      unfolding keeps_def outside_def inner untouched_def using abort_view by (auto split: prod.splits)
  qed (auto split: sum.split store_error.split)
  ultimately show ?thesis
    unfolding probe_multipart_def Let_def by (intro keeps_try) (auto split: sum.split intro!: keeps_try)
qed

lemma keeps_probe_object:
  assumes "clean_path root" "safe_segment u"
  shows "keeps (\<lambda>s. untouched root b (ext s)) (probe_object st (root @ ''/.probe/'' @ u) payload r)"
proof -
  let ?k = "root @ ''/.probe/'' @ u"
  have c: "clean_path ?k" using assms clean_probe safe_no_slash by blast
  have p: "probe_key root ?k" using assms safe_no_slash by (auto simp: probe_key_def)
  have "keeps (\<lambda>s. \<forall>k. \<not> probe_key root k \<longrightarrow> contents s k = b k) (store_get st ?k)" by (rule bk.get_keeps [OF c])
  moreover have "keeps (\<lambda>s. \<forall>k. \<not> probe_key root k \<longrightarrow> contents s k = b k) (store_delete st ?k)"
    by (rule bk.del_keeps [OF c]) (use p in auto)
  ultimately show ?thesis
    unfolding probe_object_def Let_def untouched_def by (intro keeps_try keeps_ret)
qed

lemma keeps_probe_store:
  assumes root: "clean_path root"
  shows "keeps (\<lambda>s. untouched root b (ext s)) (probe_store wi st (root @ ''/'') r)"
proof -
  let ?I = "\<lambda>s. untouched root b (ext s)"
  have rest: "keeps ?I (try_io (store_put st ((root @ ''/'') @ ''.probe/'' @ u) v) (\<lambda>res.
         case res of
           Inl e \<Rightarrow> ret (fault (''probe write failed: '' @ show_store_error e) r)
         | Inr _ \<Rightarrow>
             bind_io (probe_object st ((root @ ''/'') @ ''.probe/'' @ u) v (r\<lparr>re_can_write := True\<rparr>)) (\<lambda>r1.
             bind_io (fresh_id wi) (\<lambda>u2. probe_multipart st ((root @ ''/'') @ ''.probe/'' @ u2 @ ''-mpu'') r1))))"
    if u: "safe_segment u" for u v
  proof -
    let ?k = "root @ ''/.probe/'' @ u"
    have c: "clean_path ?k" using root u clean_probe safe_no_slash by blast
    have p: "probe_key root ?k" using u safe_no_slash by (auto simp: probe_key_def)
    have "keeps (\<lambda>s. \<forall>k. \<not> probe_key root k \<longrightarrow> contents s k = b k) (store_put st ?k v)"
      by (rule bk.put_keeps [OF c]) (use p in auto)
    then have "keeps ?I (store_put st ((root @ ''/'') @ ''.probe/'' @ u) v)" by (simp add: untouched_def)
    moreover have "keeps ?I (probe_object st ((root @ ''/'') @ ''.probe/'' @ u) v r')" for r'
      using keeps_probe_object [OF root u] by simp
    ultimately show ?thesis
      by (auto split: sum.split intro!: keeps_try keeps_bind asking.keeps_fresh keeps_multipart)
  qed
  have "keeps ?I (bind_io (fresh_id wi) f)" if "\<And>u. safe_segment u \<Longrightarrow> keeps ?I (f u)"
    for f :: "string \<Rightarrow> ('x sys, 'e, report) io"
    unfolding keeps_def
  proof (intro allI impI)
    fix s :: "'x sys"
    assume s: "?I s"
    obtain u x where u: "wi_uuid wi (ext s) = (u, x)" by fastforce
    from fresh_view [OF u] s have "?I (s\<lparr>ext := x\<rparr>)" "safe_segment u" by (simp_all add: untouched_def)
    with that show "?I (snd (bind_io (fresh_id wi) f s))"
      unfolding keeps_def by (simp add: bind_io_def fresh_id_def u)
  qed
  from this [OF rest] show ?thesis unfolding probe_store_def Let_def .
qed

lemma keeps_validate:
  assumes "clean_path root"
  shows "keeps (\<lambda>s. untouched root b (ext s)) (validate wi cl (Some st) (root @ ''/'') :: ('x sys, 'e, report) io)"
proof -
  let ?I = "\<lambda>s. untouched root b (ext s)"
  have "keeps ?I (bind_io (read_settings wi cl r0) (\<lambda>r1.
      bind_io (case Some st of Some st \<Rightarrow> probe_store wi st (root @ ''/'') r1 | None \<Rightarrow> ret r1) (\<lambda>r2.
      bind_io (judge_checksums wi cl r2) (\<lambda>r3. ret (r3\<lparr>re_ok := (re_errors r3 = [])\<rparr>))))
      :: ('x sys, 'e, report) io)" for r0
    unfolding option.case by (intro keeps_bind asking.keeps_read_settings keeps_probe_store assms asking.keeps_judge keeps_ret)
  then have "keeps ?I (try_io (reach_bucket wi cl r) (\<lambda>res. case res of Inl r \<Rightarrow> ret r | Inr r0 \<Rightarrow>
      bind_io (read_settings wi cl r0) (\<lambda>r1.
      bind_io (case Some st of Some st \<Rightarrow> probe_store wi st (root @ ''/'') r1 | None \<Rightarrow> ret r1) (\<lambda>r2.
      bind_io (judge_checksums wi cl r2) (\<lambda>r3. ret (r3\<lparr>re_ok := (re_errors r3 = [])\<rparr>)))))
      :: ('x sys, 'e, report) io)" for r
    by (intro keeps_try asking.keeps_reach) (simp split: sum.split)
  then show ?thesis unfolding keeps_def validate_def by blast
qed

lemma check_run_view:
  assumes "tg_store t = st" "clean_path (key_root (tg_prefix t))" "check_run wi (Some cl) label t s = (r, s')"
    and "\<not> probe_key (key_root (tg_prefix t)) k"
  shows "contents s' k = contents s k"
proof -
  let ?I = "\<lambda>v. untouched (key_root (tg_prefix t)) (contents s) (ext v)"
  have "keeps ?I (check_run wi (Some cl) label t)"
    using keeps_validate [OF assms(2)] assms(1)
    by (auto simp: check_run_def store_validate_def all_manifests_prefix_def intro!: keeps_bind keeps_err)
  from keepsD [OF this _ assms(3)] assms(4) show ?thesis by (simp add: untouched_def)
qed

end

end
