(* ===== verification/Lifecycle.thy ===== *)
theory Lifecycle
  imports Send_Run Receive Clean Inspect Check_Laws
begin

text \<open>
  The commands together: runs of \<open>send\<close>, \<open>receive\<close>, \<open>verify\<close>, \<open>list\<close>, \<open>pin\<close>, \<open>retention\<close>,
  \<open>clean\<close> and \<open>check\<close> one after another on one bucket, from different machines, each ending in any way. A
  bucket that is healthy at first stays so, which is what makes a later restore give back the
  streams that were sent.
\<close>

section \<open>Pins\<close>

lemma manifest_at_pin: "manifest_at P (b(pin_key P g := v)) k x \<longleftrightarrow> manifest_at P b k x"
proof -
  have "pin_key P g \<noteq> key_root P @ slash # d @ slash # n @ slash # ''manifest.json''" if "slash \<notin> set d" for d n
  proof
    assume "pin_key P g = key_root P @ slash # d @ slash # n @ slash # ''manifest.json''"
    then have "''pins'' @ slash # guid_display g @ [] = d @ slash # n @ slash # ''manifest.json''"
      by (simp add: pin_key_def)
    then have "split_on slash (''pins'' @ slash # guid_display g @ [])
        = split_on slash (d @ slash # n @ slash # ''manifest.json'')" by (rule arg_cong)
    then have "length (split_on slash (guid_display g)) = length (split_on slash (n @ slash # ''manifest.json''))"
      using that by (simp add: split_on_append_sep)
    moreover have "split_on slash (guid_display g) = [guid_display g]"
      by (rule split_on_no_sep) (rule guid_display_no_slash)
    ultimately show False by (simp add: split_on_append)
  qed
  then show ?thesis by (auto simp: manifest_at_def)
qed

lemma healthy_pin:
  assumes h: "healthy cd blake orig P b"
  shows "healthy cd blake orig P (b(pin_key P g := v))" (is "healthy _ _ _ _ ?b'")
proof -
  have root: "clean_path (key_root P)" using h by (simp add: healthy_def tidy_def)
  have "tidy P ?b'" using h clean_keys(4) [OF root] by (auto simp: healthy_def tidy_def)
  moreover have "well_filed cd P ?b'" using h by (simp add: healthy_def well_filed_def manifest_at_pin)
  moreover have "faithful cd orig P ?b'"
    using h by (simp add: healthy_def faithful_def slices_of_def key_simps)
  moreover have "listed (co_dec cd) P ?b' m = listed (co_dec cd) P b m" for m
    by (simp add: listed_def key_simps)
  moreover have "archived cd blake orig P ?b' m = archived cd blake orig P b m" for m
    by (rule archived_cong) (simp add: key_simps)
  ultimately show ?thesis using h by (simp add: healthy_def intact_def)
qed

section \<open>Probe objects\<close>

text \<open>A probe object is never a manifest, a chunk or a marker: its key has too few segments.\<close>

lemma probe_key_short:
  assumes "probe_key (key_root P) (key_root P @ slash # a)"
  shows "count_list a slash < 2"
proof -
  have two: "Suc (count_list u slash) < 2" if "slash \<notin> set u" for u :: string using that by (simp add: count_list_0_iff)
  have safe: "slash \<notin> set n" if "\<forall>c \<in> set n. safe_char c" for n using that by (auto simp: safe_char_def)
  from assms consider n where "slash \<notin> set n" "key_root P @ slash # a = ''v1/.probe-'' @ n"
    | u where "slash \<notin> set u" "key_root P @ slash # a = key_root P @ ''/.probe/'' @ u"
    by (auto simp: probe_key_def checksum_object_def dest: safe)
  then show ?thesis
  proof cases
    case 1
    from arg_cong [OF 1(2), of "\<lambda>k. count_list k slash"] two [OF 1(1)] show ?thesis
      by simp
  next
    case 2
    from arg_cong [OF 2(2), of "\<lambda>k. count_list k slash"] two [OF 2(1)] show ?thesis by simp
  qed
qed

lemma probe_key_not_backup:
  "\<not> probe_key (key_root P) (snapshot_dir P d g @ slash # f)"
  "\<not> probe_key (key_root P) (key_root P @ slash # x @ slash # y @ slash # f)"
  using probe_key_short [of P "guid_display d @ slash # guid_display g @ slash # f"]
    probe_key_short [of P "x @ slash # y @ slash # f"]
  by (auto simp: snapshot_dir_def)

lemma healthy_probes:
  assumes h: "healthy cd blake orig P b"
    and same: "\<And>k. \<not> probe_key (key_root P) k \<Longrightarrow> b' k = b k"
  shows "healthy cd blake orig P b'"
proof -
  have root: "clean_path (key_root P)" using h by (simp add: healthy_def tidy_def)
  have keys [simp]: "b' (manifest_key P d g) = b (manifest_key P d g)" "b' (pending_key P d g) = b (pending_key P d g)"
    "b' (chunk_key P d g q) = b (chunk_key P d g q)" for d g q
    using same probe_key_not_backup(1) by (simp_all add: manifest_key_def pending_key_def chunk_key_def)
  have m: "manifest_at P b' k x \<longleftrightarrow> manifest_at P b k x" for k x
    using same probe_key_not_backup(2) by (auto simp: manifest_at_def)
  have "clean_path k" if "b' k \<noteq> None" "below (key_root P) k" for k
  proof (cases "probe_key (key_root P) k")
    case False
    with that same h show ?thesis by (simp add: healthy_def tidy_def)
  next
    case True
    from that(2) obtain a where a: "k = key_root P @ slash # a" by (auto simp: below_def starts_with_iff)
    from True consider "checksum_object k"
      | u where "safe_segment u" "slash \<notin> set u" "k = key_root P @ ''/.probe/'' @ u" by (auto simp: probe_key_def)
    then show ?thesis
    proof cases
      case 1
      then obtain n where "\<forall>c \<in> set n. safe_char c" "k = ''v1/.probe-'' @ n" by (auto simp: checksum_object_def)
      moreover then have "slash \<notin> set n" by (auto simp: safe_char_def)
      ultimately have "count_list k slash = 1" by (simp add: count_list_0_iff)
      moreover have "2 \<le> count_list k slash" by (simp add: a key_root_def)
      ultimately show ?thesis by simp
    next
      case 2
      then show ?thesis using clean_probe [OF root] by simp
    qed
  qed
  with root have "tidy P b'" by (simp add: tidy_def)
  moreover have "archived cd blake orig P b' x = archived cd blake orig P b x" for x
    by (rule archived_cong) simp
  ultimately show ?thesis
    using h by (simp add: healthy_def well_filed_def m faithful_def slices_of_def intact_def listed_def)
qed

section \<open>Each command on its own\<close>

context s3_store
begin

lemma keeps_manifests:
  assumes "tg_store t = st" "tidy (tg_prefix t) b" "\<And>xs. set (arrival xs) = set xs"
  shows "keeps (\<lambda>s. contents s = b) (manifests dec arrival t)"
  unfolding keeps_def using manifests_frame [OF assms(1) _ assms(3)] assms(2) by (metis prod.collapse)

lemma keeps_get: "clean_path k \<Longrightarrow> keeps (\<lambda>s. contents s = b) (store_get st k)"
  unfolding keeps_def using bk.get_any by (metis prod.collapse)

lemma keeps_verify_chunks:
  assumes t: "tg_store t = st" and root: "clean_path (key_root (tg_prefix t))"
  shows "keeps (\<lambda>s. contents s = b) (verify_chunks blake t m cs fed tot)"
proof (induction cs arbitrary: fed tot)
  case (Cons c cs)
  then show ?case
    using keeps_get [OF clean_keys(3) [OF root]] t by (auto simp: Let_def intro!: keeps_bind keeps_err)
qed simp

lemma verify_run_view:
  assumes t: "tg_store t = st" and tidy: "tidy (tg_prefix t) (contents s)"
    and arr: "\<And>xs. set (arrival xs) = set xs"
    and run: "verify_run dec arrival h t snap s = (r, s')"
  shows "contents s' = contents s"
proof -
  have root: "clean_path (key_root (tg_prefix t))" using tidy by (simp add: tidy_def)
  have "keeps (\<lambda>v. contents v = contents s) (verify_run dec arrival h t snap)"
    unfolding verify_run_def manifest_for_def verify_manifest_def
    by (intro keeps_bind keeps_lift_result keeps_manifests [OF t tidy arr] keeps_verify_chunks [OF t root])
      (auto split: prod.split)
  from keepsD [OF this refl run] show ?thesis .
qed

lemma list_run_view:
  assumes t: "tg_store t = st" and tidy: "tidy (tg_prefix t) (contents s)"
    and arr: "\<And>xs. set (arrival xs) = set xs"
    and run: "list_run dec arrival t only s = (r, s')"
  shows "contents s' = contents s"
proof -
  have root: "clean_path (key_root (tg_prefix t))" using tidy by (simp add: tidy_def)
  have "keeps (\<lambda>v. contents v = contents s) (pinned t)"
    unfolding keeps_def using pinned_frame [OF t root] by (metis prod.collapse)
  then have "keeps (\<lambda>v. contents v = contents s) (list_run dec arrival t only)"
    unfolding list_run_def by (intro keeps_bind keeps_ret keeps_manifests [OF t tidy arr])
  from keepsD [OF this refl run] show ?thesis .
qed

lemma pin_run_any:
  assumes t: "tg_store t = st" and tidy: "tidy (tg_prefix t) (contents s)"
    and arr: "\<And>xs. set (arrival xs) = set xs"
    and run: "pin_run dec arrival t snap pin s = (r, s')"
  shows "\<exists>g v. contents s' = contents s \<or> contents s' = (contents s)(pin_key (tg_prefix t) g := v)"
proof -
  have root: "clean_path (key_root (tg_prefix t))" using tidy by (simp add: tidy_def)
  obtain r1 s1 where 1: "manifest_for dec arrival t snap s = (r1, s1)" by fastforce
  have "keeps (\<lambda>v. contents v = contents s) (manifest_for dec arrival t snap)"
    unfolding manifest_for_def by (intro keeps_bind keeps_lift_result keeps_manifests [OF t tidy arr])
  from keepsD [OF this refl 1] have b1: "contents s1 = contents s" .
  show ?thesis
  proof (cases r1)
    case (Inl e)
    with run 1 b1 show ?thesis by (simp add: pin_run_def bind_io_def)
  next
    case (Inr m)
    let ?k = "pin_key (tg_prefix t) (mf_snapshot_guid m)"
    note clean = clean_keys(4) [OF root]
    from run 1 Inr t obtain rc where
      "(if pin then store_put st ?k (map (\<lambda>c. of_nat (of_char c)) (mf_snapshot m)) else store_delete st ?k) s1 = (rc, s')"
      by (auto simp: pin_run_def bind_io_def Let_def err_io_def split: prod.splits if_splits)
    then have "contents s' = contents s1 \<or>
        contents s' = (contents s1)(?k \<mapsto> map (\<lambda>c. of_nat (of_char c)) (mf_snapshot m)) \<or>
        contents s' = (contents s1)(?k := None)"
      using bk.put_any [OF clean] bk.del_any [OF clean] by (cases pin) fastforce+
    with b1 show ?thesis by auto
  qed
qed

lemma retention_healthy:
  assumes t: "tg_store t = st" and h: "healthy cd blake orig (tg_prefix t) (contents s)"
    and arr: "\<And>xs. set (arrival xs) = set xs"
    and run: "retention_run (co_dec cd) arrival ho t older keep only dry s = (r, s')"
  shows "healthy cd blake orig (tg_prefix t) (contents s')"
proof (rule healthy_less [OF h])
  have tidy: "tidy (tg_prefix t) (contents s)" using h by (simp add: healthy_def)
  show "contents s' k = contents s k \<or> contents s' k = None" for k
    using retention_effect [OF t tidy arr run] by (auto simp: only_deletes_def)
  show "sound_bucket (co_dec cd) blake (tg_prefix t) (contents s')"
    using h by (intro retention_sound [OF t tidy arr run] intact_sound) (auto simp: healthy_def)
qed

lemma clean_less:
  assumes t: "tg_store t = st" and tidy: "tidy (tg_prefix t) (contents s)"
    and run: "clean_run dec decp ho t dry s = (r, s')"
  shows "contents s' k = contents s k \<or> contents s' k = None"
  using t tidy run
proof (cases rule: clean_run_cases)
  case (deletes items s1 gs s2)
  let ?P = "\<lambda>b. b k = contents s k \<or> b k = None"
  have "keeps (\<lambda>v. ?P (contents v)) (for_each (\<lambda>(k, _). err_io EStore (store_delete st k)) (concat (map fst gs)))"
  proof (rule keeps_for_each, clarify)
    fix k' n assume "(k', n) \<in> set (concat (map fst gs))"
    from deletes(6) [OF this] have "clean_path k'" by blast
    then show "keeps (\<lambda>v. ?P (contents v)) (err_io EStore (store_delete st k'))"
      by (intro delete_keeps [where P = ?P]) simp_all
  qed
  from keepsD [OF this _ deletes(7)] deletes(4) show ?thesis by simp
qed simp

lemma clean_healthy:
  assumes t: "tg_store t = st" and h: "healthy cd blake orig (tg_prefix t) (contents s)"
    and run: "clean_run (co_dec cd) decp ho t dry s = (r, s')"
  shows "healthy cd blake orig (tg_prefix t) (contents s')"
proof (rule healthy_less [OF h])
  have tidy: "tidy (tg_prefix t) (contents s)" using h by (simp add: healthy_def)
  show "contents s' k = contents s k \<or> contents s' k = None" for k by (rule clean_less [OF t tidy run])
  show "sound_bucket (co_dec cd) blake (tg_prefix t) (contents s')"
    using h by (intro clean_sound [OF t tidy run] intact_sound) (auto simp: healthy_def)
qed

end

section \<open>Any sequence of commands\<close>

text \<open>
  One command on the bucket of \<open>st\<close> below the prefix \<open>P\<close>, with any result. The machine may be
  another one each time, with names and snapshots of its own; only the digest is the same for all. The
  streams are those of the pool that \<open>orig\<close> stands for. \<open>elsewhere\<close> is what happens between two commands.
\<close>

inductive command ::
  "'x backend \<Rightarrow> ('x \<Rightarrow> string \<Rightarrow> bytes option) \<Rightarrow> 'x store \<Rightarrow> string \<Rightarrow> codec \<Rightarrow> (bytes \<Rightarrow> string) \<Rightarrow> origin
     \<Rightarrow> 'x sys \<Rightarrow> 'x sys \<Rightarrow> bool"
  for be :: "'x backend" and view st P cd blake orig
where
  send: "sender be view st h \<Longrightarrow> ho_blake3 h = blake \<Longrightarrow> names_ok h guid_of \<Longrightarrow> sends_ok orig guid_of zsend \<Longrightarrow>
    \<forall>xs. mset (arrival xs) = mset xs \<Longrightarrow>
    send_run cd arrival h \<lparr>tg_store = st, tg_prefix = P\<rparr> a zsend picks lands s = (r, s') \<Longrightarrow>
    command be view st P cd blake orig s s'"
| receive: "receiver be view st h written applied \<Longrightarrow> \<forall>xs. mset (arrival xs) = mset xs \<Longrightarrow>
    receive_run (co_dec cd) arrival ready h \<lparr>tg_store = st, tg_prefix = P\<rparr> snap to force win s = (rc, s') \<Longrightarrow>
    command be view st P cd blake orig s s'"
| verify: "\<forall>xs. mset (arrival xs) = mset xs \<Longrightarrow>
    verify_run (co_dec cd) arrival h \<lparr>tg_store = st, tg_prefix = P\<rparr> snap s = (r, s') \<Longrightarrow>
    command be view st P cd blake orig s s'"
| list: "\<forall>xs. mset (arrival xs) = mset xs \<Longrightarrow>
    list_run (co_dec cd) arrival \<lparr>tg_store = st, tg_prefix = P\<rparr> only s = (rl, s') \<Longrightarrow>
    command be view st P cd blake orig s s'"
| pin: "\<forall>xs. mset (arrival xs) = mset xs \<Longrightarrow>
    pin_run (co_dec cd) arrival \<lparr>tg_store = st, tg_prefix = P\<rparr> snap on s = (r, s') \<Longrightarrow>
    command be view st P cd blake orig s s'"
| retention: "\<forall>xs. mset (arrival xs) = mset xs \<Longrightarrow>
    retention_run (co_dec cd) arrival h \<lparr>tg_store = st, tg_prefix = P\<rparr> older keep only dry s = (r, s') \<Longrightarrow>
    command be view st P cd blake orig s s'"
| clean: "clean_run (co_dec cd) (co_decp cd) h \<lparr>tg_store = st, tg_prefix = P\<rparr> dry s = (rd, s') \<Longrightarrow>
    command be view st P cd blake orig s s'"
| check: "\<forall>c. admin = Some c \<longrightarrow> s3_service be view st wi c \<Longrightarrow>
    check_run wi admin label \<lparr>tg_store = st, tg_prefix = P\<rparr> s = (rk, s') \<Longrightarrow>
    command be view st P cd blake orig s s'"
| elsewhere: "view (ext s') = view (ext s) \<Longrightarrow> command be view st P cd blake orig s s'"

lemma mset_arrival: "\<forall>xs. mset (arrival xs) = mset xs \<Longrightarrow> set (arrival xs) = set xs"
  by (metis set_mset_mset)

lemma command_healthy:
  assumes "s3_store be view st" "codec_ok cd" "command be view st P cd blake orig s s'"
    and "healthy cd blake orig P (view (ext s))"
  shows "healthy cd blake orig P (view (ext s'))"
  using assms(3,4)
proof (induction rule: command.induct)
  case (send h guid_of zsend arrival a picks lands s r s')
  then show ?case
    using sender.send_run_ok [OF send(1) _ _ assms(2) send(3,4) mset_arrival [OF send(5)] send(6)] by simp
next
  case (receive h written applied arrival ready snap to force win s rc s')
  then show ?case
    using receiver.receive_run_view [OF receive(1) _ _ mset_arrival [OF receive(2)] receive(3)]
    by (simp add: healthy_def)
next
  case (verify arrival h snap s r s')
  then show ?case
    using s3_store.verify_run_view [OF assms(1) _ _ mset_arrival [OF verify(1)] verify(2)] by (simp add: healthy_def)
next
  case (list arrival only s rl s')
  then show ?case
    using s3_store.list_run_view [OF assms(1) _ _ mset_arrival [OF list(1)] list(2)] by (simp add: healthy_def)
next
  case (pin arrival snap on s r s')
  have "tidy P (view (ext s))" using pin(3) by (simp add: healthy_def)
  with s3_store.pin_run_any [OF assms(1) _ _ mset_arrival [OF pin(1)] pin(2)]
  obtain g v where "view (ext s') = view (ext s) \<or> view (ext s') = (view (ext s))(pin_key P g := v)" by auto
  then show ?case using healthy_pin [OF pin(3)] pin(3) by (elim disjE) (simp_all only:)
next
  case (retention arrival h older keep only dry s r s')
  then show ?case
    using s3_store.retention_healthy [OF assms(1) _ _ mset_arrival [OF retention(1)] retention(2)] by simp
next
  case (clean h dry s rd s')
  then show ?case using s3_store.clean_healthy [OF assms(1) _ _ clean(1)] by simp
next
  case (check admin wi label s rk s')
  show ?case
  proof (cases admin)
    case None
    with check(2,3) show ?thesis by (auto simp: check_run_def store_validate_def bind_io_def err_io_def throw_def)
  next
    case (Some c)
    with check(1) have c: "s3_service be view st wi c" by simp
    have "tidy P (view (ext s))" using check(3) by (simp add: healthy_def)
    with s3_service.check_run_view [OF c _ _ check(2) [unfolded Some]] check(3) show ?thesis
      by (intro healthy_probes [OF check(3)]) (simp add: tidy_def)
  qed
next
  case (elsewhere s' s)
  then show ?case by simp
qed

lemma commands_healthy:
  assumes "s3_store be view st" "codec_ok cd"
  shows "(command be view st P cd blake orig)\<^sup>*\<^sup>* s s' \<Longrightarrow> healthy cd blake orig P (view (ext s)) \<Longrightarrow>
    healthy cd blake orig P (view (ext s'))"
  by (induction rule: rtranclp_induct) (auto intro: command_healthy [OF assms])

section \<open>Restoring from a healthy bucket\<close>

lemma list_all2_map_unique:
  "list_all2 R ms vs \<Longrightarrow> (\<And>m v. m \<in> set ms \<Longrightarrow> R m v \<Longrightarrow> v = f m) \<Longrightarrow> vs = map f ms"
  by (induction rule: list_all2_induct) auto

text \<open>A restore that reports success has applied the very streams of the chain.\<close>

lemma restore_from_healthy:
  assumes "receiver be view st h written applied" "tg_store t = st"
    and h: "healthy cd (ho_blake3 h) orig (tg_prefix t) (view (ext s))"
    and arr: "\<And>xs. set (arrival xs) = set xs"
    and run: "receive_run (co_dec cd) arrival ready h t snap to force win s = (Inr tot, s')"
  shows "\<exists>ms m. is_chain ms \<and> (\<forall>x \<in> set ms. listed (co_dec cd) (tg_prefix t) (view (ext s)) x) \<and>
    mf_snapshot m = snap \<and> listed (co_dec cd) (tg_prefix t) (view (ext s)) m \<and>
    (\<forall>x. listed (co_dec cd) (tg_prefix t) (view (ext s)) x \<longrightarrow> mf_snapshot x = snap \<longrightarrow> x = m) \<and>
    mf_snapshot_guid (last ms) = mf_snapshot_guid m \<and>
    applied (ext s') = applied (ext s) @
      map (\<lambda>x. orig (mf_snapshot_guid x) (mf_from_guid x) (mf_send_flags x)) ms"
proof -
  let ?P = "tg_prefix t" and ?b = "view (ext s)"
  let ?f = "\<lambda>x. orig (mf_snapshot_guid x) (mf_from_guid x) (mf_send_flags x)"
  have tidy: "tidy ?P ?b" using h by (simp add: healthy_def)
  from receiver.receive_run_ok [OF assms(1,2) tidy arr run] obtain all ms vs where
    all: "\<forall>m. m \<in> set all \<longleftrightarrow> (\<exists>k v. manifest_at ?P ?b k v \<and> co_dec cd v = Inr m)" and
    c: "chain_of all snap = Inr ms" "is_chain ms" and
    vs: "list_all2 (holds_stream (ho_blake3 h) ?P ?b) ms vs" "applied (ext s') = applied (ext s) @ vs" by blast
  have l: "m \<in> set all \<longleftrightarrow> listed (co_dec cd) ?P ?b m" for m
  proof
    assume "m \<in> set all"
    with all obtain k v where k: "manifest_at ?P ?b k v" "co_dec cd v = Inr m" by blast
    with h have "k = manifest_key ?P (mf_dataset_guid m) (mf_snapshot_guid m)"
      by (simp add: healthy_def well_filed_def)
    with k show "listed (co_dec cd) ?P ?b m" by (auto simp: listed_def manifest_at_def)
  next
    assume "listed (co_dec cd) ?P ?b m"
    then obtain v where v: "?b (manifest_key ?P (mf_dataset_guid m) (mf_snapshot_guid m)) = Some v"
      "co_dec cd v = Inr m" by (auto simp: listed_def)
    from manifest_key_at [where b = ?b, OF v(1)] v(2) all show "m \<in> set all" by blast
  qed
  note C = chain_of_Inr [OF c(1)]
  from C(4) obtain m where m: "pick all snap = Inr m" "mf_snapshot_guid (last ms) = mf_snapshot_guid m" by blast
  note hits = filter_eq_single [OF m(1) [unfolded pick_Inr]]
  have "vs = map ?f ms"
  proof (rule list_all2_map_unique [OF vs(1)])
    fix x v assume x: "x \<in> set ms" "holds_stream (ho_blake3 h) ?P ?b x v"
    with C(2) l h have "archived cd (ho_blake3 h) orig ?P ?b x" by (auto simp: healthy_def intact_def)
    then have "holds_stream (ho_blake3 h) ?P ?b x (?f x)" by (simp add: archived_def Let_def)
    with x(2) show "v = ?f x" by (rule holds_stream_unique)
  qed
  moreover have "mf_snapshot m = snap \<and> m \<in> set all \<and> (\<forall>x \<in> set all. mf_snapshot x = snap \<longrightarrow> x = m)"
    using hits by blast
  ultimately show ?thesis using c(2) C(2) l m(2) vs(2) by blast
qed

end
