(* ===== verification/Working.thy ===== *)
theory Working
  imports Lifecycle
begin

text \<open>
  What happens when nothing fails. \<open>up\<close> marks the states of a machine whose calls succeed; on such a
  machine \<open>send\<close> archives every whole stream and \<open>receive\<close> restores every chain, whatever the
  slicing of the pipe, the number of parallel uploads and the order in which they complete.
\<close>

section \<open>Calls that succeed\<close>

definition succeeds :: "('w \<Rightarrow> bool) \<Rightarrow> ('w, 'e, 'a) io \<Rightarrow> bool" where
  "succeeds I m \<longleftrightarrow> (\<forall>w. I w \<longrightarrow> (\<exists>x w'. m w = (Inr x, w') \<and> I w'))"

lemma succeedsI: "(\<And>w. I w \<Longrightarrow> \<exists>x w'. m w = (Inr x, w') \<and> I w') \<Longrightarrow> succeeds I m"
  by (simp add: succeeds_def)

lemma succeedsE:
  assumes "succeeds I m" "I w"
  obtains x w' where "m w = (Inr x, w')" "I w'"
  using assms unfolding succeeds_def by blast

lemma succeeds_ret [simp, intro]: "succeeds I (ret x)"
  by (simp add: succeeds_def ret_def)

lemma succeeds_bind [intro]:
  "succeeds I m \<Longrightarrow> (\<And>x. succeeds I (f x)) \<Longrightarrow> succeeds I (bind_io m f)"
  unfolding succeeds_def bind_io_def by fastforce

lemma succeeds_err [intro]: "succeeds I m \<Longrightarrow> succeeds I (err_io k m)"
  unfolding succeeds_def err_io_def by fastforce

lemma succeeds_try:
  "keeps I m \<Longrightarrow> (\<And>r. succeeds I (f r)) \<Longrightarrow> succeeds I (try_io m f)"
  unfolding succeeds_def keeps_def try_io_def by (auto split: prod.split)

lemma succeeds_map_io: "(\<And>x. x \<in> set xs \<Longrightarrow> succeeds I (f x)) \<Longrightarrow> succeeds I (map_io f xs)"
  by (induction xs) auto

lemma succeeds_for_each: "(\<And>x. x \<in> set xs \<Longrightarrow> succeeds I (f x)) \<Longrightarrow> succeeds I (for_each f xs)"
  by (induction xs) auto

lemma succeeds_keeps: "succeeds I m \<Longrightarrow> keeps I m"
  unfolding succeeds_def keeps_def by fastforce

lemma succeeds_retry: "succeeds I op \<Longrightarrow> succeeds I (retry sl what op)"
  unfolding succeeds_def retry_def by (fastforce simp: retry_from.simps [of 0])

lemma read_pipe_whole:
  assumes "list_all (\<lambda>x. \<not> isl x) p"
  shows "\<exists>d p'. read_pipe n p = (Inr d, p') \<and> list_all (\<lambda>x. \<not> isl x) p'"
  using assms by (cases "(n, p)" rule: read_pipe.cases) auto

lemma fill_chunk_whole:
  "list_all (\<lambda>x. \<not> isl x) p \<Longrightarrow> \<exists>b' p'. fill_chunk n b p = (Inr b', p') \<and> list_all (\<lambda>x. \<not> isl x) p'"
proof (induction n b p rule: fill_chunk.induct)
  case (1 n b p)
  from read_pipe_whole [OF 1(2)] obtain d p1 where
    r: "read_pipe (n - length b) p = (Inr d, p1)" "list_all (\<lambda>x. \<not> isl x) p1" by blast
  show ?case
  proof (cases "length b < n \<and> d \<noteq> []")
    case True
    with 1(1) [OF _ r(1) [symmetric] refl _ r(2)] r show ?thesis by (simp add: fill_chunk.simps [of n b p])
  next
    case False
    with 1(2) r show ?thesis by (auto simp: fill_chunk.simps [of n b p])
  qed
qed

text \<open>A \<open>zfs send\<close> that writes a whole stream and exits with success.\<close>

definition whole_child :: "child \<Rightarrow> bool" where
  "whole_child ch \<longleftrightarrow>
     list_all (\<lambda>x. \<not> isl x) (ch_pipe ch) \<and> ch_status ch = Inr (Some 0) \<and>
     length (pipe_bytes (ch_pipe ch)) \<le> 2 ^ 32 * unat MIN_CHUNK \<and>
     (\<exists>evs q. feed (pipe_bytes (ch_pipe ch)) parser_new = (Inr evs, q) \<and> parser_finish q = Inr ())"

text \<open>\<open>zfs\<close> knows the snapshot and its dataset, lists what there is and can hold the snapshot.\<close>

definition zfs_answers :: "('x \<Rightarrow> bool) \<Rightarrow> 'x host \<Rightarrow> string \<Rightarrow> zfs_snapshot \<Rightarrow> zfs_dataset \<Rightarrow> bool" where
  "zfs_answers up h name snap ds \<longleftrightarrow>
     (\<forall>x. up x \<longrightarrow> fst (snapshot (ho_zfs h) name x) = Inr snap \<and>
        fst (dataset (ho_zfs h) (zs_dataset snap) x) = Inr ds \<and>
        \<not> isl (fst (snapshots (ho_zfs h) (zs_dataset snap) x)) \<and>
        \<not> isl (fst (bookmarks (ho_zfs h) (zs_dataset snap) x)) \<and>
        \<not> isl (fst (hold (ho_zfs h) (hold_tag JOB) name x)))"

section \<open>A service that works\<close>

text \<open>The manifests of a bucket whose documents can all be read are listed.\<close>

definition readable :: "(bytes \<Rightarrow> string + manifest) \<Rightarrow> string \<Rightarrow> (string \<Rightarrow> bytes option) \<Rightarrow> bool" where
  "readable dec P b \<longleftrightarrow>
     (\<forall>k x. manifest_at P b k x \<longrightarrow> (\<exists>m. dec x = Inr m \<and> check_version m = Inr ()))"

locale working_store = s3_store be view st
  for be :: "'x backend" and view :: "'x \<Rightarrow> string \<Rightarrow> bytes option" and st :: "'x store" +
  fixes up :: "'x \<Rightarrow> bool"
  assumes up_put: "up x \<Longrightarrow> \<exists>x'. be_put be k v x = (Inr (), x') \<and> up x'"
    and up_get: "up x \<Longrightarrow> be_get be k x = (rb, x') \<Longrightarrow> up x'"
    and up_got: "up x \<Longrightarrow> clean_path k \<Longrightarrow> view x k = Some v \<Longrightarrow> \<exists>x'. be_get be k x = (Inr v, x')"
    and up_missing: "up x \<Longrightarrow> clean_path k \<Longrightarrow> view x k = None \<Longrightarrow>
      \<exists>a b x'. be_get be k x = (Inl (OsNotFound a b), x')"
    and up_delete: "up x \<Longrightarrow> be_delete be k x = (ru, x') \<Longrightarrow> up x'"
    and up_list: "up x \<Longrightarrow> \<exists>items x'. be_list be k x = (Inr items, x') \<and> up x'"
    and up_dirs: "up x \<Longrightarrow> \<exists>ds x'. be_list_dirs be k x = (Inr ds, x') \<and> up x'"
begin

abbreviation ready :: "'x sys \<Rightarrow> bool" where "ready s \<equiv> up (ext s)"

lemma outside_succeeds:
  assumes "\<And>x. up x \<Longrightarrow> \<exists>v x'. m x = (Inr v, x') \<and> up x'"
  shows "succeeds ready (outside k m)"
proof (rule succeedsI)
  fix s assume "ready s"
  from assms [OF this] obtain v x' where "m (ext s) = (Inr v, x')" "up x'" by blast
  then show "\<exists>v s'. outside k m s = (Inr v, s') \<and> ready s'" by (simp add: outside_def)
qed

lemma put_succeeds: "succeeds ready (store_put st k v)"
  unfolding store_put_def inner by (rule outside_succeeds) (use up_put in blast)

lemma list_succeeds: "succeeds ready (store_list st p)"
  unfolding store_list_def inner by (rule outside_succeeds) (rule up_list)

lemma dirs_succeeds: "succeeds ready (store_list_dirs st p)"
  unfolding store_list_dirs_def inner by (rule outside_succeeds) (rule up_dirs)

lemma get_ready: "keeps ready (store_get st k)"
  unfolding keeps_def store_get_def inner outside_def using up_get by (auto split: prod.split)

lemma get_some:
  assumes "ready s" "clean_path k" "contents s k = Some v"
  obtains s' where "store_get st k s = (Inr v, s')" "ready s'" "contents s' = contents s"
proof -
  from up_got [OF assms] obtain x' where x: "be_get be k (ext s) = (Inr v, x')" by blast
  then have "store_get st k s = (Inr v, s\<lparr>ext := x'\<rparr>)"
    by (simp add: store_get_def store_path_def inner path_clean [OF assms(2)] outside_def)
  moreover have "up x'" using up_get [OF assms(1) x] .
  ultimately show ?thesis using that bk.get_any [OF assms(2)] by (metis sys.select_convs(1) sys.surjective sys.update_convs(1))
qed

lemma get_none:
  assumes "ready s" "clean_path k" "contents s k = None"
  obtains n s' where "store_get st k s = (Inl (NotFound n), s')" "ready s'" "contents s' = contents s"
proof -
  from up_missing [OF assms] obtain a b x' where x: "be_get be k (ext s) = (Inl (OsNotFound a b), x')" by blast
  then have g: "store_get st k s = (Inl (map_nf (OsNotFound a b) k), s\<lparr>ext := x'\<rparr>)"
    by (simp add: store_get_def store_path_def inner path_clean [OF assms(2)] outside_def)
  moreover obtain n where "map_nf (OsNotFound a b) k = NotFound n" by (simp add: map_nf_def)
  moreover have "ready (s\<lparr>ext := x'\<rparr>)" using up_get [OF assms(1) x] by simp
  ultimately show ?thesis using that bk.get_any [OF assms(2)] by metis
qed

lemma delete_ready: "keeps ready (store_delete st k)"
  unfolding store_delete_def inner
  by (rule keeps_try) (auto simp: keeps_def outside_def lift_result_def ret_def up_delete split: prod.split sum.split store_error.split os_error.split)

lemma manifests_succeeds:
  assumes t: "tg_store t = st" and tidy: "tidy (tg_prefix t) (contents s)" and r: "readable dec (tg_prefix t) (contents s)"
    and arr: "\<And>xs. set (arrival xs) = set xs" and s: "ready s"
  obtains ms s' where "manifests dec arrival t s = (Inr ms, s')" "ready s'"
proof -
  have "succeeds ready (manifest_keys t)"
    unfolding manifest_keys_def t
    by (intro succeeds_err succeeds_bind succeeds_map_io succeeds_ret dirs_succeeds)
  from succeedsE [OF this s] obtain ks s1 where 1: "manifest_keys t s = (Inr ks, s1)" "ready s1" .
  note K = manifest_keys_ok [OF t tidy 1(1)]
  let ?I = "\<lambda>w. ready w \<and> contents w = contents s"
  have "succeeds ?I (fetch_manifest dec t k)" if k: "k \<in> set (arrival ks)" for k
  proof (rule succeedsI)
    fix w assume w: "?I w"
    have c: "clean_path k" using K(2) k arr by blast
    show "\<exists>x w'. fetch_manifest dec t k w = (Inr x, w') \<and> ?I w'"
    proof (cases "contents s k")
      case None
      with w get_none [of w k] c obtain n w' where "store_get st k w = (Inl (NotFound n), w')" "ready w'"
        "contents w' = contents w" by metis
      with w show ?thesis by (simp add: fetch_manifest_def t try_io_def ret_def)
    next
      case (Some v)
      with K(3) k arr [of ks] have "manifest_at (tg_prefix t) (contents s) k v" by simp
      with r obtain m where m: "dec v = Inr m" "check_version m = Inr ()" by (auto simp: readable_def)
      from w get_some [of w k v] c Some obtain w' where "store_get st k w = (Inr v, w')" "ready w'"
        "contents w' = contents w" by metis
      with w m show ?thesis
        by (simp add: fetch_manifest_def t try_io_def bind_io_def lift_result_def map_err_def ret_def)
    qed
  qed
  then have "succeeds ?I (map_io (fetch_manifest dec t) (arrival ks))" by (rule succeeds_map_io)
  from succeedsE [OF this] 1(2) K(1) obtain fs s' where
    "map_io (fetch_manifest dec t) (arrival ks) s1 = (Inr fs, s')" "ready s'" by blast
  with 1(1) that show ?thesis by (simp add: manifests_def bind_io_def ret_def)
qed

end

section \<open>A machine that sends\<close>

locale working = sender be view st h + working_store be view st up
  for be :: "'x backend" and view :: "'x \<Rightarrow> string \<Rightarrow> bytes option" and st :: "'x store" and h :: "'x host"
    and up :: "'x \<Rightarrow> bool" +
  assumes up_spawn: "up x \<Longrightarrow> \<exists>x'. ho_spawn h args x = (Inr (), x') \<and> up x'"
    and up_uuid: "up x \<Longrightarrow> ho_uuid h x = (i, x') \<Longrightarrow> up x'"
    and up_zfs: "up x \<Longrightarrow> ho_zfs h args x = (out, x') \<Longrightarrow> up x'"
    and up_ad_put: "st_admin st = Some a \<Longrightarrow> up x \<Longrightarrow>
      \<exists>x'. ad_put_object_crc32c a k v (ho_crc32c h v) x = (Inr (), x') \<and> up x'"
begin

lemma put_verified_succeeds: "succeeds ready (store_put_verified st k v (ho_crc32c h v))"
proof (rule succeedsI)
  fix s assume s: "ready s"
  note put = put_succeeds [unfolded succeeds_def, rule_format, OF s]
  show "\<exists>x s'. store_put_verified st k v (ho_crc32c h v) s = (Inr x, s') \<and> ready s'"
  proof (cases "st_admin st")
    case None
    with put show ?thesis by (simp add: store_put_verified_def)
  next
    case (Some a)
    from up_ad_put [OF Some s] obtain x where "ad_put_object_crc32c a k v (ho_crc32c h v) (ext s) = (Inr (), x)" "up x"
      by blast
    with put Some show ?thesis by (simp add: store_put_verified_def)
  qed
qed

lemma zfs_ready: "keeps up (zfs_run (ho_zfs h) args)"
  unfolding keeps_def
proof (intro allI impI)
  fix x assume "up x"
  moreover have "snd (zfs_run (ho_zfs h) args x) = snd (ho_zfs h args x)"
    by (simp add: zfs_run_def Let_def split: prod.split outcome.split)
  ultimately show "up (snd (zfs_run (ho_zfs h) args x))"
    using up_zfs [of x args "fst (ho_zfs h args x)" "snd (ho_zfs h args x)"] by simp
qed

lemma zfs_io_ready: "keeps up (m (ho_zfs h)) \<Longrightarrow> keeps ready (zfs_io h m)"
  unfolding keeps_def zfs_io_def err_io_def on_ext_def by (auto simp: case_prod_beta)

lemmas queries_ready = zfs_keeps [where sh = "ho_zfs h" and I = up, OF zfs_ready]

section \<open>Sending\<close>

lemma release_succeeds: "succeeds ready (release_hold h n)"
  unfolding release_hold_def by (intro succeeds_try zfs_io_ready queries_ready succeeds_ret)

lemma move_bookmark_succeeds: "succeeds ready (move_bookmark h ds n g)"
  unfolding move_bookmark_def
  by (auto intro!: succeeds_try succeeds_for_each zfs_io_ready queries_ready split: sum.split option.split)

lemma write_marker_succeeds:
  assumes "\<And>p. \<exists>x. co_encp cd p = Inr x" "tg_store t = st"
  shows "succeeds ready (write_marker cd h t key p)"
proof -
  from assms(1) obtain x where x: "co_encp cd p = Inr x" by blast
  have "succeeds ready (retry (sleep_sys h) ''write resume marker'' (err_io EStore (store_put st key x)))"
    by (intro succeeds_retry succeeds_err put_succeeds)
  with x assms(2) show ?thesis
    by (simp add: write_marker_def succeeds_def bind_io_def lift_result_def map_err_def)
qed

text \<open>The loop: \<open>fit q\<close> says that the parser is \<open>q\<close> and the checksums in flight are right.\<close>

definition fit :: "parser \<Rightarrow> 'x sys \<times> sending \<Rightarrow> bool" where
  "fit q w \<longleftrightarrow> ready (fst w) \<and> sd_parser (snd w) = q \<and>
     list_all (\<lambda>u. up_crc u = ho_crc32c h (up_data u)) (sd_inflight (snd w))"

lemma run_upload_succeeds:
  assumes "tg_store t = st" "up_crc u = ho_crc32c h (up_data u)"
  shows "succeeds ready (run_upload h t u)"
  unfolding run_upload_def assms by (intro succeeds_retry succeeds_err put_verified_succeeds)

lemma join_one_succeeds:
  assumes t: "tg_store t = st" and ne: "sd_inflight sd \<noteq> []" and f: "fit q (s, sd)"
  shows "\<exists>s' sd'. join_one h t (s, sd) = (Inr (), s', sd') \<and> fit q (s', sd')"
proof -
  obtain u sd1 where d: "take_done sd = (u, sd1)" by fastforce
  from take_done_split [OF ne d] obtain xs ys where
    fl: "sd_inflight sd = xs @ u # ys" "sd_inflight sd1 = xs @ ys" .
  from take_done_frame [OF d] have q: "sd_parser sd1 = sd_parser sd" by auto
  have "ready s" "up_crc u = ho_crc32c h (up_data u)" using f fl by (simp_all add: fit_def)
  with run_upload_succeeds [OF t, of u] obtain s' where "run_upload h t u s = (Inr (), s')" "ready s'"
    by (auto simp: succeeds_def)
  with d q f fl show ?thesis by (simp add: join_one_def fit_def)
qed

lemma drain_to_succeeds:
  assumes t: "tg_store t = st"
  shows "succeeds (fit q) (drain_to h t n)"
proof -
  have "fit q (s, sd) \<Longrightarrow> \<exists>w'. drain_to h t n (s, sd) = (Inr (), w') \<and> fit q w'" for s sd
  proof (induction "length (sd_inflight sd)" arbitrary: s sd rule: less_induct)
    case less
    show ?case
    proof (cases "length (sd_inflight sd) \<le> n")
      case True
      with less.prems show ?thesis by (simp add: drain_to.simps)
    next
      case False
      then have ne: "sd_inflight sd \<noteq> []" by auto
      from join_one_succeeds [OF t ne less.prems] obtain s1 sd1 where
        j: "join_one h t (s, sd) = (Inr (), s1, sd1)" "fit q (s1, sd1)" by blast
      from less.hyps [OF join_one_inflight [OF ne j(1)] j(2)] False j(1) show ?thesis
        by (simp add: drain_to.simps [of h t n s])
    qed
  qed
  then show ?thesis unfolding succeeds_def by (metis prod.collapse)
qed

lemma refresh_lease_succeeds:
  assumes "\<And>p. \<exists>x. co_encp cd p = Inr x" "tg_store t = st"
  shows "succeeds (fit q) (refresh_lease cd h t key)"
proof (rule succeedsI)
  fix w :: "'x sys \<times> sending" assume f: "fit q w"
  obtain s sd where w: "w = (s, sd)" by fastforce
  have r: "ready s" using f w by (simp add: fit_def)
  obtain s' where "write_marker cd h t key ((sd_mine sd)\<lparr>pd_refreshed_at := ho_now h (ext s)\<rparr>) s = (Inr (), s')"
    "ready s'" by (rule succeedsE [OF write_marker_succeeds [OF assms] r]) auto
  with f w show "\<exists>x w'. refresh_lease cd h t key w = (Inr x, w') \<and> fit q w'"
    by (simp add: refresh_lease_def Let_def fit_def)
qed

lemma enqueue_chunk_succeeds:
  assumes "tg_store t = st"
  shows "succeeds (fit q) (enqueue_chunk h t d g ex par buffer)"
proof (rule succeedsI)
  fix w :: "'x sys \<times> sending" assume f: "fit q w"
  obtain s sd where w: "w = (s, sd)" by fastforce
  let ?sd = "sd\<lparr>sd_fed := sd_fed sd @ buffer, sd_total := sd_total sd + of_nat (length buffer),
    sd_chunks := sd_chunks sd @ [\<lparr>ck_seq = sd_seq sd, ck_bytes = of_nat (length buffer), ck_blake3 = ho_blake3 h buffer\<rparr>]\<rparr>"
  have r: "fit q (s, ?sd)" using f w by (simp add: fit_def)
  obtain s2 sd2 where "drain_to h t (max par 1 - 1) (s, ?sd) = (Inr (), s2, sd2)" "fit q (s2, sd2)"
    by (rule succeedsE [OF drain_to_succeeds [OF assms, of q "max par 1 - 1"] r]) auto
  with f w show "\<exists>x w'. enqueue_chunk h t d g ex par buffer w = (Inr x, w') \<and> fit q w'"
    by (simp add: enqueue_chunk_def Let_def fit_def)
qed

lemma handle_chunk_succeeds:
  assumes cd: "\<And>p. \<exists>x. co_encp cd p = Inr x" and t: "tg_store t = st"
    and f: "fit q (s, sd)" "feed buffer q = (Inr evs, q')"
  shows "\<exists>w'. handle_chunk cd h t d g ex par buffer (s, sd) = (Inr (), w') \<and> fit q' w'"
proof -
  have "fit q' (s, sd\<lparr>sd_parser := q', sd_end := last_end cd evs (sd_end sd)\<rparr>)" using f by (simp add: fit_def)
  moreover have "succeeds (fit q') (bind_io (refresh_lease cd h t (pending_key (tg_prefix t) d g))
      (\<lambda>_. enqueue_chunk h t d g ex par buffer))"
    by (intro succeeds_bind refresh_lease_succeeds [OF cd t] enqueue_chunk_succeeds [OF t])
  ultimately show ?thesis using f by (auto simp: handle_chunk_def fit_def succeeds_def)
qed

lemma send_loop_succeeds:
  assumes cd: "\<And>p. \<exists>x. co_encp cd p = Inr x" and t: "tg_store t = st" and n: "0 < n"
  shows "list_all (\<lambda>x. \<not> isl x) p \<Longrightarrow> parser_ok q \<Longrightarrow> feed (pipe_bytes p) q = (Inr evs, q') \<Longrightarrow> fit q (s, sd) \<Longrightarrow>
    \<exists>w'. send_loop cd h t d g ex par n p (s, sd) = (Inr (), w') \<and> fit q' w'"
proof (induction "pipe_size p" arbitrary: p q evs s sd rule: less_induct)
  case less
  from fill_chunk_whole [OF less.prems(1), of n "[]"] obtain b p1 where
    f: "fill_chunk n [] p = (Inr b, p1)" "list_all (\<lambda>x. \<not> isl x) p1" by blast
  from fill_chunk_bytes [OF f(1)] have bytes: "pipe_bytes p = b @ pipe_bytes p1" "b = take n (pipe_bytes p)"
    by simp_all
  show ?case
  proof (cases "b = []")
    case True
    with bytes(2) n have "pipe_bytes p = []" by simp
    with less.prems(3) have "q' = q" by (simp add: feed_def)
    with less.prems(4) f True show ?thesis by (simp add: send_loop.simps)
  next
    case False
    from less.prems(3) [unfolded bytes(1) feed_append [OF less.prems(2)]] obtain e1 q1 e2 where
      q1: "feed b q = (Inr e1, q1)" "feed (pipe_bytes p1) q1 = (Inr e2, q')"
      by (auto simp: bind_io_Inr)
    have ok: "parser_ok q1" using feed_loop_ok [OF less.prems(2)] q1(1) by (simp add: feed_def)
    from handle_chunk_succeeds [OF cd t less.prems(4) q1(1)] obtain s1 sd1 where
      c: "handle_chunk cd h t d g ex par b (s, sd) = (Inr (), s1, sd1)" "fit q1 (s1, sd1)"
      by (metis prod.collapse)
    have "pipe_size p1 < pipe_size p" using fill_chunk_size [OF f(1)] False by blast
    from less.hyps [OF this f(2) ok q1(2) c(2)] f(1) False c(1) show ?thesis
      by (simp add: send_loop.simps [of cd h t d g ex par n p])
  qed
qed

text \<open>In a directory in which nothing has been left by another run, no chunk is skipped.\<close>

lemma prepare_resume_fresh:
  assumes t: "tg_store t = st" and root: "clean_path (key_root (tg_prefix t))" and s: "ready s"
    and fresh: "\<And>k. below (snapshot_dir (tg_prefix t) d g) k \<Longrightarrow> contents s k = None"
  obtains mine s' where "prepare_resume cd h t snap cs d g from_guid flags s = (Inr (mine, \<lambda>_. None), s')"
    "ready s'" "contents s' = contents s"
proof -
  let ?dir = "snapshot_dir (tg_prefix t) d g" and ?marker = "pending_key (tg_prefix t) d g"
  have dir: "clean_path ?dir" using root by (simp add: clean_dir)
  from succeedsE [OF list_succeeds s] obtain items s1 where 1: "store_list st (?dir @ ''/'') s = (Inr items, s1)" "ready s1" .
  have b1: "contents s1 = contents s" using bk.list_any [OF dir 1(1)] .
  have "x \<notin> set items" for x using bk.list_ok [OF dir 1(1)] fresh by (cases x) auto
  then have items: "items = []" by (cases items) auto
  obtain mine s2 where 2: "new_marker h cs from_guid flags s1 = (Inr mine, s2)"
    and b2: "contents s2 = contents s" and r2: "ready s2"
  proof -
    obtain i x where u: "ho_uuid h (ext s1) = (i, x)" by fastforce
    then have "new_marker h cs from_guid flags s1 = (Inr \<lparr>pd_from_guid = from_guid, pd_send_flags = flags,
        pd_chunk_size = cs, pd_run_id = i, pd_refreshed_at = ho_now h x\<rparr>, s1\<lparr>ext := x\<rparr>)"
      by (simp add: new_marker_def)
    from that [OF this] uuid_view [OF u] up_uuid [OF 1(2) u] b1 show thesis by simp
  qed
  have "contents s2 ?marker = None" using fresh [of ?marker] b2 by (simp add: below_keys)
  from get_none [OF r2 clean_keys(2) [OF root] this] obtain n s3 where
    3: "store_get st ?marker s2 = (Inl (NotFound n), s3)" "ready s3" "contents s3 = contents s2" .
  have "prepare_resume cd h t snap cs d g from_guid flags s = (Inr (mine, \<lambda>_. None), s3)"
    using t 1 2 3 items
    by (simp add: prepare_resume_def Let_def bind_io_def err_io_def previous_marker_def try_io_def
        resume_decision_def lift_result_def ret_def)
  from that [OF this 3(2)] 3(3) b2 show ?thesis by simp
qed

text \<open>A whole stream that the parser accepts is uploaded to its end.\<close>

lemma send_stream_succeeds:
  fixes base :: "(string \<times> guid) option" and a :: args and zsend :: "send_spec \<Rightarrow> child" and flags :: send_flags
  defines "ch \<equiv> zsend \<lparr>sp_to = ag_snapshot a, sp_from = map_option fst base, sp_flags = flags\<rparr>"
  assumes enc: "\<And>p. \<exists>x. co_encp cd p = Inr x" and cd: "codec_ok cd"
    and t: "tg_store t = st" and root: "clean_path (key_root (tg_prefix t))" and s: "ready s"
    and fresh: "\<And>k. below (snapshot_dir (tg_prefix t) d g) k \<Longrightarrow> contents s k = None"
    and cs: "cs \<noteq> 0" and short: "length (pipe_bytes (ch_pipe ch)) \<le> 2 ^ 32 * unat cs"
    and pipe: "list_all (\<lambda>x. \<not> isl x) (ch_pipe ch)" and exit: "ch_status ch = Inr (Some 0)"
    and ok: "feed (pipe_bytes (ch_pipe ch)) parser_new = (Inr evs, q)" "parser_finish q = Inr ()"
  shows "\<exists>res s'. send_stream cd h t a cs zsend picks lands d g base flags s = (Inr res, s') \<and> ready s'"
proof -
  let ?P = "tg_prefix t" and ?spec = "\<lparr>sp_to = ag_snapshot a, sp_from = map_option fst base, sp_flags = flags\<rparr>"
  have n: "0 < unat cs" using cs by (metis unsigned_0 unat_eq_zero not_gr_zero)
  from prepare_resume_fresh [OF t root s fresh] obtain mine s1 where
    1: "prepare_resume cd h t (ag_snapshot a) cs d g (map_option snd base) flags s = (Inr (mine, \<lambda>_. None), s1)"
      "ready s1" "contents s1 = contents s" .
  obtain s2 where 2: "write_marker cd h t (pending_key ?P d g) mine s1 = (Inr (), s2)" "ready s2"
    by (rule succeedsE [OF write_marker_succeeds [OF enc t] 1(2)]) auto
  from write_marker_write(2) [OF t clean_keys(2) [OF root] 2(1)] obtain x where
    x: "co_encp cd mine = Inr x" "contents s2 = (contents s)(pending_key ?P d g \<mapsto> x)" using 1(3) by auto
  from up_spawn [OF 2(2), of "send_args ?spec"] obtain x3 where "ho_spawn h (send_args ?spec) (ext s2) = (Inr (), x3)" "up x3"
    by blast
  then obtain s3 where 3: "spawn_child h (send_args ?spec) s2 = (Inr (), s3)" "ready s3"
    by (simp add: spawn_child_def err_io_def on_ext_def)
  have b3: "contents s3 = contents s2" by (rule spawn_child_view [OF 3(1)])
  let ?sd = "sending_start mine (ho_now h (ext s2)) picks"
  have "fit parser_new (s3, ?sd)" using 3(2) by (simp add: fit_def sending_start_def)
  from send_loop_succeeds [OF enc t n pipe parser_ok_new ok(1) this] obtain s4 sd4 where
    4: "send_loop cd h t d g (\<lambda>_. None) (ag_parallel a) (unat cs) (ch_pipe ch) (s3, ?sd) = (Inr (), s4, sd4)" "fit q (s4, sd4)"
    by (metis prod.collapse)
  obtain s5 sd where 5: "drain_to h t 0 (s4, sd4) = (Inr (), s5, sd)" "fit q (s5, sd)"
    by (rule succeedsE [OF drain_to_succeeds [OF t, of q 0] 4(2)]) auto
  have loop: "bind_io (send_loop cd h t d g (\<lambda>_. None) (ag_parallel a) (unat cs) (ch_pipe ch))
      (\<lambda>_. drain_to h t 0) (s3, ?sd) = (Inr (), s5, sd)" using 4 5 by (simp add: bind_io_def)
  define j where "j = \<lparr>jb_prefix = ?P, jb_ds = d, jb_snap = g, jb_size = unat cs,
    jb_bytes = pipe_bytes (ch_pipe ch), jb_mine = mine, jb_bucket = contents s\<rparr>"
  have j: "jb_prefix j = ?P" "jb_ds j = d" "jb_snap j = g" "jb_bytes j = pipe_bytes (ch_pipe ch)"
    "jb_mine j = mine" "jb_bucket j = contents s" "jb_size j = unat cs" by (simp_all add: j_def)
  have ex: "existing_ok j (jb_bytes j) (\<lambda>_. None)"
    using n unsigned_less [of cs, where 'a = nat] fresh
    by (auto simp: existing_ok_def j slices_of_def below_keys)
  have oc: "on_course cd j (contents s3)"
    using x cd by (auto simp: on_course_def j b3 codec_ok_def key_simps same_stream_def)
  have J: "tg_prefix t = jb_prefix j" "clean_path (key_root (jb_prefix j))" "length (jb_bytes j) \<le> 2 ^ 32 * jb_size j"
    "pipe_bytes (ch_pipe ch) = jb_bytes j" using root short by (simp_all only: j)
  have "bind_io (send_loop cd h t (jb_ds j) (jb_snap j) (\<lambda>_. None) (ag_parallel a) (jb_size j) (ch_pipe ch))
      (\<lambda>_. drain_to h t 0) (s3, sending_start (jb_mine j) (ho_now h (ext s2)) picks) = (Inr (), s5, sd)"
    using loop by (simp only: j)
  from stream_loop_ok [OF t J(1,2) cd ex J(3,4) oc this] obtain k where
    k: "uploads_ok j k (contents s5) sd" "sd_inflight sd = []" "stage_ok cd (ho_blake3 h) j k k sd" "k \<le> 2 ^ 32"
    by blast
  have "inj_on (of_nat :: nat \<Rightarrow> u32) {..<k}"
  proof (rule inj_on_inverseI)
    fix i assume "i \<in> {..<k}"
    with k(4) show "unat (of_nat i :: u32) = i" by (intro unat_of_nat_u32) simp
  qed
  then have "card (set (sd_uploaded sd)) = length (sd_chunks sd)"
    using k by (simp add: uploads_ok_def stage_ok_def card_image)
  moreover have "sd_parser sd = q" using 5(2) by (simp add: fit_def)
  ultimately have c: "conclude h ch sd = Inr (sd_chunks sd, sd_total sd, ho_blake3 h (sd_fed sd), sd_end sd)"
    using exit ok(2) by (simp add: conclude_def wait_child_def map_err_def)
  have "ready s5" using 5(2) by (simp add: fit_def)
  with 1(1) 2(1) 3(1) loop c show ?thesis
    by (simp add: send_stream_def Let_def ch_def [symmetric] bind_io_def [where f = "case_prod _"]
        bind_io_def [of "write_marker cd h t (pending_key ?P d g) mine"] bind_io_def [of "spawn_child h (send_args ?spec)"])
qed

lemma commit_succeeds:
  assumes "\<And>m. \<exists>x. co_enc cd m = Inr x" "tg_store t = st"
  shows "succeeds ready (commit cd h t m)"
proof -
  from assms(1) obtain x where x: "co_enc cd m = Inr x" by blast
  have "succeeds ready (bind_io (retry (sleep_sys h) ''write manifest''
      (err_io EStore (store_put st (manifest_key (tg_prefix t) (mf_dataset_guid m) (mf_snapshot_guid m)) x)))
      (\<lambda>_. try_io (store_delete st (pending_key (tg_prefix t) (mf_dataset_guid m) (mf_snapshot_guid m)))
        (\<lambda>_. move_bookmark h (mf_dataset m) (mf_snapshot m) (mf_snapshot_guid m))))"
    by (intro succeeds_bind succeeds_retry succeeds_err put_succeeds succeeds_try delete_ready move_bookmark_succeeds)
  with x assms(2) show ?thesis
    by (simp add: commit_def Let_def succeeds_def bind_io_def [of "lift_result _"] lift_result_def map_err_def)
qed

lemma zfs_io_yields:
  assumes "keeps up (m (ho_zfs h))" "ready s" "\<not> isl (fst (m (ho_zfs h) (ext s)))"
  obtains v s' where "zfs_io h m s = (Inr v, s')" "ready s'" "fst (m (ho_zfs h) (ext s)) = Inr v"
proof -
  obtain r x where r: "m (ho_zfs h) (ext s) = (r, x)" by fastforce
  with assms(3) obtain v where v: "r = Inr v" by (cases r) auto
  have "up x" using keepsD [OF assms(1,2) r] .
  with r v that show thesis by (simp add: zfs_io_def err_io_def on_ext_def)
qed

lemma archive_succeeds:
  assumes enc: "\<And>p. \<exists>x. co_encp cd p = Inr x" and encm: "\<And>m. \<exists>x. co_enc cd m = Inr x" and cd: "codec_ok cd"
    and t: "tg_store t = st" and root: "clean_path (key_root (tg_prefix t))" and s: "ready s"
    and fresh: "\<And>k. below (snapshot_dir (tg_prefix t) (zd_guid ds) (zs_guid snap)) k \<Longrightarrow> contents s k = None"
    and args: "check_args a = Inr ()" and ans: "zfs_answers up h (ag_snapshot a) snap ds"
    and ch: "\<And>spec. sp_to spec = ag_snapshot a \<Longrightarrow> whole_child (zsend spec)"
  shows "\<exists>s'. archive cd h t a zsend picks lands snap ds base s = (Inr (), s') \<and> ready s'"
proof -
  let ?flags = "send_flags_for (zd_encrypted ds)"
  let ?spec = "\<lparr>sp_to = ag_snapshot a, sp_from = map_option fst base, sp_flags = ?flags\<rparr>"
  obtain est s1 where 1: "ok_io (zfs_io h (\<lambda>sh. estimate sh ?spec)) s = (Inr est :: error + u64 option, s1)"
    by (metis ok_io_total)
  have "keeps ready (zfs_io h (\<lambda>sh. estimate sh ?spec))" by (intro zfs_io_ready queries_ready)
  from keepsD [OF keeps_ok_io [OF this] s 1] have r1: "ready s1" .
  have b1: "contents s1 = contents s"
    using 1 by (rule keeps_fixed [rotated]) (intro keeps_ok_io keeps_zfs_io quiet_queries)
  obtain hb s2 where 2: "zfs_io h (\<lambda>sh. hold sh (hold_tag JOB) (ag_snapshot a)) s1 = (Inr hb, s2)" "ready s2"
    by (rule zfs_io_yields [of "\<lambda>sh. hold sh (hold_tag JOB) (ag_snapshot a)", OF queries_ready(6) r1])
      (use ans r1 in \<open>simp_all add: zfs_answers_def\<close>)
  have b2: "contents s2 = contents s" using zfs_io_view [OF _ 2(1)] quiet_queries(6) b1 by simp
  define cs where "cs = chosen_chunk_size a est"
  have cs: "unat MIN_CHUNK \<le> unat cs" using chosen_bounds [OF args, of est] by (simp add: cs_def word_le_nat_alt)
  have "0 < unat MIN_CHUNK" by (simp add: MIN_CHUNK_def)
  with cs have cs0: "cs \<noteq> 0" by (metis unsigned_0 not_less)
  from ch [of ?spec] obtain evs q where C: "list_all (\<lambda>x. \<not> isl x) (ch_pipe (zsend ?spec))"
    "ch_status (zsend ?spec) = Inr (Some 0)" "length (pipe_bytes (ch_pipe (zsend ?spec))) \<le> 2 ^ 32 * unat MIN_CHUNK"
    "feed (pipe_bytes (ch_pipe (zsend ?spec))) parser_new = (Inr evs, q)" "parser_finish q = Inr ()"
    by (auto simp: whole_child_def)
  have len: "length (pipe_bytes (ch_pipe (zsend ?spec))) \<le> 2 ^ 32 * unat cs"
    using C(3) mult_le_mono2 [OF cs, of "2 ^ 32"] by (rule order.trans)
  have fr: "contents s2 k = None" if "below (snapshot_dir (tg_prefix t) (zd_guid ds) (zs_guid snap)) k" for k
    using fresh that b2 by simp
  from send_stream_succeeds [where zsend = zsend and base = base and a = a and flags = ?flags
      and picks = picks and lands = lands, OF enc cd t root 2(2) fr cs0 len C(1,2,4,5)] obtain res s3 where
    3: "send_stream cd h t a cs zsend picks lands (zd_guid ds) (zs_guid snap) base ?flags s2 = (Inr res, s3)" "ready s3"
    by blast
  obtain s4 where 4: "release_hold h (ag_snapshot a) s3 = (Inr (), s4)" "ready s4"
    by (rule succeedsE [OF release_succeeds 3(2)]) auto
  let ?m = "new_manifest a snap (zd_guid ds) (map_option snd base) ?flags (ho_now h (ext s4)) res"
  obtain s5 where 5: "commit cd h t ?m s4 = (Inr (), s5)" "ready s5"
    by (rule succeedsE [OF commit_succeeds [OF encm t] 4(2)]) auto
  from 1 2(1) 3(1) 4(1) 5 show ?thesis
    by (simp add: archive_def Let_def bind_io_def try_io_def lift_result_def cs_def)
qed

text \<open>The whole command.\<close>

lemma send_run_succeeds:
  assumes enc: "\<And>p. \<exists>x. co_encp cd p = Inr x" and encm: "\<And>m. \<exists>x. co_enc cd m = Inr x" and cd: "codec_ok cd"
    and t: "tg_store t = st" and tidy: "tidy (tg_prefix t) (contents s)" and s: "ready s"
    and rd: "readable (co_dec cd) (tg_prefix t) (contents s)" and arr: "\<And>xs. set (arrival xs) = set xs"
    and fresh: "\<And>k. below (snapshot_dir (tg_prefix t) (zd_guid ds) (zs_guid snap)) k \<Longrightarrow> contents s k = None"
    and args: "check_args a = Inr ()" "ag_from a = None" and ans: "zfs_answers up h (ag_snapshot a) snap ds"
    and ch: "\<And>spec. sp_to spec = ag_snapshot a \<Longrightarrow> whole_child (zsend spec)"
  shows "\<exists>s'. send_run cd arrival h t a zsend picks lands s = (Inr (), s') \<and> ready s'"
proof -
  have root: "clean_path (key_root (tg_prefix t))" using tidy by (simp add: tidy_def)
  note A = ans [unfolded zfs_answers_def, rule_format]
  obtain s1 where 1: "zfs_io h (\<lambda>sh. snapshot sh (ag_snapshot a)) s = (Inr snap, s1)" "ready s1"
    by (rule zfs_io_yields [of "\<lambda>sh. snapshot sh (ag_snapshot a)", OF queries_ready(2) s]) (use A [OF s] in auto)
  obtain s2 where 2: "zfs_io h (\<lambda>sh. dataset sh (zs_dataset snap)) s1 = (Inr ds, s2)" "ready s2"
    by (rule zfs_io_yields [of "\<lambda>sh. dataset sh (zs_dataset snap)", OF queries_ready(3) 1(2)]) (use A [OF 1(2)] in auto)
  have b2: "contents s2 = contents s"
    using zfs_io_view [OF _ 1(1)] zfs_io_view [OF _ 2(1)] quiet_queries(2,3) by simp
  obtain ms s3 where 3: "manifests (co_dec cd) arrival t s2 = (Inr ms, s3)" "ready s3"
    by (rule manifests_succeeds [OF t _ _ arr 2(2)]) (use tidy rd b2 in simp_all)
  have b3: "contents s3 = contents s" using manifests_frame [OF t _ arr 3(1)] tidy b2 by simp
  show ?thesis
  proof (cases "list_ex (\<lambda>m. mf_snapshot_guid m = zs_guid snap) ms")
    case True
    obtain s4 where "release_hold h (ag_snapshot a) s3 = (Inr (), s4)" "ready s4"
      by (rule succeedsE [OF release_succeeds 3(2)]) auto
    with True 1(1) 2(1) 3(1) args show ?thesis by (simp add: send_run_def bind_io_def lift_result_def)
  next
    case False
    obtain base s4 where 4: "choose_base h a ms (zd_guid ds) (zs_dataset snap) (zs_createtxg snap) s3 = (Inr base, s4)"
      "ready s4"
    proof (cases "ag_full a")
      case True
      with that [of None s3] 3(2) show thesis by (simp add: choose_base_def ret_def)
    next
      case False
      obtain ss s5 where 5: "zfs_io h (\<lambda>sh. snapshots sh (zs_dataset snap)) s3 = (Inr ss, s5)" "ready s5"
        by (rule zfs_io_yields [of "\<lambda>sh. snapshots sh (zs_dataset snap)", OF queries_ready(1) 3(2)]) (use A [OF 3(2)] in auto)
      obtain bs s6 where 6: "zfs_io h (\<lambda>sh. bookmarks sh (zs_dataset snap)) s5 = (Inr bs, s6)" "ready s6"
        by (rule zfs_io_yields [of "\<lambda>sh. bookmarks sh (zs_dataset snap)", OF queries_ready(4) 5(2)]) (use A [OF 5(2)] in auto)
      from 5 6 False args(2) that show thesis by (simp add: choose_base_def auto_base_def bind_io_def ret_def)
    qed
    have b4: "contents s4 = contents s" using keeps_fixed [OF keeps_choose_base 4(1)] b3 by simp
    have "contents s4 k = None" if "below (snapshot_dir (tg_prefix t) (zd_guid ds) (zs_guid snap)) k" for k
      using fresh that b4 by simp
    from archive_succeeds [where zsend = zsend and base = base and picks = picks and lands = lands,
        OF enc encm cd t root 4(2) this args(1) ans ch] obtain s' where
      "archive cd h t a zsend picks lands snap ds base s4 = (Inr (), s')" "ready s'" by blast
    with 1(1) 2(1) 3(1) 4(1) False args(1) show ?thesis by (simp add: send_run_def bind_io_def lift_result_def)
  qed
qed

end

text \<open>The listing and the chain, from what the bucket holds.\<close>

lemma find_in_distinct:
  "distinct (map f xs) \<Longrightarrow> List.find (\<lambda>x. f x = k) xs = Some y \<longleftrightarrow> y \<in> set xs \<and> f y = k"
  by (induction xs) auto

lemma restorable_same_set:
  assumes "set all = set all'" "distinct (map mf_snapshot_guid all)" "distinct (map mf_snapshot_guid all')"
  shows "restorable all m \<Longrightarrow> restorable all' m"
proof (induction rule: restorable.induct)
  case (incr m f b)
  have "List.find (\<lambda>b. mf_snapshot_guid b = f) all' = Some b"
    using incr(2) unfolding find_in_distinct [where f = mf_snapshot_guid, OF assms(2)]
      find_in_distinct [where f = mf_snapshot_guid, OF assms(3)] assms(1) .
  from restorable.incr [OF incr(1) this incr.IH] show ?case .
qed (rule restorable.full)

lemma distinct_same_set: "distinct xs \<Longrightarrow> set xs = set ys \<Longrightarrow> distinct (map f ys) \<Longrightarrow> distinct (map f xs)"
  by (simp add: distinct_map)

lemma distinct_single: "set xs = {x} \<Longrightarrow> distinct xs \<Longrightarrow> xs = [x]"
  by (cases xs; cases "tl xs") auto

lemma chain_of_exists:
  assumes d: "distinct all" and m: "m \<in> set all" "mf_snapshot m = snap"
    and only: "\<And>x. x \<in> set all \<Longrightarrow> mf_snapshot x = snap \<Longrightarrow> x = m"
    and g: "distinct (map mf_snapshot_guid all)" and r: "restorable all m"
  shows "\<exists>ms. chain_of all snap = Inr ms"
proof -
  have "set (filter (\<lambda>x. mf_snapshot x = snap) all) = {m}"
    unfolding set_filter using m only by blast
  moreover have "distinct (filter (\<lambda>x. mf_snapshot x = snap) all)" using d by simp
  ultimately have "filter (\<lambda>x. mf_snapshot x = snap) all = [m]" by (rule distinct_single)
  then have p: "pick all snap = Inr m" by (simp add: pick_Inr)
  have f: "List.find (\<lambda>x. mf_snapshot_guid x = mf_snapshot_guid m) all = Some m"
    unfolding find_in_distinct [where f = mf_snapshot_guid, OF g] using m(1) by simp
  from chain_of_complete [OF p f] r show ?thesis by blast
qed

section \<open>A machine that restores\<close>

locale restoring = receiver be view st h written applied + working_store be view st up
  for be :: "'x backend" and view :: "'x \<Rightarrow> string \<Rightarrow> bytes option" and st :: "'x store" and h :: "'x host"
    and written :: "'x \<Rightarrow> bytes" and applied :: "'x \<Rightarrow> bytes list" and up :: "'x \<Rightarrow> bool" +
  assumes up_spawn: "up x \<Longrightarrow> \<exists>x'. ho_spawn h args x = (Inr (), x') \<and> up x'"
    and up_write: "up x \<Longrightarrow> \<exists>x'. ho_write h d x = (Inr (), x') \<and> up x'"
    and up_flush: "up x \<Longrightarrow> \<exists>x'. ho_flush h x = (Inr (), x') \<and> up x'"
    and up_wait: "up x \<Longrightarrow> \<exists>err x'. ho_wait h x = ((Inr (Some 0), err), x') \<and> up x'"
begin

lemma fetch_chunk_succeeds:
  assumes t: "tg_store t = st" and root: "clean_path (key_root (tg_prefix t))" and s: "ready s"
    and good: "chunk_good (ho_blake3 h) (tg_prefix t) (contents s) m c d"
  obtains s' where "fetch_chunk h t m c s = (Inr d, s')" "ready s'" "contents s' = contents s"
proof -
  let ?key = "chunk_key (tg_prefix t) (mf_dataset_guid m) (mf_snapshot_guid m) (ck_seq c)"
  have d: "contents s ?key = Some d" "of_nat (length d) = ck_bytes c" "ho_blake3 h d = ck_blake3 c"
    using good by (simp_all add: chunk_good_def)
  from get_some [OF s clean_keys(3) [OF root] d(1)] obtain s' where
    g: "store_get st ?key s = (Inr d, s')" "ready s'" "contents s' = contents s" .
  from g(1) d(2,3) t have "fetch_chunk h t m c s = (Inr d, s')"
    by (simp add: fetch_chunk_def Let_def bind_io_def retry_def retry_from.simps [of 0] err_io_def ret_def)
  with that g(2,3) show thesis by blast
qed

lemma write_chunk_succeeds:
  assumes "ready s"
  obtains s' where "write_chunk h d s = (Inr (), s')" "ready s'" "contents s' = contents s"
proof -
  from up_write [OF assms] obtain x where x: "ho_write h d (ext s) = (Inr (), x)" "up x" by blast
  then have "write_chunk h d s = (Inr (), s\<lparr>ext := x\<rparr>)"
    by (simp add: write_chunk_def try_io_def on_ext_def ret_def)
  with that x(2) write_view [OF x(1)] show thesis by simp
qed

lemma apply_loop_succeeds:
  assumes t: "tg_store t = st" and root: "clean_path (key_root (tg_prefix t))"
  shows "ready s \<Longrightarrow>
    \<forall>c \<in> set (wn_inflight w @ wn_waiting w). \<exists>d. chunk_good (ho_blake3 h) (tg_prefix t) (contents s) m c d \<Longrightarrow>
    \<exists>tot' s'. apply_loop h t m lo hi rdy w tot s = (Inr tot', s') \<and> ready s' \<and> contents s' = contents s"
proof (induction "length (wn_inflight w) + length (wn_waiting w)" arbitrary: rdy w tot s rule: less_induct)
  case less
  show ?case
  proof (cases "wn_inflight w")
    case Nil
    with less.prems show ?thesis by (simp add: apply_loop.simps)
  next
    case (Cons c cs)
    let ?w = "next_window lo hi (rdy \<noteq> [] \<and> hd rdy) w"
    from less.prems(2) Cons obtain d where d: "chunk_good (ho_blake3 h) (tg_prefix t) (contents s) m c d" by auto
    from fetch_chunk_succeeds [OF t root less.prems(1) d] obtain s1 where
      1: "fetch_chunk h t m c s = (Inr d, s1)" "ready s1" "contents s1 = contents s" .
    from write_chunk_succeeds [OF 1(2)] obtain s2 where
      2: "write_chunk h d s1 = (Inr (), s2)" "ready s2" "contents s2 = contents s1" .
    have ord: "wn_inflight w @ wn_waiting w = c # (wn_inflight ?w @ wn_waiting ?w)"
      using next_window_order [of w lo hi] Cons by simp
    then have "length (wn_inflight ?w @ wn_waiting ?w) < length (wn_inflight w @ wn_waiting w)" by simp
    moreover have "\<forall>c \<in> set (wn_inflight ?w @ wn_waiting ?w).
        \<exists>d. chunk_good (ho_blake3 h) (tg_prefix t) (contents s2) m c d"
      using less.prems(2) unfolding ord by (simp add: 1(3) 2(3))
    ultimately obtain tot' s' where
      "apply_loop h t m lo hi (tl rdy) ?w (tot + of_nat (length d)) s2 = (Inr tot', s')" "ready s'"
      "contents s' = contents s2"
      using less.hyps [of ?w s2 "tl rdy" "tot + of_nat (length d)"] 2(2) by auto
    with Cons 1 2 show ?thesis by (simp add: apply_loop.simps [of h t m lo hi rdy w])
  qed
qed

lemma apply_stream_succeeds:
  assumes t: "tg_store t = st" and root: "clean_path (key_root (tg_prefix t))" and s: "ready s"
    and good: "holds_stream (ho_blake3 h) (tg_prefix t) (contents s) m v"
  obtains tot' s' where "apply_stream h t to force win rdy m tot s = (Inr tot', s')" "ready s'" "contents s' = contents s"
proof -
  define hi lo where "hi = prefetch_ceiling win (first_bytes m)" and "lo = min MIN_INFLIGHT hi"
  define w where "w = spawn_up_to \<lparr>wn_target = lo, wn_waiting = mf_chunks m, wn_inflight = []\<rparr>"
  have ord: "wn_inflight w @ wn_waiting w = mf_chunks m" unfolding w_def spawn_up_to_order by simp
  have chunks: "\<forall>c \<in> set (mf_chunks m). \<exists>d. chunk_good (ho_blake3 h) (tg_prefix t) (contents s) m c d"
    using good unfolding holds_stream_def by (auto dest: list_all2_in1)
  from up_spawn [OF s, of "receive_args to force"] obtain x1 where
    x1: "ho_spawn h (receive_args to force) (ext s) = (Inr (), x1)" "up x1" by blast
  define s1 where "s1 = s\<lparr>ext := x1\<rparr>"
  have 1: "spawn_child h (receive_args to force) s = (Inr (), s1)" "ready s1" "contents s1 = contents s"
    using x1 spawn_view [OF x1(1)] by (simp_all add: spawn_child_def err_io_def on_ext_def s1_def)
  from apply_loop_succeeds [OF t root 1(2), of w m lo hi rdy tot] chunks ord obtain tot' s2 where
    2: "apply_loop h t m lo hi rdy w tot s1 = (Inr tot', s2)" "ready s2" "contents s2 = contents s1"
    using 1(3) by auto
  from up_flush [OF 2(2)] obtain x3 where x3: "ho_flush h (ext s2) = (Inr (), x3)" "up x3" by blast
  define s3 where "s3 = s2\<lparr>ext := x3\<rparr>"
  have 3: "on_ext (ho_flush h) s2 = (Inr (), s3)" "ready s3" "contents s3 = contents s2"
    using x3 flush_view [OF x3(1)] by (simp_all add: on_ext_def s3_def)
  from up_wait [OF 3(2)] obtain err x4 where x4: "ho_wait h (ext s3) = ((Inr (Some 0), err), x4)" "up x4" by blast
  have 4: "finish_child h ''receive'' s3 = (Inr (), s3\<lparr>ext := x4\<rparr>)"
    using x4(1) by (simp add: finish_child_def wait_child_def map_err_def)
  have "apply_stream h t to force win rdy m tot s = (Inr tot', s3\<lparr>ext := x4\<rparr>)"
    using 1(1) 2(1) 3(1) 4
    by (simp add: apply_stream_def Let_def hi_def [symmetric] lo_def [symmetric] w_def [symmetric] bind_io_def
        err_io_def ret_def)
  from that [OF this] x4(2) wait_view [OF x4(1)] 1(3) 2(3) 3(3) show thesis by simp
qed

lemma apply_chain_succeeds:
  assumes t: "tg_store t = st" and root: "clean_path (key_root (tg_prefix t))"
  shows "ready s \<Longrightarrow> \<forall>m \<in> set ms. \<exists>v. holds_stream (ho_blake3 h) (tg_prefix t) (contents s) m v \<Longrightarrow>
    \<exists>tot' s'. apply_chain h t to force win rdy ms tot s = (Inr tot', s') \<and> ready s'"
proof (induction ms arbitrary: tot s)
  case (Cons m ms)
  from Cons.prems(2) obtain v where "holds_stream (ho_blake3 h) (tg_prefix t) (contents s) m v" by auto
  from apply_stream_succeeds [OF t root Cons.prems(1) this, of to force win "rdy m" tot] obtain tot1 s1 where
    1: "apply_stream h t to force win (rdy m) m tot s = (Inr tot1, s1)" "ready s1" "contents s1 = contents s" .
  have "\<forall>x \<in> set ms. \<exists>v. holds_stream (ho_blake3 h) (tg_prefix t) (contents s1) x v" using Cons.prems(2) 1(3) by simp
  from Cons.IH [OF 1(2) this] 1(1) show ?case by (simp add: try_io_def)
qed (simp add: ret_def)

lemma receive_run_succeeds:
  assumes t: "tg_store t = st" and h: "healthy cd (ho_blake3 h) orig (tg_prefix t) (contents s)" and s: "ready s"
    and arr: "\<And>xs. set (arrival xs) = set xs" and rd: "readable (co_dec cd) (tg_prefix t) (contents s)"
    and all: "manifests (co_dec cd) arrival t s = (Inr all, s1)" and c: "chain_of all snap = Inr ms"
  shows "\<exists>tot s'. receive_run (co_dec cd) arrival rdy h t snap to force win s = (Inr tot, s') \<and> ready s'"
proof -
  have tidy: "tidy (tg_prefix t) (contents s)" using h by (simp add: healthy_def)
  have root: "clean_path (key_root (tg_prefix t))" using tidy by (simp add: tidy_def)
  from manifests_succeeds [OF t tidy rd arr s] all have r1: "ready s1" by (metis prod.inject)
  note M = manifests_exact [OF t tidy arr all]
  have "\<exists>v. holds_stream (ho_blake3 h) (tg_prefix t) (contents s1) m v" if "m \<in> set ms" for m
  proof -
    have "m \<in> set all" using chain_of_Inr(2) [OF c] that by blast
    with M(3) obtain k v where k: "manifest_at (tg_prefix t) (contents s) k v" "co_dec cd v = Inr m" by blast
    with h have "k = manifest_key (tg_prefix t) (mf_dataset_guid m) (mf_snapshot_guid m)"
      by (simp add: healthy_def well_filed_def)
    with k have "listed (co_dec cd) (tg_prefix t) (contents s) m" by (auto simp: listed_def manifest_at_def)
    with h have "archived cd (ho_blake3 h) orig (tg_prefix t) (contents s) m" by (simp add: healthy_def intact_def)
    then show ?thesis unfolding M(1) by (auto simp: archived_def Let_def)
  qed
  then have "\<forall>m \<in> set ms. \<exists>v. holds_stream (ho_blake3 h) (tg_prefix t) (contents s1) m v" by blast
  from apply_chain_succeeds [OF t root r1 this, of to force win rdy 0] all c show ?thesis
    by (simp add: receive_run_def bind_io_def lift_result_def)
qed

text \<open>The same from what the bucket lists: a name that one backup bears, whose ancestors are all there.\<close>

lemma receive_run_completes:
  assumes t: "tg_store t = st" and h: "healthy cd (ho_blake3 h) orig (tg_prefix t) (contents s)" and s: "ready s"
    and arr: "\<And>xs. mset (arrival xs) = mset xs" and rd: "readable (co_dec cd) (tg_prefix t) (contents s)"
    and all: "\<And>x. x \<in> set all \<longleftrightarrow> listed (co_dec cd) (tg_prefix t) (contents s) x"
    and g: "distinct (map mf_snapshot_guid all)" and m: "m \<in> set all" "mf_snapshot m = snap"
    and only: "\<And>x. x \<in> set all \<Longrightarrow> mf_snapshot x = snap \<Longrightarrow> x = m" and r: "restorable all m"
  shows "\<exists>tot s'. receive_run (co_dec cd) arrival rdy h t snap to force win s = (Inr tot, s') \<and> ready s'"
proof -
  have tidy: "tidy (tg_prefix t) (contents s)" using h by (simp add: healthy_def)
  have arr': "set (arrival xs) = set xs" for xs using arr mset_eq_setD by blast
  have filed: "k = manifest_key (tg_prefix t) (mf_dataset_guid x) (mf_snapshot_guid x)"
    if "manifest_at (tg_prefix t) (contents s) k v" "co_dec cd v = Inr x" for k v x
    using that h unfolding healthy_def well_filed_def by blast
  from manifests_succeeds [OF t tidy rd arr' s] obtain ms s1 where
    1: "manifests (co_dec cd) arrival t s = (Inr ms, s1)" .
  have d: "distinct ms" by (rule manifests_distinct [OF t tidy arr filed 1])
  have "x \<in> set ms \<longleftrightarrow> x \<in> set all" for x
  proof
    assume "x \<in> set ms"
    with manifests_exact(3) [OF t tidy arr' 1] obtain k v where
      k: "manifest_at (tg_prefix t) (contents s) k v" "co_dec cd v = Inr x" by blast
    from filed [OF k] k show "x \<in> set all" unfolding all by (auto simp: listed_def manifest_at_def)
  next
    assume "x \<in> set all"
    then obtain v where v: "contents s (manifest_key (tg_prefix t) (mf_dataset_guid x) (mf_snapshot_guid x)) = Some v"
      "co_dec cd v = Inr x" unfolding all by (auto simp: listed_def)
    from manifest_key_at [where b = "contents s", OF v(1)] v(2) show "x \<in> set ms"
      unfolding manifests_exact(3) [OF t tidy arr' 1] by blast
  qed
  then have set: "set all = set ms" by blast
  have gms: "distinct (map mf_snapshot_guid ms)" using distinct_same_set [OF d set [symmetric] g] .
  have "\<exists>chain. chain_of ms snap = Inr chain"
    by (rule chain_of_exists [OF d _ m(2) _ gms restorable_same_set [OF set g gms r]]) (use m(1) only set in blast)+
  then obtain chain where "chain_of ms snap = Inr chain" ..
  from receive_run_succeeds [OF t h s arr' rd 1 this] show ?thesis .
qed

end

section \<open>The bucket in memory without faults\<close>

abbreviation faultless :: "mem \<Rightarrow> bool" where "faultless x \<equiv> me_fates x = []"

lemma mem_faultless:
  "faultless x \<Longrightarrow> mem_write f x = (Inr (), f x)" "faultless x \<Longrightarrow> mem_read g x = (g x, x)"
  by (simp_all add: mem_write_def mem_read_def next_fate_def)

interpretation mem_working_store: working_store mem_backend mem_view mem_store faultless
  by unfold_locales
    (auto simp: mem_backend_def mem_faultless with_object_def without_def mem_lookup_def mem_list_def mem_dirs_def
      mem_path_clean)

interpretation mem_working: working mem_backend mem_view mem_store "mem_host answers" faultless for answers
  by unfold_locales (auto simp: mem_host_def mem_zfs_def mem_store_def)

interpretation mem_restoring: restoring mem_backend mem_view mem_store "mem_host answers" me_fed me_applied faultless
  for answers
  by unfold_locales (auto simp: mem_host_def)

end
