(* ===== verification/Sample_Sends.thy ===== *)
theory Sample_Sends
  imports Working Stream_Synth "HOL-Library.Countable"
begin

text \<open>
  A machine with two snapshots of one dataset, on which the properties of \<open>send\<close> are exercised:
  the answers of \<open>zfs\<close>, the GUIDs behind the names, a codec for one manifest and one marker.
\<close>

section \<open>The answers of zfs\<close>

definition print_out :: "string \<Rightarrow> outcome" where
  "print_out s = Exited (Some 0) (name_bytes s) []"

definition snapshots_query :: "string \<Rightarrow> string list" where
  "snapshots_query ds = [''list'', ''-Hp'', ''-t'', ''snapshot'', ''-s'', ''createtxg'', ''-o'',
     ''name,guid,createtxg,creation,referenced'', ''-d'', ''1'', ds]"

definition bookmarks_query :: "string \<Rightarrow> string list" where
  "bookmarks_query ds =
     [''list'', ''-Hp'', ''-t'', ''bookmark'', ''-o'', ''name,guid,createtxg'', ''-d'', ''1'', ds]"

definition dataset_query :: "string \<Rightarrow> string list" where
  "dataset_query ds = [''get'', ''-Hp'', ''-o'', ''value'', ''guid,encryption,compression,recordsize'', ds]"

definition snap1 :: zfs_snapshot where
  "snap1 = \<lparr>zs_name = ''tank/a@1'', zs_dataset = ''tank/a'', zs_snapname = ''1'', zs_guid = Guid 16,
     zs_createtxg = 10, zs_creation = 100, zs_referenced = 5\<rparr>"

definition snap2 :: zfs_snapshot where
  "snap2 = \<lparr>zs_name = ''tank/a@2'', zs_dataset = ''tank/a'', zs_snapname = ''2'', zs_guid = Guid 32,
     zs_createtxg = 20, zs_creation = 200, zs_referenced = 6\<rparr>"

definition sample_answers :: "(string list \<times> outcome) list" where
  "sample_answers =
     [(snapshots_query ''tank/a'',
         print_out (join [tab] [''tank/a@1'', ''16'', ''10'', ''100'', ''5''] @ newline #
           join [tab] [''tank/a@2'', ''32'', ''20'', ''200'', ''6''] @ [newline])),
      (bookmarks_query ''tank/a'', print_out []),
      (dataset_query ''tank/a'',
         print_out (''1'' @ newline # ''off'' @ newline # ''lz4'' @ newline # ''131072'' @ [newline])),
      ([''hold'', hold_tag JOB, ''tank/a@1''], print_out []),
      ([''hold'', hold_tag JOB, ''tank/a@2''], print_out [])]"

lemma answers_apart:
  "snapshots_query ds \<noteq> bookmarks_query ds'" "snapshots_query ds \<noteq> dataset_query ds'"
  "bookmarks_query ds \<noteq> dataset_query ds'"
  "snapshots_query ds \<noteq> [a, b, c]" "bookmarks_query ds \<noteq> [a, b, c]" "dataset_query ds \<noteq> [a, b, c]"
  "snapshots_query ds = snapshots_query ds' \<longleftrightarrow> ds = ds'"
  "bookmarks_query ds = bookmarks_query ds' \<longleftrightarrow> ds = ds'"
  "dataset_query ds = dataset_query ds' \<longleftrightarrow> ds = ds'"
  by (simp_all add: snapshots_query_def bookmarks_query_def dataset_query_def)

lemma plain_out: "plain_name s \<Longrightarrow> string_of_bytes (utf8_lossy (name_bytes s)) = s"
  by (simp add: utf8_lossy_plain string_of_name_bytes)

lemma sample_listings:
  "map_result parse_snapshot (str_lines (join [tab] [''tank/a@1'', ''16'', ''10'', ''100'', ''5''] @ newline #
     join [tab] [''tank/a@2'', ''32'', ''20'', ''200'', ''6''] @ [newline])) = Inr [snap1, snap2]"
  "plain_name (join [tab] [''tank/a@1'', ''16'', ''10'', ''100'', ''5''] @ newline #
     join [tab] [''tank/a@2'', ''32'', ''20'', ''200'', ''6''] @ [newline])"
  by code_simp+

lemma sample_snapshots:
  "snapshots (mem_zfs sample_answers) ds x = (Inr ss, x') \<Longrightarrow> ss = [snap1, snap2]"
  "snapshots (mem_zfs sample_answers) ''tank/a'' x = (Inr [snap1, snap2], x)"
  using sample_listings
  by (auto simp: snapshots_def snapshots_query_def [symmetric] zfs_run_def mem_zfs_def sample_answers_def
      Let_def print_out_def bind_io_def lift_result_def answers_apart plain_out simp del: join.simps split: if_splits)

lemma sample_bookmarks:
  "bookmarks (mem_zfs sample_answers) ds x = (Inr bs, x') \<Longrightarrow> bs = []"
  "bookmarks (mem_zfs sample_answers) ''tank/a'' x = (Inr [], x)"
proof -
  have "string_of_bytes (utf8_lossy (name_bytes [])) = []" "map_result parse_bookmark (str_lines []) = Inr []"
    by code_simp+
  then show "bookmarks (mem_zfs sample_answers) ds x = (Inr bs, x') \<Longrightarrow> bs = []"
    "bookmarks (mem_zfs sample_answers) ''tank/a'' x = (Inr [], x)"
  by (auto simp: bookmarks_def bookmarks_query_def [symmetric] zfs_run_def mem_zfs_def sample_answers_def
      Let_def print_out_def bind_io_def lift_result_def answers_apart answers_apart(1) [symmetric] split: if_splits)
qed

definition sample_guid :: "string \<Rightarrow> guid" where
  "sample_guid name = (if name = ''tank/a@1'' then Guid 16 else if name = ''tank/a@2'' then Guid 32 else Guid 0)"

lemma sample_names: "names_ok (mem_host sample_answers) sample_guid"
  unfolding names_ok_def
proof (intro conjI allI impI)
  have z: "ho_zfs (mem_host sample_answers) = mem_zfs sample_answers" by (simp add: mem_host_def)
  fix ds x ss x'
  assume "snapshots (ho_zfs (mem_host sample_answers)) ds x = (Inr ss, x')"
  then have "ss = [snap1, snap2]" unfolding z by (rule sample_snapshots)
  then show "\<forall>s \<in> set ss. sample_guid (zs_name s) = zs_guid s \<and>
      \<not> starts_with ''@'' (zs_name s) \<and> \<not> starts_with ''#'' (zs_name s)"
    by (simp add: snap1_def snap2_def sample_guid_def starts_with_iff)
next
  have z: "ho_zfs (mem_host sample_answers) = mem_zfs sample_answers" by (simp add: mem_host_def)
  fix ds x bs x'
  assume "bookmarks (ho_zfs (mem_host sample_answers)) ds x = (Inr bs, x')"
  then have "bs = []" unfolding z by (rule sample_bookmarks)
  then show "\<forall>b \<in> set bs. sample_guid (zb_name b) = zb_guid b \<and>
      \<not> starts_with ''@'' (zb_name b) \<and> \<not> starts_with ''#'' (zb_name b)" by simp
qed

section \<open>The codec and the arguments\<close>

text \<open>A codec of one manifest and one marker.\<close>

definition codec_of :: "manifest \<Rightarrow> pending \<Rightarrow> codec" where
  "codec_of m p =
     \<lparr>co_enc = (\<lambda>m'. if m' = m then Inr [7] else Inl ''not encoded''),
      co_dec = (\<lambda>b. if b = [7] then Inr m else Inl ''not JSON''),
      co_encp = (\<lambda>p'. if p' = p then Inr [8] else Inl ''not encoded''),
      co_decp = (\<lambda>b. if b = [8] then Inr p else Inl ''not JSON''),
      co_hex = (\<lambda>b. concat (map (\<lambda>x. fmt_radix 16 (unat x)) b))\<rparr>"

lemma codec_of_ok: "codec_ok (codec_of m p)"
  by (simp add: codec_ok_def codec_of_def)

definition sample_args :: "string \<Rightarrow> args" where
  "sample_args name = \<lparr>ag_snapshot = name, ag_from = None, ag_full = False, ag_chunk_size = MIN_CHUNK,
     ag_adaptive = False, ag_min = 0, ag_max = 0, ag_parallel = 2\<rparr>"

text \<open>An empty bucket is healthy.\<close>

lemma healthy_empty: "clean_path (key_root P) \<Longrightarrow> healthy cd blake orig P (\<lambda>_. None)"
  by (simp add: healthy_def tidy_def well_filed_def manifest_at_def faithful_def intact_def listed_def)

section \<open>A codec of everything\<close>

text \<open>Every manifest and every marker is a number, and a number a document of that length.\<close>

type_synonym manifest_tuple =
  "(u32 \<times> string \<times> guid \<times> string) \<times> (guid \<times> guid option \<times> u64 \<times> int) \<times>
   (bool \<times> bool \<times> bool \<times> bool \<times> bool \<times> bool) \<times> (u64 \<times> string \<times> string option) \<times> (u32 \<times> u64 \<times> string) list"

type_synonym pending_tuple =
  "guid option \<times> (bool \<times> bool \<times> bool \<times> bool \<times> bool \<times> bool) \<times> u64 \<times> nat \<times> int"

instance guid :: countable
  by (rule countable_classI [of "\<lambda>g. to_nat (guid_u64 g)"]) (simp add: guid.expand)

definition flags_tuple :: "send_flags \<Rightarrow> bool \<times> bool \<times> bool \<times> bool \<times> bool \<times> bool" where
  "flags_tuple f = (raw f, compressed f, large_blocks f, embedded f, holds f, props f)"

definition tuple_flags :: "bool \<times> bool \<times> bool \<times> bool \<times> bool \<times> bool \<Rightarrow> send_flags" where
  "tuple_flags = (\<lambda>(a, b, c, d, e, f).
     \<lparr>raw = a, compressed = b, large_blocks = c, embedded = d, holds = e, props = f\<rparr>)"

definition manifest_tuple :: "manifest \<Rightarrow> manifest_tuple" where
  "manifest_tuple m =
     ((mf_format_version m, mf_dataset m, mf_dataset_guid m, mf_snapshot m),
      (mf_snapshot_guid m, mf_from_guid m, mf_createtxg m, mf_created_at m), flags_tuple (mf_send_flags m),
      (mf_bytes m, mf_stream_blake3 m, mf_end_checksum m),
      map (\<lambda>c. (ck_seq c, ck_bytes c, ck_blake3 c)) (mf_chunks m))"

definition tuple_manifest :: "manifest_tuple \<Rightarrow> manifest" where
  "tuple_manifest = (\<lambda>((v, ds, d, n), (g, b, txg, at), fl, (n', hash, ec), cs).
     \<lparr>mf_format_version = v, mf_dataset = ds, mf_dataset_guid = d, mf_snapshot = n, mf_snapshot_guid = g,
      mf_from_guid = b, mf_createtxg = txg, mf_created_at = at, mf_send_flags = tuple_flags fl, mf_bytes = n',
      mf_stream_blake3 = hash, mf_end_checksum = ec,
      mf_chunks = map (\<lambda>(q, n, hash). \<lparr>ck_seq = q, ck_bytes = n, ck_blake3 = hash\<rparr>) cs\<rparr>)"

definition pending_tuple :: "pending \<Rightarrow> pending_tuple" where
  "pending_tuple p =
     (pd_from_guid p, flags_tuple (pd_send_flags p), pd_chunk_size p, pd_run_id p, pd_refreshed_at p)"

definition tuple_pending :: "pending_tuple \<Rightarrow> pending" where
  "tuple_pending = (\<lambda>(b, fl, n, i, at).
     \<lparr>pd_from_guid = b, pd_send_flags = tuple_flags fl, pd_chunk_size = n, pd_run_id = i, pd_refreshed_at = at\<rparr>)"

lemma tuples_inverse:
  "tuple_flags (flags_tuple f) = f" "tuple_manifest (manifest_tuple m) = m" "tuple_pending (pending_tuple p) = p"
  by (simp_all add: tuple_flags_def flags_tuple_def tuple_manifest_def manifest_tuple_def tuple_pending_def
      pending_tuple_def comp_def map_idI)

definition full_codec :: codec where
  "full_codec =
     \<lparr>co_enc = (\<lambda>m. Inr (replicate (to_nat (manifest_tuple m)) 0)),
      co_dec = (\<lambda>b. Inr (tuple_manifest (from_nat (length b)))),
      co_encp = (\<lambda>p. Inr (replicate (to_nat (pending_tuple p)) 0)),
      co_decp = (\<lambda>b. Inr (tuple_pending (from_nat (length b)))),
      co_hex = (\<lambda>b. concat (map (\<lambda>x. fmt_radix 16 (unat x)) b))\<rparr>"

lemma full_codec_ok:
  "codec_ok full_codec" "\<exists>x. co_enc full_codec m = Inr x" "\<exists>x. co_encp full_codec p = Inr x"
  by (auto simp: codec_ok_def full_codec_def tuples_inverse)

section \<open>The streams\<close>

text \<open>A whole stream of three records, for every snapshot and every base.\<close>

definition sample_stream :: "u64 \<Rightarrow> u64 \<Rightarrow> bytes" where
  "sample_stream to base = the (synth_stream to base 4 ''tank/a'' 0 8 1)"

lemma length_builder_record:
  "length hdr = RECORD_LEN \<Longrightarrow> length (bld_out (builder_record hdr payload b)) = length (bld_out b) + RECORD_LEN + length payload"
  by (simp add: builder_record_def Let_def CKSUM_OFF_def RECORD_LEN_def)

lemma length_sample_stream: "length (sample_stream to base) = 936"
proof -
  have "length (begin_bytes to base 4 ''tank/a'') = RECORD_LEN" by (rule begin_layout(1)) simp
  then show ?thesis
    by (simp add: sample_stream_def synth_stream_def builder_begin_def write_records.simps builder_free_def
        builder_end_def Let_def length_builder_record header_layout builder_new_def)
qed

lemma sample_stream_parses:
  "\<exists>evs q. feed (sample_stream to base) parser_new = (Inr evs, q) \<and> parser_finish q = Inr ()"
  using synth_stream_parses [of "''tank/a''" 8 to base 4 0 1]
  by (auto simp: sample_stream_def plain_name_def)

definition sample_orig :: origin where
  "sample_orig g base flags = sample_stream (guid_u64 g) (case base of None \<Rightarrow> 0 | Some b \<Rightarrow> guid_u64 b)"

definition sample_child :: "send_spec \<Rightarrow> child" where
  "sample_child spec =
     \<lparr>ch_pipe = [Inr (sample_orig (sample_guid (sp_to spec))
        (map_option (\<lambda>f. sample_guid (base_name (sp_to spec) f)) (sp_from spec)) (sp_flags spec))],
      ch_status = Inr (Some 0), ch_stderr = []\<rparr>"

lemma sample_child_bytes:
  "pipe_bytes (ch_pipe (sample_child spec)) = sample_orig (sample_guid (sp_to spec))
     (map_option (\<lambda>f. sample_guid (base_name (sp_to spec) f)) (sp_from spec)) (sp_flags spec)"
  using length_sample_stream by (auto simp: sample_child_def sample_orig_def)

lemma length_sample_orig: "length (sample_orig g base flags) = 936"
  by (simp add: sample_orig_def length_sample_stream)

lemma sample_sends: "sends_ok sample_orig sample_guid sample_child"
  by (simp add: sends_ok_def child_ok_def sample_child_bytes length_sample_orig MIN_CHUNK_def)

lemma sample_whole: "whole_child (sample_child spec)"
  unfolding whole_child_def sample_child_bytes length_sample_orig
  using sample_stream_parses by (auto simp: sample_child_def sample_orig_def MIN_CHUNK_def)

section \<open>A first backup\<close>

definition sample_dataset :: zfs_dataset where
  "sample_dataset = \<lparr>zd_name = ''tank/a'', zd_guid = Guid 1, zd_encrypted = False, zd_compression = ''lz4'',
     zd_recordsize = 131072\<rparr>"

lemma sample_queries: "zfs_answers faultless (mem_host sample_answers) ''tank/a@1'' snap1 sample_dataset"
proof -
  have z: "ho_zfs (mem_host sample_answers) = mem_zfs sample_answers" by (simp add: mem_host_def)
  have "split_once (CHR ''@'') ''tank/a@1'' = Some (''tank/a'', ''1'')"
    "List.find (\<lambda>s. zs_name s = ''tank/a@1'') [snap1, snap2] = Some snap1" by code_simp+
  then have "snapshot (mem_zfs sample_answers) ''tank/a@1'' x = (Inr snap1, x)" for x
    by (simp add: snapshot_def bind_io_def lift_result_def sample_snapshots(2))
  moreover have "zs_dataset snap1 = ''tank/a''" by (simp add: snap1_def)
  moreover have "fst (dataset (mem_zfs sample_answers) ''tank/a'' x) = Inr sample_dataset \<and>
      \<not> isl (fst (hold (mem_zfs sample_answers) (hold_tag JOB) ''tank/a@1'' x))" for x
  proof -
    have "parse_dataset ''tank/a'' (string_of_bytes (utf8_lossy (name_bytes
        (''1'' @ newline # ''off'' @ newline # ''lz4'' @ newline # ''131072'' @ [newline])))) = Inr sample_dataset"
      by code_simp
    then show ?thesis
      by (simp add: dataset_def dataset_query_def [symmetric] hold_def zfs_run_def mem_zfs_def sample_answers_def
          print_out_def bind_io_def try_io_def lift_result_def answers_apart answers_apart [symmetric] ret_def)
  qed
  ultimately show ?thesis
    by (simp add: zfs_answers_def z sample_snapshots(2) sample_bookmarks(2))
qed

lemma empty_healthy:
  "healthy cd (ho_blake3 (mem_host answers)) orig (tg_prefix mem_target) (mem_view (ext (mem_sys [] fates)))"
proof -
  have "clean_path (key_root ''t'')" by code_simp
  then show ?thesis by (simp add: mem_sys_view healthy_empty)
qed

lemma sample_bucket:
  "tidy (tg_prefix mem_target) (mem_view (ext (mem_sys [] fates)))"
  "readable dec (tg_prefix mem_target) (mem_view (ext (mem_sys [] fates)))"
  "mem_view (ext (mem_sys [] fates)) k = None" "faultless (ext (mem_sys [] []))"
proof -
  have "clean_path (key_root ''t'')" by code_simp
  then show "tidy (tg_prefix mem_target) (mem_view (ext (mem_sys [] fates)))" by (simp add: mem_tidy)
  show "readable dec (tg_prefix mem_target) (mem_view (ext (mem_sys [] fates)))"
    by (simp add: readable_def manifest_at_def mem_sys_view)
  show "mem_view (ext (mem_sys [] fates)) k = None" by (simp add: mem_sys_view)
  show "faultless (ext (mem_sys [] []))" by (simp add: mem_sys_def)
qed

lemma sample_args_ok:
  "check_args (sample_args name) = Inr ()" "ag_from (sample_args name) = None" "ag_snapshot (sample_args name) = name"
  by (simp_all add: check_args_def sample_args_def MIN_CHUNK_def MAX_CHUNK_def)

lemma sample_args_answered:
  "zfs_answers faultless (mem_host sample_answers) (ag_snapshot (sample_args ''tank/a@1'')) snap1 sample_dataset"
  by (simp add: sample_args_ok sample_queries)

definition first_run :: "(error + unit) \<times> mem sys" where
  "first_run = send_run full_codec rev (mem_host sample_answers) mem_target (sample_args ''tank/a@1'')
     sample_child [] [] (mem_sys [] [])"

lemma first_run_succeeds: "fst first_run = Inr ()" "faultless (ext (snd first_run))"
proof -
  have "\<exists>s'. first_run = (Inr (), s') \<and> faultless (ext s')"
    unfolding first_run_def
    by (rule mem_working.send_run_succeeds [OF full_codec_ok(3,2,1) mem_target_simps(1) sample_bucket(1,4,2) _ _
          sample_args_ok(1,2) sample_args_answered sample_whole])
      (simp_all add: sample_bucket(3))
  then obtain s' where s': "first_run = (Inr (), s')" "faultless (ext s')" by blast
  show "fst first_run = Inr ()" unfolding s'(1) by (rule fst_conv)
  show "faultless (ext (snd first_run))" unfolding s'(1) snd_conv by (rule s'(2))
qed

text \<open>The bucket after it: one backup, which can be restored.\<close>

lemma first_run_eq:
  "send_run full_codec rev (mem_host sample_answers) mem_target (sample_args ''tank/a@1'')
     sample_child [] [] (mem_sys [] []) = (Inr (), snd first_run)"
  using first_run_succeeds(1) by (metis first_run_def prod.collapse)

lemma nothing_listed: "\<not> listed dec P (mem_view (ext (mem_sys [] fates))) m"
  by (simp add: listed_def mem_sys_view)

lemma first_backup:
  obtains m where "\<And>x. listed (co_dec full_codec) ''t'' (mem_view (ext (snd first_run))) x \<longleftrightarrow> x = m"
    "mf_snapshot m = ''tank/a@1''" "mf_snapshot_guid m = Guid 16" "mf_from_guid m = None"
    "mf_format_version m = FORMAT_VERSION"
    "healthy full_codec digest sample_orig ''t'' (mem_view (ext (snd first_run)))"
    "readable (co_dec full_codec) ''t'' (mem_view (ext (snd first_run)))"
proof -
  let ?v = "mem_view (ext (snd first_run))" and ?l = "listed (co_dec full_codec) ''t''"
  have arr: "set (rev xs) = set xs" for xs :: "string list" by simp
  note R = mem_sender.send_run_ok [OF mem_target_simps(1) empty_healthy full_codec_ok(1) sample_names sample_sends
      arr first_run_eq]
  from R have h: "healthy full_codec digest sample_orig ''t'' ?v" by (simp add: mem_host_def)
  have tv: "tg_prefix mem_target = ''t''" "ag_snapshot (sample_args ''tank/a@1'') = ''tank/a@1''"
    by (simp_all add: mem_target_def sample_args_def)
  from R have "\<exists>m. ?l ?v m \<and> mf_snapshot_guid m = sample_guid ''tank/a@1'' \<and> (\<forall>x. ?l ?v x \<longrightarrow> x = m) \<and>
      mf_snapshot m = ''tank/a@1'' \<and> mf_format_version m = FORMAT_VERSION \<and> (\<forall>bg. mf_from_guid m \<noteq> Some bg)"
    unfolding tv by (simp only: nothing_listed simp_thms)
  then obtain m where
    m: "?l ?v m" "mf_snapshot_guid m = sample_guid ''tank/a@1''" "\<And>x. ?l ?v x \<Longrightarrow> x = m" "mf_snapshot m = ''tank/a@1''"
      "mf_format_version m = FORMAT_VERSION" "mf_from_guid m = None"
    by (metis option.exhaust)
  have "readable (co_dec full_codec) ''t'' ?v"
    unfolding readable_def
  proof (intro allI impI)
    fix k x
    assume k: "manifest_at ''t'' ?v k x"
    obtain y where y: "co_dec full_codec x = Inr y" by (simp add: full_codec_def)
    with h k have "k = manifest_key ''t'' (mf_dataset_guid y) (mf_snapshot_guid y)"
      unfolding healthy_def well_filed_def by blast
    with k y have "?l ?v y" by (auto simp: listed_def manifest_at_def)
    then have "y = m" by (rule m(3))
    with y m(5) show "\<exists>m. co_dec full_codec x = Inr m \<and> check_version m = Inr ()"
      by (simp add: check_version_def)
  qed
  moreover have "?l ?v x \<longleftrightarrow> x = m" for x using m(1,3) by blast
  moreover have "mf_snapshot_guid m = Guid 16" using m(2) by (simp add: sample_guid_def)
  ultimately show thesis using that m(4-6) h by blast
qed

end
