(* ===== verification/Send_Properties.thy ===== *)
theory Send_Properties
  imports Sample_Sends
begin

text \<open>
  What \<open>send\<close> (\<open>src/cmd/send.rs\<close>) guarantees: the size of the chunks, the choice of the base, the
  lease, and the state of the bucket after a run that may have stopped anywhere.
\<close>

section \<open>The chunk size\<close>

lemma unat_below: "unat (x :: u64) < 2 ^ 64"
proof -
  have "unat x < 2 ^ LENGTH(64)" by (rule unsigned_less)
  then show ?thesis by simp
qed

lemma div_ceil_times:
  assumes "0 < unit"
  shows "unat x \<le> unat (div_ceil x unit) * unat unit"
proof -
  let ?x = "unat x" and ?u = "unat unit"
  have u: "0 < ?u" using assms by (simp add: word_less_nat_alt)
  show ?thesis
  proof (cases "x mod unit = 0")
    case True
    then have "?x mod ?u = 0" by (metis unat_mod unsigned_0)
    then have "?x = ?x div ?u * ?u" by (metis add_0_right div_mult_mod_eq)
    with True show ?thesis by (simp add: div_ceil_def unat_div)
  next
    case False
    then have "?x mod ?u \<noteq> 0" by (metis unat_mod unat_eq_zero)
    then have "?x div ?u < ?x" using u
      by (metis div_less_dividend div_by_1 gr_zeroI mod_0 mod_by_Suc_0 nat_neq_iff One_nat_def Suc_lessI)
    then have s: "unat (x div unit + 1) = Suc (?x div ?u)"
      using unat_below [of x] by (subst unat_word_ariths(1)) (simp add: unat_div)
    have "?x = ?x div ?u * ?u + ?x mod ?u" by simp
    also have "\<dots> \<le> ?x div ?u * ?u + ?u" by (intro add_left_mono less_imp_le mod_less_divisor u)
    finally have "?x \<le> Suc (?x div ?u) * ?u" by simp
    moreover have "0 < x mod unit" using False by (simp only: word_gt_0 not_False_eq_True)
    ultimately show ?thesis using s by (simp add: div_ceil_def)
  qed
qed

lemma saturating_mul_le: "x \<le> unat a * unat b \<Longrightarrow> x < 2 ^ 64 \<Longrightarrow> x \<le> unat (saturating_mul a b)"
  by (auto simp: saturating_mul_def Let_def unat_word_ariths(2) unsigned_minus_1_eq_mask mask_eq_exp_minus_1)

lemma clamp_ge: "x \<le> y \<Longrightarrow> x \<le> hi \<Longrightarrow> lo \<le> hi \<Longrightarrow> x \<le> clamp y lo hi"
  by (auto simp: clamp_def)

text \<open>C34: An adaptive chunk size stays within the bounds given and needs at most 1001 chunks for a stream of the
  estimated size, as long as 1000 chunks of the largest size hold it: rounding to whole
  units of 16 MiB never makes the chunks smaller than the thousandth part, and nothing overflows.\<close>

theorem adaptive_chunk_bounded:
  assumes "MIN_CHUNK \<le> lo" "lo \<le> hi"
  shows "lo \<le> adaptive_chunk_size n lo hi \<and> adaptive_chunk_size n lo hi \<le> hi \<and>
    (unat n \<le> 1000 * unat hi \<longrightarrow> unat n \<le> 1001 * unat (adaptive_chunk_size n lo hi))"
proof (intro conjI impI)
  show "lo \<le> adaptive_chunk_size n lo hi" "adaptive_chunk_size n lo hi \<le> hi"
    using adaptive_bounds [OF assms(2)] by blast+
  let ?c = "adaptive_chunk_size n lo hi"
  assume fits: "unat n \<le> 1000 * unat hi"
  define raw where "raw = clamp (n div ADAPTIVE_TARGET_CHUNKS) lo hi"
  have q: "unat (n div ADAPTIVE_TARGET_CHUNKS) = unat n div 1000"
    by (simp add: ADAPTIVE_TARGET_CHUNKS_def unat_div)
  have raw: "unat n div 1000 \<le> unat raw" "raw \<le> hi"
    using fits assms(2) q by (auto simp: raw_def clamp_def word_less_nat_alt word_le_nat_alt not_less)
  let ?unit = "push_bit 20 16 :: u64"
  have "unat raw \<le> unat (div_ceil raw ?unit) * unat ?unit" by (rule div_ceil_times) simp
  then have "raw \<le> saturating_mul (div_ceil raw ?unit) ?unit"
    unfolding word_le_nat_alt by (rule saturating_mul_le) (rule unat_below)
  then have "raw \<le> ?c"
    unfolding adaptive_chunk_size_def Let_def raw_def [symmetric] using raw(2) assms(2) by (rule clamp_ge)
  then have "unat n div 1000 \<le> unat ?c" using raw(1) by (simp add: word_le_nat_alt)
  then have "unat n \<le> 1000 * unat ?c + 1000" by linarith
  moreover have "1000 \<le> unat ?c"
    using assms(1) \<open>lo \<le> ?c\<close> by (simp add: word_le_nat_alt MIN_CHUNK_def)
  ultimately show "unat n \<le> 1001 * unat ?c" by linarith
qed

theorem adaptive_chunk_bounded_witness:
  "MIN_CHUNK \<le> adaptive_chunk_size (push_bit 40 1) MIN_CHUNK MAX_CHUNK \<and>
   adaptive_chunk_size (push_bit 40 1) MIN_CHUNK MAX_CHUNK = push_bit 20 1056 \<and>
   unat (push_bit 40 1 :: u64) \<le> 1001 * unat (adaptive_chunk_size (push_bit 40 1) MIN_CHUNK MAX_CHUNK)"
proof -
  have "MIN_CHUNK \<le> MAX_CHUNK" by (simp add: MIN_CHUNK_def MAX_CHUNK_def)
  moreover have "adaptive_chunk_size (push_bit 40 1) MIN_CHUNK MAX_CHUNK = push_bit 20 1056"
    by (simp add: adaptive_chunk_size_def Let_def clamp_def div_ceil_def saturating_mul_def
        ADAPTIVE_TARGET_CHUNKS_def MIN_CHUNK_def MAX_CHUNK_def)
  moreover have "unat (push_bit 40 1 :: u64) \<le> 1000 * unat MAX_CHUNK" by (simp add: MAX_CHUNK_def)
  ultimately show ?thesis
    using adaptive_chunk_bounded [of MIN_CHUNK MAX_CHUNK "push_bit 40 1"] by auto
qed

section \<open>The base\<close>

text \<open>What of the archived snapshots is still there locally, older than the one to send.\<close>

definition local_base :: "zfs_snapshot list \<Rightarrow> zfs_bookmark list \<Rightarrow> u64 \<Rightarrow> manifest \<Rightarrow> bool" where
  "local_base snaps marks txg m \<longleftrightarrow>
     (\<exists>s \<in> set snaps. zs_guid s = mf_snapshot_guid m \<and> zs_createtxg s < txg) \<or>
     (\<exists>b \<in> set marks. zb_guid b = mf_snapshot_guid m \<and> zb_createtxg b < txg)"

lemma pick_base_first:
  "case pick_base snaps marks txg ms of
     None \<Rightarrow> \<forall>m \<in> set ms. \<not> local_base snaps marks txg m
   | Some (f, g) \<Rightarrow> \<exists>xs m ys. ms = xs @ m # ys \<and> g = mf_snapshot_guid m \<and> local_base snaps marks txg m \<and>
       (\<forall>x \<in> set xs. \<not> local_base snaps marks txg x)"
proof (induction snaps marks txg ms rule: pick_base.induct)
  case (2 snaps marks txg m ms)
  let ?s = "List.find (\<lambda>s. zs_guid s = mf_snapshot_guid m \<and> zs_createtxg s < txg) snaps"
  let ?b = "List.find (\<lambda>b. zb_guid b = mf_snapshot_guid m \<and> zb_createtxg b < txg) marks"
  show ?case
  proof (cases "?s = None \<and> ?b = None")
    case True
    then have no: "\<not> local_base snaps marks txg m" by (auto simp: local_base_def find_None_iff)
    note IH = 2 [OF True [THEN conjunct1] True [THEN conjunct2]]
    from True have eq: "pick_base snaps marks txg (m # ms) = pick_base snaps marks txg ms" by simp
    show ?thesis
    proof (cases "pick_base snaps marks txg ms")
      case None
      with IH no eq show ?thesis by simp
    next
      case (Some fg)
      obtain f g where fg: "fg = (f, g)" by fastforce
      from IH Some fg obtain xs m' ys where "ms = xs @ m' # ys" "g = mf_snapshot_guid m'"
        "local_base snaps marks txg m'" "\<forall>x \<in> set xs. \<not> local_base snaps marks txg x" by auto
      with no Some fg eq show ?thesis by (auto intro!: exI [of _ "m # xs"])
    qed
  next
    case False
    then have l: "local_base snaps marks txg m"
      unfolding local_base_def by (cases ?s; cases ?b) (auto dest!: find_SomeD)
    from False obtain f where "pick_base snaps marks txg (m # ms) = Some (f, mf_snapshot_guid m)"
      by (cases ?s; cases ?b) auto
    with l show ?thesis by (auto intro!: exI [of _ "[]"])
  qed
qed simp

text \<open>C35: Without \<open>--from\<close> the increment is based on the newest archived snapshot of the dataset that is
  still there locally, as a snapshot or as a bookmark, from before the snapshot to send; a full stream is
  sent exactly when there is none.\<close>

theorem base_is_newest:
  "case pick_base snaps marks txg (base_candidates ms d) of
     None \<Rightarrow> \<not> (\<exists>m \<in> set ms. mf_dataset_guid m = d \<and> local_base snaps marks txg m)
   | Some (f, g) \<Rightarrow> \<exists>m \<in> set ms. mf_dataset_guid m = d \<and> mf_snapshot_guid m = g \<and>
       local_base snaps marks txg m \<and>
       \<not> (\<exists>x \<in> set ms. mf_dataset_guid x = d \<and> local_base snaps marks txg x \<and> mf_created_at m < mf_created_at x)"
proof (cases "pick_base snaps marks txg (base_candidates ms d)")
  case None
  with pick_base_first [where snaps = snaps and marks = marks and txg = txg and ms = "base_candidates ms d"] show ?thesis
    by (auto simp: base_candidates_def)
next
  case (Some fg)
  obtain f g where fg: "fg = (f, g)" by fastforce
  from pick_base_first [where snaps = snaps and marks = marks and txg = txg and ms = "base_candidates ms d"] Some fg obtain xs m ys where
    m: "base_candidates ms d = xs @ m # ys" "g = mf_snapshot_guid m" "local_base snaps marks txg m"
    "\<forall>x \<in> set xs. \<not> local_base snaps marks txg x" by auto
  have s: "set (base_candidates ms d) = {x \<in> set ms. mf_dataset_guid x = d}"
    by (auto simp: base_candidates_def)
  have "sorted (map (\<lambda>x. - mf_created_at x) (xs @ m # ys))"
    unfolding m(1) [symmetric] base_candidates_def by simp
  then have "\<forall>y \<in> set ys. mf_created_at y \<le> mf_created_at m" by (auto simp: sorted_append)
  moreover have "m \<in> set ms" "mf_dataset_guid m = d" using s unfolding m(1) by auto
  ultimately show ?thesis
    using Some fg m s by (fastforce simp: set_eq_iff intro!: bexI [of _ m])
qed

section \<open>The lease\<close>

context sender
begin

lemma lease_refused:
  assumes t: "tg_store t = st" and root: "clean_path (key_root (tg_prefix t))"
    and 1: "store_list st (snapshot_dir (tg_prefix t) d g @ ''/'') s = (Inr items, s1)"
    and 2: "ho_uuid h (ext s1) = (i, x2)"
    and 3: "previous_marker t (pending_key (tg_prefix t) d g) (s1\<lparr>ext := x2\<rparr>) = (Inr (Some b), s3)"
    and p: "co_decp cd b = Inr p" "lease_live p (ho_now h (ext s3))" "pd_run_id p \<noteq> i"
  shows "contents s (pending_key (tg_prefix t) d g) = Some b" "contents s3 = contents s"
    "send_stream cd h t a n zsend picks lands d g base flags s
      = (Inl (SendInProgress (ag_snapshot a) (pd_run_id p) (pd_refreshed_at p) (pending_key (tg_prefix t) d g)), s3)"
proof -
  have b1: "contents s1 = contents s" using bk.list_any [OF _ 1] root by (simp add: clean_dir)
  have b2: "contents (s1\<lparr>ext := x2\<rparr>) = contents s" using b1 uuid_view [OF 2] by simp
  note P = previous_marker_ok [OF t clean_keys(2) [OF root] 3]
  from P b2 show "contents s (pending_key (tg_prefix t) d g) = Some b" "contents s3 = contents s" by simp_all
  show "send_stream cd h t a n zsend picks lands d g base flags s
      = (Inl (SendInProgress (ag_snapshot a) (pd_run_id p) (pd_refreshed_at p) (pending_key (tg_prefix t) d g)), s3)"
    using t 1 2 3 p
    by (simp add: send_stream_def prepare_resume_def Let_def bind_io_def err_io_def new_marker_def
        resume_decision_def lift_result_def)
qed

end







section \<open>The bucket after a run\<close>

text \<open>C5: However a send ends (with success, an error of any call, a signal or a crash between two
  uploads), the bucket stays healthy: every listed backup is still a whole stream of \<open>zfs send\<close> with the recorded
  sizes, hashes and end checksum, what an unfinished run has left behind is a beginning
  of the stream its marker describes, only objects of the snapshot's own directory have changed,
  and no manifest that was listed has gone.\<close>

theorem send_keeps_healthy:
  assumes "sender be view st h" "tg_store t = st"
    and "healthy cd (ho_blake3 h) orig (tg_prefix t) (view (ext s))"
    and "codec_ok cd" "names_ok h guid_of" "sends_ok orig guid_of zsend" "\<And>xs. mset (arrival xs) = mset xs"
    and "send_run cd arrival h t a zsend picks lands s = (r, s')"
  shows "healthy cd (ho_blake3 h) orig (tg_prefix t) (view (ext s')) \<and>
    (\<exists>d. \<forall>k. \<not> below (snapshot_dir (tg_prefix t) d (guid_of (ag_snapshot a))) k \<longrightarrow>
       view (ext s') k = view (ext s) k) \<and>
    (\<forall>m. listed (co_dec cd) (tg_prefix t) (view (ext s)) m \<longrightarrow> listed (co_dec cd) (tg_prefix t) (view (ext s')) m)"
proof -
  have arr: "set (arrival xs) = set xs" for xs using assms(7) mset_eq_setD by blast
  from sender.send_run_ok [OF assms(1-6) arr assms(8)] show ?thesis by blast
qed

text \<open>A \<open>zfs send\<close> whose pipe breaks: the run fails and leaves its marker.\<close>

definition cut_marker :: pending where
  "cut_marker = \<lparr>pd_from_guid = None, pd_send_flags = send_flags_for False, pd_chunk_size = MIN_CHUNK,
     pd_run_id = 0, pd_refreshed_at = 0\<rparr>"

definition cut_codec :: codec where
  "cut_codec = codec_of sample_full cut_marker"

definition cut_child :: child where
  "cut_child = \<lparr>ch_pipe = [Inl ''broken pipe''], ch_status = Inr (Some 1), ch_stderr = []\<rparr>"

definition cut_run :: "(error + unit) \<times> mem sys" where
  "cut_run = send_run cut_codec rev (mem_host sample_answers) mem_target (sample_args ''tank/a@1'')
     (\<lambda>_. cut_child) [] [] (mem_sys [] [])"

lemma cut_run_ends:
  "isl (fst cut_run) \<and>
   mem_view (ext (snd cut_run)) (pending_key ''t'' (Guid 1) (Guid 16)) = Some [8] \<and>
   mem_view (ext (snd cut_run)) (manifest_key ''t'' (Guid 1) (Guid 16)) = None"
proof -
  have "case cut_run of (r, s) \<Rightarrow> isl r \<and>
      mem_view (ext s) (pending_key ''t'' (Guid 1) (Guid 16)) = Some [8] \<and>
      mem_view (ext s) (manifest_key ''t'' (Guid 1) (Guid 16)) = None" by code_simp
  then show ?thesis by (simp add: case_prod_beta)
qed

theorem send_keeps_healthy_witness:
  "isl (fst cut_run) \<and> mem_view (ext (snd cut_run)) (pending_key ''t'' (Guid 1) (Guid 16)) = Some [8] \<and>
   healthy cut_codec digest (\<lambda>_ _ _. [1, 2, 3]) ''t'' (mem_view (ext (snd cut_run)))"
proof -
  have s: "sends_ok (\<lambda>_ _ _. [1, 2, 3]) sample_guid (\<lambda>_. cut_child)"
    by (simp add: sends_ok_def child_ok_def cut_child_def)
  have r: "send_run cut_codec rev (mem_host sample_answers) mem_target (sample_args ''tank/a@1'')
      (\<lambda>_. cut_child) [] [] (mem_sys [] []) = (fst cut_run, snd cut_run)" by (simp add: cut_run_def)
  have cd: "codec_ok cut_codec" by (simp add: cut_codec_def codec_of_ok)
  from send_keeps_healthy [OF mem_sender.sender_axioms mem_target_simps(1) empty_healthy cd sample_names s mset_rev r] cut_run_ends
  show ?thesis by (simp add: mem_host_def)
qed

end
