(* ===== verification/Lifecycle_Properties.thy ===== *)
theory Lifecycle_Properties
  imports Sample_Sends
begin

text \<open>
  What the commands guarantee together: what a backup that reports success has stored, that any
  sequence of commands on any machines leaves every listed backup whole, that a restore then gives
  back the very streams that were sent, and that on a machine on which nothing fails both succeed.
\<close>

section \<open>A backup\<close>

text \<open>C4: A send that reports success has archived the snapshot: one manifest bears its GUID and stands for the
  whole stream of \<open>zfs send\<close>, with its length, hashes and end checksum. It is the only manifest that has
  become listed; if it is new it bears the name given, and an increment has its base among the
  backups of the same dataset that were listed before.\<close>

theorem send_archives:
  assumes "sender be view st h" "tg_store t = st"
    and "healthy cd (ho_blake3 h) orig (tg_prefix t) (view (ext s))"
    and "codec_ok cd" "names_ok h guid_of" "sends_ok orig guid_of zsend" "\<And>xs. mset (arrival xs) = mset xs"
    and "send_run cd arrival h t a zsend picks lands s = (Inr (), s')"
  shows "\<exists>m. listed (co_dec cd) (tg_prefix t) (view (ext s')) m \<and>
    mf_snapshot_guid m = guid_of (ag_snapshot a) \<and>
    archived cd (ho_blake3 h) orig (tg_prefix t) (view (ext s')) m \<and>
    (\<forall>m'. listed (co_dec cd) (tg_prefix t) (view (ext s')) m' \<longrightarrow>
       listed (co_dec cd) (tg_prefix t) (view (ext s)) m' \<or> m' = m) \<and>
    (\<not> listed (co_dec cd) (tg_prefix t) (view (ext s)) m \<longrightarrow> mf_snapshot m = ag_snapshot a \<and>
       (\<forall>bg. mf_from_guid m = Some bg \<longrightarrow> (\<exists>b. listed (co_dec cd) (tg_prefix t) (view (ext s)) b \<and>
          mf_dataset_guid b = mf_dataset_guid m \<and> mf_snapshot_guid b = bg)))"
proof -
  have arr: "set (arrival xs) = set xs" for xs using assms(7) mset_eq_setD by blast
  from sender.send_run_ok [OF assms(1-6) arr assms(8)] obtain m where
    m: "listed (co_dec cd) (tg_prefix t) (view (ext s')) m" and
    h: "healthy cd (ho_blake3 h) orig (tg_prefix t) (view (ext s'))" and
    rest: "mf_snapshot_guid m = guid_of (ag_snapshot a)"
      "\<forall>m'. listed (co_dec cd) (tg_prefix t) (view (ext s')) m' \<longrightarrow>
         listed (co_dec cd) (tg_prefix t) (view (ext s)) m' \<or> m' = m"
      "\<not> listed (co_dec cd) (tg_prefix t) (view (ext s)) m \<longrightarrow> mf_snapshot m = ag_snapshot a \<and>
         (\<forall>bg. mf_from_guid m = Some bg \<longrightarrow> (\<exists>b. listed (co_dec cd) (tg_prefix t) (view (ext s)) b \<and>
            mf_dataset_guid b = mf_dataset_guid m \<and> mf_snapshot_guid b = bg))" by blast
  from m h have "archived cd (ho_blake3 h) orig (tg_prefix t) (view (ext s')) m"
    by (simp add: healthy_def intact_def)
  with m rest show ?thesis by blast
qed

theorem send_archives_witness:
  "fst first_run = Inr () \<and>
   (\<exists>m. listed (co_dec full_codec) ''t'' (mem_view (ext (snd first_run))) m \<and> mf_snapshot_guid m = Guid 16 \<and>
      mf_snapshot m = ''tank/a@1'' \<and>
      holds_stream digest ''t'' (mem_view (ext (snd first_run))) m (sample_orig (Guid 16) None (mf_send_flags m)))"
proof -
  from send_archives [OF mem_sender.sender_axioms mem_target_simps(1) empty_healthy full_codec_ok(1) sample_names
      sample_sends mset_rev first_run_eq] nothing_listed
  obtain m where m: "listed (co_dec full_codec) ''t'' (mem_view (ext (snd first_run))) m"
    "mf_snapshot_guid m = sample_guid ''tank/a@1''" "mf_snapshot m = ''tank/a@1''" "mf_from_guid m = None"
    "archived full_codec digest sample_orig ''t'' (mem_view (ext (snd first_run))) m"
    by (auto simp: sample_args_def mem_host_def)
  then show ?thesis using first_run_succeeds(1) by (auto simp: archived_def Let_def sample_guid_def)
qed

section \<open>Any sequence of commands\<close>

text \<open>C2: Whatever commands run on the bucket, from whatever machines, in whatever order and however each of
  them ends (\<open>send\<close>, \<open>receive\<close>, \<open>verify\<close>, \<open>list\<close>, \<open>pin\<close>, \<open>retention\<close>, \<open>clean\<close>, each a step of the
  relation \<open>command\<close>): a healthy bucket stays healthy. So no listed backup ever refers to missing,
  damaged or mixed data, and what is left of interrupted uploads may always be resumed.\<close>

theorem commands_keep_healthy:
  assumes "s3_store be view st" "codec_ok cd" "(command be view st P cd blake orig)\<^sup>*\<^sup>* s s'"
    and "healthy cd blake orig P (view (ext s))"
  shows "healthy cd blake orig P (view (ext s'))"
  using assms by (rule commands_healthy)

text \<open>A send, a retention run that deletes all but the newest, and a cleaning of what is left.\<close>

definition later_runs :: "mem sys" where
  "later_runs = snd (clean_run (co_dec full_codec) (co_decp full_codec) (mem_host []) mem_target False
     (snd (retention_run (co_dec full_codec) rev (mem_host []) mem_target None (Some 1) None False (snd first_run))))"

theorem commands_keep_healthy_witness: "healthy full_codec digest sample_orig ''t'' (mem_view (ext later_runs))"
proof -
  let ?c = "command mem_backend mem_view mem_store ''t'' full_codec digest sample_orig"
  define s2 where "s2 = snd (retention_run (co_dec full_codec) rev (mem_host []) mem_target None (Some 1) None
      False (snd first_run))"
  have t: "mem_target = \<lparr>tg_store = mem_store, tg_prefix = ''t''\<rparr>" by (simp add: mem_target_def)
  have b: "ho_blake3 (mem_host answers) = digest" for answers by (simp add: mem_host_def)
  have a: "\<forall>xs. mset (rev xs) = mset xs" for xs by simp
  have "?c (mem_sys [] []) (snd first_run)"
    by (rule command.send [OF mem_sender.sender_axioms b sample_names sample_sends, where arrival = rev and
          a = "sample_args ''tank/a@1''" and picks = "[]" and lands = "[]" and r = "fst first_run"])
      (simp_all add: first_run_def t)
  moreover have "?c (snd first_run) s2"
    by (rule command.retention [where arrival = rev and h = "mem_host []" and older = None and keep = "Some 1" and
          only = None and dry = False and
          r = "fst (retention_run (co_dec full_codec) rev (mem_host []) mem_target None (Some 1) None False (snd first_run))"])
      (simp_all add: s2_def t)
  moreover have "?c s2 later_runs"
    by (rule command.clean [where h = "mem_host []" and dry = False and
          rd = "fst (clean_run (co_dec full_codec) (co_decp full_codec) (mem_host []) mem_target False s2)"])
      (simp add: later_runs_def s2_def t)
  ultimately have "?c\<^sup>*\<^sup>* (mem_sys [] []) later_runs" by (meson converse_rtranclp_into_rtranclp rtranclp.rtrancl_refl)
  from commands_keep_healthy [OF mem_bucket.s3_store_axioms full_codec_ok(1) this]
    empty_healthy [of full_codec "[]" sample_orig "[]"]
  show ?thesis by (simp add: b)
qed

section \<open>A restore\<close>

text \<open>C1: What is restored is what was sent: if the bucket was healthy at first, then after any sequence of
  commands a restore that reports success has applied the streams that \<open>zfs send\<close> wrote for
  the snapshot and its ancestors, byte for byte, the full stream first and each increment on its base, all
  of backups that are listed; the last is the snapshot with the name asked for, and no other bears it.\<close>

theorem restore_returns_original:
  assumes "receiver be view st h written applied" "tg_store t = st" "codec_ok cd"
    and "(command be view st (tg_prefix t) cd (ho_blake3 h) orig)\<^sup>*\<^sup>* s0 s"
    and "healthy cd (ho_blake3 h) orig (tg_prefix t) (view (ext s0))" "\<And>xs. mset (arrival xs) = mset xs"
    and "receive_run (co_dec cd) arrival ready h t snap to force win s = (Inr tot, s')"
  shows "\<exists>ms m. is_chain ms \<and> (\<forall>x \<in> set ms. listed (co_dec cd) (tg_prefix t) (view (ext s)) x) \<and>
    mf_snapshot m = snap \<and> listed (co_dec cd) (tg_prefix t) (view (ext s)) m \<and>
    (\<forall>x. listed (co_dec cd) (tg_prefix t) (view (ext s)) x \<longrightarrow> mf_snapshot x = snap \<longrightarrow> x = m) \<and>
    mf_snapshot_guid (last ms) = mf_snapshot_guid m \<and>
    applied (ext s') = applied (ext s) @
      map (\<lambda>x. orig (mf_snapshot_guid x) (mf_from_guid x) (mf_send_flags x)) ms"
proof -
  have arr: "set (arrival xs) = set xs" for xs using assms(6) mset_eq_setD by blast
  have "healthy cd (ho_blake3 h) orig (tg_prefix t) (view (ext s))"
    using commands_healthy [OF receiver.axioms(1) [OF assms(1)] assms(3,4,5)] .
  from restore_from_healthy [OF assms(1,2) this arr assms(7)] show ?thesis .
qed

theorem restore_returns_original_witness:
  "\<exists>tot s' flags. receive_run (co_dec full_codec) rev (\<lambda>_. []) (mem_host []) mem_target ''tank/a@1'' ''b'' False 16
     (snd first_run) = (Inr tot, s') \<and>
   me_applied (ext s') = me_applied (ext (snd first_run)) @ [sample_orig (Guid 16) None flags]"
proof -
  let ?v = "mem_view (ext (snd first_run))"
  obtain m where only: "\<And>x. listed (co_dec full_codec) ''t'' ?v x \<longleftrightarrow> x = m" and
    m: "mf_snapshot m = ''tank/a@1''" "mf_snapshot_guid m = Guid 16" "mf_from_guid m = None"
      "mf_format_version m = FORMAT_VERSION" and
    h: "healthy full_codec digest sample_orig ''t'' ?v" and rd: "readable (co_dec full_codec) ''t'' ?v"
    by (rule first_backup) blast
  have b: "ho_blake3 (mem_host answers) = digest" "tg_prefix mem_target = ''t''" for answers
    by (simp_all add: mem_host_def mem_target_def)
  have "\<exists>tot s'. receive_run (co_dec full_codec) rev (\<lambda>_. []) (mem_host []) mem_target ''tank/a@1'' ''b'' False 16
      (snd first_run) = (Inr tot, s') \<and> faultless (ext s')"
    by (rule mem_restoring.receive_run_completes [where all = "[m]" and m = m and cd = full_codec and orig = sample_orig])
      (simp_all add: b h rd only m first_run_succeeds restorable.full)
  then obtain tot s' where r: "receive_run (co_dec full_codec) rev (\<lambda>_. []) (mem_host []) mem_target ''tank/a@1''
      ''b'' False 16 (snd first_run) = (Inr tot, s')" by blast
  have "command mem_backend mem_view mem_store ''t'' full_codec digest sample_orig (mem_sys [] []) (snd first_run)"
    by (rule command.send [OF mem_sender.sender_axioms b(1) sample_names sample_sends, where arrival = rev and
          a = "sample_args ''tank/a@1''" and picks = "[]" and lands = "[]" and r = "fst first_run"])
      (simp_all add: first_run_def mem_target_def)
  then have run: "(command mem_backend mem_view mem_store (tg_prefix mem_target) full_codec (ho_blake3 (mem_host []))
      sample_orig)\<^sup>*\<^sup>* (mem_sys [] []) (snd first_run)" by (simp add: b)
  have e: "healthy full_codec (ho_blake3 (mem_host [])) sample_orig (tg_prefix mem_target) (mem_view (ext (mem_sys [] [])))"
    by (rule empty_healthy)
  from restore_returns_original [OF mem_receiver.receiver_axioms mem_target_simps(1) full_codec_ok(1) run e mset_rev r]
  obtain ms where ms: "is_chain ms" "\<forall>x \<in> set ms. x = m"
    "me_applied (ext s') = me_applied (ext (snd first_run)) @
      map (\<lambda>x. sample_orig (mf_snapshot_guid x) (mf_from_guid x) (mf_send_flags x)) ms"
    unfolding b only by blast
  have "ms = [m]"
  proof (rule distinct_single)
    show "set ms = {m}" "distinct ms" using ms(1,2) by (cases ms; auto simp: is_chain_def distinct_map)+
  qed
  with ms(3) m r show ?thesis by auto
qed

section \<open>A machine on which nothing fails\<close>

text \<open>C7: A send completes on a machine whose calls succeed (\<open>working\<close>), for a snapshot and arguments that
  pass the checks, without an explicit base, into a readable bucket that holds nothing of the snapshot yet: whatever the
  slicing of the pipe, the number of parallel uploads, the order in which they end and the size of the chunks, the command
  returns success once \<open>zfs send\<close> has written a whole stream and exited with 0.\<close>

theorem send_completes:
  assumes "working be view st h up" "tg_store t = st" "codec_ok cd" "\<And>p. \<exists>x. co_encp cd p = Inr x"
    "\<And>m. \<exists>x. co_enc cd m = Inr x" "tidy (tg_prefix t) (view (ext s))" "readable (co_dec cd) (tg_prefix t) (view (ext s))"
    "\<And>k. below (snapshot_dir (tg_prefix t) (zd_guid ds) (zs_guid snap)) k \<Longrightarrow> view (ext s) k = None"
    "\<And>xs. mset (arrival xs) = mset xs" "up (ext s)" "check_args a = Inr ()" "ag_from a = None"
    "zfs_answers up h (ag_snapshot a) snap ds" "\<And>spec. sp_to spec = ag_snapshot a \<Longrightarrow> whole_child (zsend spec)"
  shows "\<exists>s'. send_run cd arrival h t a zsend picks lands s = (Inr (), s') \<and> up (ext s')"
proof -
  have arr: "set (arrival xs) = set xs" for xs using assms(9) mset_eq_setD by blast
  show ?thesis by (rule working.send_run_succeeds [OF assms(1,4,5,3,2,6,10,7) arr assms(8,11-14)])
qed

theorem send_completes_witness:
  "\<exists>s'. send_run full_codec rev (mem_host sample_answers) mem_target (sample_args ''tank/a@1'') sample_child
     [1, 0] [True, False, True] (mem_sys [] []) = (Inr (), s') \<and> faultless (ext s')"
  by (rule send_completes [OF mem_working.working_axioms mem_target_simps(1) full_codec_ok(1,3,2) sample_bucket(1,2) _
        mset_rev sample_bucket(4) sample_args_ok(1,2) sample_args_answered sample_whole])
    (simp_all add: sample_bucket(3))

text \<open>C8: A restore completes on a machine whose calls succeed (\<open>restoring\<close>), from a healthy and readable bucket
  in which one backup bears the name and its ancestors are all listed: for every readiness of the
  downloads it returns success and has applied, in order, the streams that were sent for the chain that ends in
  that backup.\<close>

theorem restore_completes:
  assumes "restoring be view st h written applied up" "tg_store t = st" "up (ext s)"
    and "healthy cd (ho_blake3 h) orig (tg_prefix t) (view (ext s))" "readable (co_dec cd) (tg_prefix t) (view (ext s))"
    and "\<And>x. x \<in> set all \<longleftrightarrow> listed (co_dec cd) (tg_prefix t) (view (ext s)) x" "distinct (map mf_snapshot_guid all)"
    and "m \<in> set all" "\<And>x. x \<in> set all \<Longrightarrow> mf_snapshot x = mf_snapshot m \<Longrightarrow> x = m" "restorable all m"
    and "\<And>xs. mset (arrival xs) = mset xs"
  shows "\<exists>tot s' ms. receive_run (co_dec cd) arrival ready h t (mf_snapshot m) to force win s = (Inr tot, s') \<and>
    is_chain ms \<and> set ms \<subseteq> set all \<and> mf_snapshot_guid (last ms) = mf_snapshot_guid m \<and>
    applied (ext s') = applied (ext s) @
      map (\<lambda>x. orig (mf_snapshot_guid x) (mf_from_guid x) (mf_send_flags x)) ms"
proof -
  have arr: "set (arrival xs) = set xs" for xs using assms(11) mset_eq_setD by blast
  from restoring.receive_run_completes [OF assms(1,2,4,3,11,5,6,7,8) refl assms(9,10)] obtain tot s' where
    r: "receive_run (co_dec cd) arrival ready h t (mf_snapshot m) to force win s = (Inr tot, s')" by blast
  obtain ms b where ms: "is_chain ms" "\<forall>x \<in> set ms. listed (co_dec cd) (tg_prefix t) (view (ext s)) x"
    "mf_snapshot b = mf_snapshot m" "listed (co_dec cd) (tg_prefix t) (view (ext s)) b"
    "mf_snapshot_guid (last ms) = mf_snapshot_guid b"
    "applied (ext s') = applied (ext s) @ map (\<lambda>x. orig (mf_snapshot_guid x) (mf_from_guid x) (mf_send_flags x)) ms"
    using restore_from_healthy [OF restoring.axioms(1) [OF assms(1)] assms(2,4) arr r] by blast
  have "b = m" using assms(6,9) ms(3,4) by blast
  moreover have "set ms \<subseteq> set all" using ms(2) assms(6) by blast
  ultimately show ?thesis using r ms(1,5,6) by blast
qed

theorem restore_completes_witness:
  "\<exists>tot s' flags. receive_run (co_dec full_codec) rev (\<lambda>_. [True, True]) (mem_host []) mem_target ''tank/a@1'' ''b'' True 0
     (snd first_run) = (Inr tot, s') \<and>
   me_applied (ext s') = me_applied (ext (snd first_run)) @ [sample_orig (Guid 16) None flags]"
proof -
  let ?v = "mem_view (ext (snd first_run))"
  obtain m where only: "\<And>x. listed (co_dec full_codec) ''t'' ?v x \<longleftrightarrow> x = m" and
    m: "mf_snapshot m = ''tank/a@1''" "mf_snapshot_guid m = Guid 16" "mf_from_guid m = None" and
    h: "healthy full_codec digest sample_orig ''t'' ?v" and rd: "readable (co_dec full_codec) ''t'' ?v"
    by (rule first_backup) blast
  have b: "ho_blake3 (mem_host []) = digest" "tg_prefix mem_target = ''t''"
    by (simp_all add: mem_host_def mem_target_def)
  have l: "x \<in> set [m] \<longleftrightarrow> listed (co_dec full_codec) (tg_prefix mem_target) ?v x" for x unfolding b only by simp
  have h': "healthy full_codec (ho_blake3 (mem_host [])) sample_orig (tg_prefix mem_target) ?v" unfolding b by (rule h)
  have rd': "readable (co_dec full_codec) (tg_prefix mem_target) ?v" unfolding b by (rule rd)
  have "distinct (map mf_snapshot_guid [m])" "m \<in> set [m]" "restorable [m] m" "\<And>x. x \<in> set [m] \<Longrightarrow> x = m"
    using m(3) by (auto intro: restorable.full)
  from restore_completes [OF mem_restoring.restoring_axioms mem_target_simps(1) first_run_succeeds(2) h' rd' l this(1,2)
      this(4) this(3) mset_rev, where ready = "\<lambda>_. [True, True]" and to = "''b''" and force = True and win = 0]
  obtain tot s' ms where ms: "receive_run (co_dec full_codec) rev (\<lambda>_. [True, True]) (mem_host []) mem_target
      (mf_snapshot m) ''b'' True 0 (snd first_run) = (Inr tot, s')" "is_chain ms" "set ms \<subseteq> {m}"
    "me_applied (ext s') = me_applied (ext (snd first_run)) @
      map (\<lambda>x. sample_orig (mf_snapshot_guid x) (mf_from_guid x) (mf_send_flags x)) ms" by auto
  have "ms = [m]"
  proof (rule distinct_single)
    show "set ms = {m}" "distinct ms" using ms(2,3) by (cases ms; auto simp: is_chain_def distinct_map)+
  qed
  with ms(1,4) m show ?thesis by (intro exI [of _ tot] exI [of _ s'] exI [of _ "mf_send_flags m"]) simp
qed

end
