(* ===== verification/Checking.thy ===== *)
theory Checking
  imports Working
begin

text \<open>
  When a check succeeds: on a service that answers and keeps its promises the report is \<open>ok\<close>. The service in memory
  answers the requests of the administration client with no support for checksums on upload, and with faults.
\<close>

section \<open>A service that answers\<close>

locale working_service = s3_service be view st wi cl + working_store be view st up
  for be :: "'x backend" and view :: "'x \<Rightarrow> string \<Rightarrow> bytes option" and st :: "'x store"
    and wi :: "'x wire" and cl :: client and up :: "'x \<Rightarrow> bool" +
  assumes up_call: "up x \<Longrightarrow> call_full wi cl op m key q body extra x = (ra, x') \<Longrightarrow> up x'"
    and up_head: "up x \<Longrightarrow> \<exists>a x'. call_full wi cl ''HeadBucket'' ''HEAD'' None [] [] [] x = (Inr a, x')"
    and up_fresh: "up x \<Longrightarrow> wi_uuid wi x = (u, x') \<Longrightarrow> up x'"
    and up_deleted: "up x \<Longrightarrow> \<exists>x'. be_delete be k x = (Inr (), x')"
    and up_multipart: "up x \<Longrightarrow> \<exists>i x'. be_create_multipart be k x = (Inr i, x') \<and> up x'"
    and up_abort: "up x \<Longrightarrow> be_abort_multipart be k i x = (ru, x') \<Longrightarrow> up x'"
begin

sublocale upright: request_invariant wi cl up
  by unfold_locales (auto simp: keeps_def dest: up_call [OF _ prod.collapse [symmetric]] up_fresh fresh_view simp: safe_segment_def)

lemma reach_succeeds:
  assumes "ready s"
  obtains r' s' where "reach_bucket wi cl r s = (Inr r', s')" "ready s'" "re_errors r' = re_errors r"
proof -
  from up_head [OF assms] obtain a x' where "call_full wi cl ''HeadBucket'' ''HEAD'' None [] [] [] (ext s) = (Inr a, x')"
    by blast
  moreover from up_call [OF assms this] have "up x'" .
  moreover define r1 where "r1 = r\<lparr>re_reachable := True, re_credentials_ok := True, re_bucket_exists := True,
      re_latency_ms := Some (of_int ((wi_clock wi x' - wi_clock wi (ext s)) div 1000000))\<rparr>"
  ultimately have "reach_bucket wi cl r s = (Inr r1, s\<lparr>ext := x'\<rparr>)" "re_errors r1 = re_errors r"
    by (cases a; simp add: reach_bucket_def Let_def try_io_def on_ext_def head_bucket_def call_def bind_io_def ret_def)+
  with \<open>up x'\<close> that show ?thesis by simp
qed

lemma settings_succeeds: "succeeds ready (read_settings wi cl r)"
  unfolding read_settings_def Let_def by (intro succeeds_try succeeds_ret upright.keeps_lifted upright.keeps_settings)

lemma judge_succeeds: "succeeds ready (judge_checksums wi cl r)"
  unfolding judge_checksums_def
  by (intro succeeds_try succeeds_ret upright.keeps_lifted upright.keeps_probe_checksums)

lemma delete_succeeds: "succeeds ready (store_delete st k)"
proof (rule succeedsI)
  fix s assume s: "ready s"
  from up_deleted [OF s] obtain x where x: "be_delete be (store_path st k) (ext s) = (Inr (), x)" by blast
  with up_delete [OF s x] show "\<exists>u s'. store_delete st k s = (Inr u, s') \<and> ready s'"
    by (simp add: store_delete_def inner outside_def try_io_def lift_result_def ret_def)
qed

lemma multipart_succeeds:
  assumes "ready s"
  obtains r' s' where "probe_multipart st k r s = ((Inr r' :: 'e + report), s')" "ready s'" "re_errors r' = re_errors r"
proof -
  from up_multipart [OF assms, of "store_path st k"] obtain i x where
    i: "be_create_multipart be (store_path st k) (ext s) = (Inr i, x)" "up x" by blast
  obtain ra s' where a: "store_abort_multipart st k i (s\<lparr>ext := x\<rparr>) = (ra, s')" by fastforce
  have "keeps ready (outside Backend (be_abort_multipart be (store_path st k) i))"
    by (auto simp: keeps_def outside_def up_abort split: prod.split)
  then have "keeps ready (store_abort_multipart st k i)"
    unfolding store_abort_multipart_def inner by (rule keeps_try) (auto split: sum.split store_error.split)
  from keepsD [OF this _ a] i(2) have "ready s'" by simp
  with i a that show ?thesis
    by (cases ra) (simp_all add: probe_multipart_def store_create_multipart_def inner outside_def try_io_def ret_def
        warn_def Let_def)
qed

lemma object_succeeds:
  assumes "ready s" "clean_path k" "contents s k = Some v"
  obtains r' s' where "probe_object st k v r s = ((Inr r' :: 'e + report), s')" "ready s'" "re_errors r' = re_errors r"
proof -
  obtain s1 where g: "store_get st k s = (Inr v, s1)" "ready s1" using get_some [OF assms] by metis
  obtain u s2 where "store_delete st k s1 = (Inr u, s2)" "ready s2" by (rule succeedsE [OF delete_succeeds g(2)])
  with g that show ?thesis by (simp add: probe_object_def Let_def try_io_def ret_def)
qed

lemma store_succeeds:
  assumes "ready s" "clean_path root"
  obtains r' s' where "probe_store wi st (root @ ''/'') r s = ((Inr r' :: 'e + report), s')" "ready s'" "re_errors r' = re_errors r"
proof -
  obtain u x where u: "wi_uuid wi (ext s) = (u, x)" by fastforce
  let ?k = "root @ ''/.probe/'' @ u" and ?v = "name_bytes ''zfsbackup-rs probe''"
  have k: "clean_path ?k" using clean_probe [OF assms(2)] fresh_view [OF u] safe_no_slash by blast
  have "ready (s\<lparr>ext := x\<rparr>)" using up_fresh [OF assms(1) u] by simp
  from succeedsE [OF put_succeeds this] obtain a s1 where p: "store_put st ?k ?v (s\<lparr>ext := x\<rparr>) = (Inr a, s1)" "ready s1" .
  have "contents s1 ?k = Some ?v" using bk.put_ok [OF k p(1)] by simp
  then obtain r2 s2 where
    o: "probe_object st ?k ?v (r\<lparr>re_can_write := True\<rparr>) s1 = ((Inr r2 :: 'e + report), s2)" "ready s2" "re_errors r2 = re_errors r"
    by (rule object_succeeds [OF p(2) k, where r = "r\<lparr>re_can_write := True\<rparr>"]) simp
  obtain u2 x2 where u2: "wi_uuid wi (ext s2) = (u2, x2)" by fastforce
  have "ready (s2\<lparr>ext := x2\<rparr>)" using up_fresh [OF o(2) u2] by simp
  from multipart_succeeds [OF this, of "root @ ''/.probe/'' @ u2 @ ''-mpu''" r2] obtain r3 s3 where
    m: "probe_multipart st (root @ ''/.probe/'' @ u2 @ ''-mpu'') r2 (s2\<lparr>ext := x2\<rparr>) = ((Inr r3 :: 'e + report), s3)"
    "ready s3" "re_errors r3 = re_errors r2" .
  have "probe_store wi st (root @ ''/'') r s = ((Inr r3 :: 'e + report), s3)"
    using u p(1) o(1) u2 m(1) by (simp add: probe_store_def fresh_id_def bind_io_def try_io_def Let_def)
  from that [OF this m(2)] m(3) o(3) show ?thesis by simp
qed

lemma validate_succeeds:
  assumes "ready s" "clean_path root"
  shows "\<exists>r s'. validate wi cl (Some st) (root @ ''/'') s = ((Inr r :: 'e + report), s') \<and> re_ok r \<and> ready s'"
proof -
  let ?r = "report_default\<lparr>re_checked_at := wi_now wi (ext s)\<rparr>"
  obtain r1 s1 where 1: "reach_bucket wi cl ?r s = (Inr r1, s1)" "ready s1" "re_errors r1 = re_errors ?r"
    by (rule reach_succeeds [OF assms(1)])
  obtain r2 s2 where 2: "read_settings wi cl r1 s1 = ((Inr r2 :: 'e + report), s2)" "ready s2"
    by (rule succeedsE [OF settings_succeeds 1(2)])
  from yieldsD [OF read_settings_findings 2(1)] have e2: "re_errors r2 = re_errors r1" by (simp add: same_findings_def)
  obtain r3 s3 where 3: "probe_store wi st (root @ ''/'') r2 s2 = ((Inr r3 :: 'e + report), s3)" "ready s3" "re_errors r3 = re_errors r2"
    by (rule store_succeeds [OF 2(2) assms(2)])
  obtain r4 s4 where 4: "judge_checksums wi cl r3 s3 = ((Inr r4 :: 'e + report), s4)" "ready s4"
    by (rule succeedsE [OF judge_succeeds 3(2)])
  from yieldsD [OF judge_checksums_findings 4(1)] have "re_errors r4 = re_errors r3" by (simp add: same_findings_def)
  with 1 2 3 4 e2 show ?thesis
    by (simp add: validate_def try_io_def bind_io_def ret_def report_default_def)
qed

lemma check_run_succeeds:
  assumes "ready s" "clean_path (key_root (tg_prefix t))" "tg_store t = st"
  shows "\<exists>lines s'. check_run wi (Some cl) label t s = (Inr (lines, Inr ()), s') \<and> ready s'"
proof -
  from validate_succeeds [OF assms(1,2)] obtain r s' where
    "validate wi cl (Some st) (key_root (tg_prefix t) @ ''/'') s = ((Inr r :: store_error + report), s')" "re_ok r" "ready s'" by blast
  with assms(3) show ?thesis
    by (simp add: check_run_def store_validate_def all_manifests_prefix_def err_io_def bind_io_def ret_def)
qed

end

section \<open>The service in memory\<close>

text \<open>It has the bucket; everything else is not implemented. A call that is to fail loses its connection.\<close>

definition mem_answer :: "request \<Rightarrow> response" where
  "mem_answer rq =
     (if rq_method rq = ''HEAD'' then \<lparr>rp_status = 200, rp_headers = [], rp_body = Inr []\<rparr>
      else \<lparr>rp_status = 501, rp_headers = [], rp_body = Inr ''<Code>NotImplemented</Code>''\<rparr>)"

definition mem_send :: "request \<Rightarrow> (mem, string, response) io" where
  "mem_send rq x =
     (case next_fate x of (fate, y) \<Rightarrow>
        (if fate = Works then (Inr (mem_answer rq), y) else (Inl ''connection reset by peer'', y)))"

definition mem_wire :: "mem wire" where
  "mem_wire =
     \<lparr>wi_send = mem_send,
      wi_date = (\<lambda>_. ''20260102T030405Z''),
      wi_now = (\<lambda>_. ''2026-01-02T03:04:05Z''),
      wi_clock = me_clock,
      wi_uuid = (\<lambda>x. (''u-'' @ fmt_radix 10 (me_uuids x), x\<lparr>me_uuids := Suc (me_uuids x)\<rparr>)),
      wi_sha256 = (\<lambda>b. take 32 b),
      wi_hmac = (\<lambda>k b. take 32 (k @ b)),
      wi_hex = concat \<circ> map (\<lambda>b. pad_zero 2 (fmt_radix 16 (unat b))),
      wi_b64 = concat \<circ> map (\<lambda>b. pad_zero 2 (fmt_radix 16 (unat b))),
      wi_crc = (\<lambda>_ b. of_nat (length b)),
      wi_combine = (\<lambda>_ a b _. a + b)\<rparr>"

definition mem_config :: s3_config where
  "mem_config =
     \<lparr>endpoint = ''https://s3.test'', region = ''us-east-1'', bucket = ''b'', access_key_id = ''AK'',
      secret_access_key = ''SK'', path_style = True, allow_http = False, insecure_tls = False,
      sha256_checksums = False, max_retries = 3, retry_timeout_secs = 60, request_timeout_secs = 60\<rparr>"

definition mem_client :: client where
  "mem_client = \<lparr>cl_cfg = mem_config, cl_scheme = ''https'', cl_host = ''s3.test''\<rparr>"

lemma mem_sent_body:
  assumes "call_body mem_wire cl op m key q body ph extra x = (r, x')"
  shows "mem_view x' = mem_view x" "faultless x \<Longrightarrow> faultless x'"
    "m = ''HEAD'' \<Longrightarrow> faultless x \<Longrightarrow> \<exists>a. r = Inr a"
  using assms
  by (auto simp: call_body_def mem_wire_def mem_send_def next_fate_def mem_answer_def build_request_def
      check_response_def Let_def split: prod.splits list.splits if_splits)

lemma mem_sent:
  assumes "call_full mem_wire cl op m key q body extra x = (r, x')"
  shows "mem_view x' = mem_view x" "faultless x \<Longrightarrow> faultless x'" "faultless x \<Longrightarrow> m = ''HEAD'' \<Longrightarrow> \<exists>a. r = Inr a"
  using mem_sent_body [OF assms [unfolded call_full_def]] by auto

lemma safe_drawn: "safe_segment (''u-'' @ fmt_radix 10 n)"
proof -
  have "safe_char c" if "c \<in> set (fmt_radix 10 n)" for c
    using safe_pad [of c 0 n] that by (simp add: pad_zero_def)
  then show ?thesis by (auto simp: safe_segment_def safe_char_def)
qed

lemma mem_drawn:
  assumes "wi_uuid mem_wire x = (u, x')"
  shows "mem_view x' = mem_view x" "safe_segment u" "faultless x \<Longrightarrow> faultless x'"
proof -
  have u: "u = ''u-'' @ fmt_radix 10 (me_uuids x)" "x' = x\<lparr>me_uuids := Suc (me_uuids x)\<rparr>"
    using assms by (auto simp: mem_wire_def)
  then show "mem_view x' = mem_view x" "faultless x \<Longrightarrow> faultless x'" by (simp_all add: mem_view_def)
  from u(1) safe_drawn show "safe_segment u" by (simp only:)
qed

interpretation mem_drawing: request_invariant mem_wire cl "\<lambda>x. mem_view x = b" for cl b
  by unfold_locales
    (auto simp: keeps_def mem_sent(1) [OF prod.collapse [symmetric]] safe_segment_def dest: mem_drawn)

interpretation mem_s3: s3_service mem_backend mem_view mem_store mem_wire cl for cl
proof (unfold_locales, goal_cases)
  case (3 k x ri x')
  then have "mem_read (\<lambda>_. Inr ''upload'') x = (ri, x')" by (simp add: mem_backend_def)
  then show ?case by (rule mem_read_cases(1))
next
  case (4 k i x ru x')
  then have "mem_write id x = (ru, x')" by (simp add: mem_backend_def)
  from mem_write_cases(1) [where g = id, OF this] show ?case by simp
qed (simp_all add: mem_sent(1) mem_drawn)

lemma mem_head: "faultless x \<Longrightarrow> \<exists>a x'. call_full mem_wire cl op ''HEAD'' key q body extra x = (Inr a, x')"
  using mem_sent(3) [OF prod.collapse [symmetric]] by (metis prod.collapse)

interpretation mem_answering: working_service mem_backend mem_view mem_store mem_wire cl faultless for cl
  by unfold_locales
    (simp_all add: mem_backend_def mem_faultless without_def mem_sent mem_drawn mem_head del: split_paired_Ex)

end
