(* ===== verification/Admin_Laws.thy ===== *)
theory Admin_Laws
  imports Admin_Client "HOL-Library.Multiset"
begin

text \<open>
  Laws of the bucket client: what is encoded can be decoded, a query arrives as it was meant,
  the service that checks the signature computes the same one, and the documents of a listing are
  read entry by entry. The service's side is specified here: decoding a query, checking a
  signature, printing a page.
\<close>

section \<open>Percent encoding\<close>

fun uri_decode :: "string \<Rightarrow> string" where
  "uri_decode [] = []"
| "uri_decode (c # s) =
     (if c = CHR ''%''
      then (case s of
              a # b # t \<Rightarrow>
                (case (digit_value 16 a, digit_value 16 b) of
                   (Some x, Some y) \<Rightarrow> char_of (16 * x + y) # uri_decode t
                 | _ \<Rightarrow> c # uri_decode s)
            | _ \<Rightarrow> c # uri_decode s)
      else c # uri_decode s)"

lemma of_char_digits: "(of_char c :: nat) div 16 < 16" "(of_char c :: nat) mod 16 < 16"
proof -
  have "(of_char c :: nat) < 16 * 16" by simp
  then show "(of_char c :: nat) div 16 < 16" by (rule less_mult_imp_div_less)
qed simp

lemma digit_value_upper: "d < 16 \<Longrightarrow> digit_value 16 (upper_digit d) = Some d"
proof -
  assume "d < 16"
  then have "d \<in> set [0..<16]" by simp
  moreover have "\<forall>d \<in> set [0..<16]. digit_value 16 (upper_digit d) = Some d"
    by (simp add: upt_rec digit_value_def upper_digit_def)
  ultimately show ?thesis by blast
qed

lemma uri_decode_percent: "uri_decode (percent c @ s) = c # uri_decode s"
proof -
  note d = of_char_digits [of c]
  have "char_of (16 * (of_char c div 16) + of_char c mod 16 :: nat) = c"
    by (metis char_of_char mult_div_mod_eq)
  then show ?thesis by (simp add: percent_def Let_def digit_value_upper [OF d(1)] digit_value_upper [OF d(2)])
qed

lemma not_unreserved: "\<not> unreserved (CHR ''%'')" "\<not> unreserved (CHR ''&'')" "\<not> unreserved (CHR ''='')"
  "\<not> unreserved (CHR ''?'')" "\<not> unreserved slash"
  by (simp_all add: unreserved_def)

lemma uri_decode_encode: "uri_decode (uri_encode s b @ t) = s @ uri_decode t"
proof (induction s)
  case (Cons c s)
  have e: "uri_encode (c # s) b =
      (if unreserved c then [c] else if c = slash \<and> \<not> b then [slash] else percent c) @ uri_encode s b"
    by (simp add: uri_encode_def)
  show ?case unfolding e append_assoc using Cons not_unreserved
    by (auto simp: uri_decode_percent)
qed (simp add: uri_encode_def)

lemma upper_digit_unreserved: "d < 16 \<Longrightarrow> unreserved (upper_digit d)"
proof -
  assume "d < 16"
  then have "d \<in> set [0..<16]" by simp
  moreover have "\<forall>d \<in> set [0..<16]. unreserved (upper_digit d)"
    by (simp add: upt_rec unreserved_def upper_digit_def)
  ultimately show ?thesis by blast
qed

lemma percent_chars: "c \<in> set (percent x) \<Longrightarrow> unreserved c \<or> c = CHR ''%''"
proof -
  note d = of_char_digits [of x]
  assume "c \<in> set (percent x)"
  with upper_digit_unreserved [OF d(1)] upper_digit_unreserved [OF d(2)] show ?thesis
    by (auto simp: percent_def Let_def)
qed

lemma uri_encode_chars: "c \<in> set (uri_encode s True) \<Longrightarrow> unreserved c \<or> c = CHR ''%''"
  using percent_chars by (fastforce simp: uri_encode_def split: if_splits)

lemma uri_encode_plain: "CHR ''&'' \<notin> set (uri_encode s True)" "CHR ''='' \<notin> set (uri_encode s True)"
  using uri_encode_chars [of _ s] not_unreserved by fastforce+

section \<open>Queries\<close>

lemma split_on_join:
  "xs \<noteq> [] \<Longrightarrow> \<forall>x \<in> set xs. c \<notin> set x \<Longrightarrow> split_on c (join [c] xs) = xs"
  by (induction "[c]" xs rule: join.induct) (simp_all add: split_on_no_sep split_on_append_sep)

lemma key_value_show: "CHR ''='' \<notin> set k \<Longrightarrow> key_value (show_pair (k, v)) = (k, v)"
  by (simp add: key_value_def show_pair_def split_once_append)

lemma encoded_pair_plain:
  assumes "encoded_pair kv = (k, v)"
  shows "CHR ''='' \<notin> set k" "CHR ''&'' \<notin> set (show_pair (k, v))" "show_pair (k, v) \<noteq> []"
  using assms by (auto simp: encoded_pair_def show_pair_def uri_encode_plain split: prod.splits)

text \<open>What the service reads off the wire.\<close>

definition wire_pairs :: "string \<Rightarrow> (string \<times> string) list" where
  "wire_pairs q = (if q = [] then [] else map key_value (split_on (CHR ''&'') q))"

definition query_params :: "string \<Rightarrow> (string \<times> string) list" where
  "query_params q = map (\<lambda>(k, v). (uri_decode k, uri_decode v)) (wire_pairs q)"

lemma wire_pairs_query:
  assumes "\<forall>kv \<in> set (split_on (CHR ''&'') q). kv \<noteq> []"
  shows "wire_pairs (wire_query q) = map encoded_pair (split_on (CHR ''&'') q)"
proof -
  let ?f = "\<lambda>kv. show_pair (encoded_pair kv)" and ?ps = "split_on (CHR ''&'') q"
  have w: "wire_query q = join ''&'' (map ?f ?ps)"
    using assms by (simp add: wire_query_def filter_id_conv [THEN iffD2])
  have plain: "\<forall>x \<in> set (map ?f ?ps). CHR ''&'' \<notin> set x"
    using encoded_pair_plain(2) by (metis (no_types, lifting) imageE list.set_map surj_pair)
  have split: "split_on (CHR ''&'') (wire_query q) = map ?f ?ps"
    unfolding w by (rule split_on_join) (use plain in simp_all)
  have "wire_query q \<noteq> []"
  proof
    assume "wire_query q = []"
    with split have "map ?f ?ps = [[]]" by simp
    then obtain kv where "?f kv = []" by (metis list.inject list.simps(8) list.simps(9) neq_Nil_conv)
    with encoded_pair_plain(3) show False by (metis surj_pair)
  qed
  moreover have "key_value (?f kv) = encoded_pair kv" for kv
    using encoded_pair_plain(1) key_value_show by (cases "encoded_pair kv") auto
  ultimately show ?thesis unfolding wire_pairs_def split by simp
qed

lemma query_params_query:
  assumes "\<forall>kv \<in> set (split_on (CHR ''&'') q). kv \<noteq> []"
  shows "query_params (wire_query q) = map key_value (split_on (CHR ''&'') q)"
proof -
  have "(\<lambda>(k, v). (uri_decode k, uri_decode v)) (encoded_pair kv) = key_value kv" for kv
    using uri_decode_encode [where t = "[]"] by (auto simp: encoded_pair_def split: prod.splits)
  then show ?thesis unfolding query_params_def wire_pairs_query [OF assms] by simp
qed

lemma versions_query_join:
  "versions_query prefix km vm =
     join ''&'' ([''versions='', ''prefix='' @ prefix] @
       (if km = [] then []
        else (''key-marker='' @ km) # (if vm = [] then [] else [''version-id-marker='' @ vm])))"
  by (simp add: versions_query_def)

lemma uploads_query_join:
  "uploads_query prefix km im =
     join ''&'' ([''uploads='', ''prefix='' @ prefix] @
       (if km = [] then [] else [''key-marker='' @ km, ''upload-id-marker='' @ im]))"
  by (simp add: uploads_query_def)

lemma query_params_join:
  assumes "kvs \<noteq> []" "\<forall>kv \<in> set kvs. CHR ''&'' \<notin> set kv \<and> kv \<noteq> []"
  shows "query_params (wire_query (join ''&'' kvs)) = map key_value kvs"
proof -
  have s: "split_on (CHR ''&'') (join ''&'' kvs) = kvs" by (rule split_on_join) (use assms in auto)
  show ?thesis using query_params_query [of "join ''&'' kvs"] assms(2) unfolding s by simp
qed

text \<open>The service reads from the query of a listing what was asked for.\<close>

lemma listing_params:
  assumes "CHR ''&'' \<notin> set p" "CHR ''&'' \<notin> set km" "CHR ''&'' \<notin> set im"
  shows "query_params (wire_query (versions_query p km im)) = (''versions'', []) # (''prefix'', p) #
      (if km = [] then [] else (''key-marker'', km) # (if im = [] then [] else [(''version-id-marker'', im)]))"
    "query_params (wire_query (uploads_query p km im)) = (''uploads'', []) # (''prefix'', p) #
      (if km = [] then [] else [(''key-marker'', km), (''upload-id-marker'', im)])"
proof -
  show "query_params (wire_query (versions_query p km im)) = (''versions'', []) # (''prefix'', p) #
      (if km = [] then [] else (''key-marker'', km) # (if im = [] then [] else [(''version-id-marker'', im)]))"
    unfolding versions_query_join using assms by (subst query_params_join) (auto simp: key_value_def)
  show "query_params (wire_query (uploads_query p km im)) = (''uploads'', []) # (''prefix'', p) #
      (if km = [] then [] else [(''key-marker'', km), (''upload-id-marker'', im)])"
    unfolding uploads_query_join using assms by (subst query_params_join) (auto simp: key_value_def)
qed

section \<open>The signature\<close>

text \<open>Host, path and query of a URL.\<close>

definition url_parts :: "string \<Rightarrow> string \<times> string \<times> string" where
  "url_parts u =
     (case split_scheme u of
        None \<Rightarrow> ([], [], [])
      | Some (_, rest) \<Rightarrow>
          (let (hp, q) = (case split_once (CHR ''?'') rest of Some p \<Rightarrow> p | None \<Rightarrow> (rest, []))
           in (takeWhile (\<lambda>c. c \<noteq> slash) hp, dropWhile (\<lambda>c. c \<noteq> slash) hp, q)))"

definition sorted_query :: "(string \<times> string) list \<Rightarrow> string" where
  "sorted_query ps = join ''&'' (map show_pair (sort ps))"

text \<open>
  The signature that the service computes from the request it has received: over its method, its
  path, its query, its host and all other headers but those the transport adds.
\<close>

definition received_headers :: "string \<Rightarrow> request \<Rightarrow> (string \<times> string) list" where
  "received_headers host rq =
     sort ((''host'', host) #
       filter (\<lambda>(k, _). k \<noteq> ''authorization'' \<and> k \<noteq> ''content-length'') (rq_headers rq))"

definition received_signature :: "'x wire \<Rightarrow> s3_config \<Rightarrow> request \<Rightarrow> string" where
  "received_signature wi cfg rq =
     (case url_parts (rq_url rq) of (host, path, q) \<Rightarrow>
        (let headers = received_headers host rq
         in signature wi cfg (or_empty (map_of headers ''x-amz-date''))
              (canonical_request (rq_method rq) path (sorted_query (wire_pairs q)) headers
                (or_empty (map_of headers ''x-amz-content-sha256'')))))"

lemma split_scheme_http:
  "scheme \<in> {''http'', ''https''} \<Longrightarrow> split_scheme (scheme @ ''://'' @ rest) = Some (scheme, rest)"
  by (auto simp: split_scheme_def starts_with_def)

lemma split_once_first: "c \<notin> set a \<Longrightarrow> split_once c (a @ [c] @ b) = Some (a, b)"
  by (simp add: split_once_append)

lemma url_parts_url:
  assumes "cl_scheme cl \<in> {''http'', ''https''}" "slash \<notin> set host" "CHR ''?'' \<notin> set host"
    "CHR ''?'' \<notin> set path" "path \<noteq> []" "hd path = slash"
  shows "url_parts (request_url cl host path q) = (host, path, wire_query q)"
proof -
  let ?hp = "host @ path"
  obtain p where p: "path = slash # p" using assms(5,6) by (metis list.collapse)
  have "\<forall>x \<in> set host. x \<noteq> slash" using assms(2) by auto
  then have hp: "takeWhile (\<lambda>c. c \<noteq> slash) ?hp = host" "dropWhile (\<lambda>c. c \<noteq> slash) ?hp = path"
    unfolding p by (simp_all add: takeWhile_append2 dropWhile_append2)
  have no: "CHR ''?'' \<notin> set ?hp" using assms(3,4) by simp
  show ?thesis
  proof (cases "wire_query q = []")
    case True
    with split_scheme_http [OF assms(1), of ?hp] no hp show ?thesis
      by (simp add: url_parts_def request_url_def split_once_None [THEN iffD2])
  next
    case False
    have "split_once (CHR ''?'') (?hp @ ''?'' @ wire_query q) = Some (?hp, wire_query q)"
      using no by (rule split_once_first)
    with split_scheme_http [OF assms(1), of "?hp @ ''?'' @ wire_query q"] False hp show ?thesis
      by (simp add: url_parts_def request_url_def)
  qed
qed

lemma map_of_unique: "(k, v) \<in> set xs \<Longrightarrow> (\<And>v'. (k, v') \<in> set xs \<Longrightarrow> v' = v) \<Longrightarrow> map_of xs k = Some v"
  by (metis map_of_SomeD map_of_eq_None_iff image_eqI fst_conv not_None_eq)

definition reserved_headers :: "string list" where
  "reserved_headers = [''host'', ''x-amz-content-sha256'', ''x-amz-date'', ''authorization'', ''content-length'']"

definition free_headers :: "(string \<times> string) list \<Rightarrow> bool" where
  "free_headers extra \<longleftrightarrow> (\<forall>kv \<in> set extra. to_ascii_lowercase (fst kv) \<notin> set reserved_headers)"

lemma free_headers_apart:
  assumes "free_headers extra" "kv \<in> (\<lambda>(k, v). (to_ascii_lowercase k, trim v)) ` set extra" "n \<in> set reserved_headers"
  shows "fst kv \<noteq> n"
  using assms by (auto simp: free_headers_def)

lemma set_signed_headers:
  "set (signed_headers host ph date extra) =
     {(''host'', host), (''x-amz-content-sha256'', ph), (''x-amz-date'', date)} \<union>
     (\<lambda>(k, v). (to_ascii_lowercase k, trim v)) ` set extra"
  unfolding signed_headers_def set_sort by simp

lemma signed_reserved:
  assumes "free_headers extra" "(n, v) \<in> set (signed_headers host ph date extra)" "n \<in> set reserved_headers"
  shows "(n, v) \<in> {(''host'', host), (''x-amz-content-sha256'', ph), (''x-amz-date'', date)}"
  using free_headers_apart [OF assms(1) _ assms(3), of "(n, v)"] assms(2) unfolding set_signed_headers fst_conv by blast

lemma signed_headers_values:
  assumes "free_headers extra"
  shows "map_of (signed_headers host ph date extra) ''x-amz-content-sha256'' = Some ph"
    "map_of (signed_headers host ph date extra) ''x-amz-date'' = Some date"
  by (rule map_of_unique; use signed_reserved [OF assms] in \<open>fastforce simp: set_signed_headers reserved_headers_def\<close>)+

lemma received_headers_signed:
  assumes "free_headers extra" "rq_headers rq = (''authorization'', a) #
      filter (\<lambda>(k, _). k \<noteq> ''host'') (signed_headers host ph date extra) @ [(''content-length'', n)]"
  shows "received_headers host rq = signed_headers host ph date extra"
proof -
  define x where "x = map (\<lambda>(k, v). (to_ascii_lowercase k, trim v)) extra"
  define l where "l = (''x-amz-content-sha256'', ph) # (''x-amz-date'', date) # x"
  define H where "H = sort ((''host'', host) # l)"
  let ?ok = "\<lambda>(k, _ :: string). k \<noteq> ''authorization'' \<and> k \<noteq> ''content-length''"
  let ?nh = "\<lambda>(k, _ :: string). k \<noteq> ''host''"
  have s: "signed_headers host ph date extra = H" by (simp only: signed_headers_def append.simps H_def l_def x_def)
  have apart: "fst kv \<noteq> n" if "kv \<in> set x" "n \<in> set reserved_headers" for kv n
    using free_headers_apart [OF assms(1) _ that(2)] that(1) by (simp add: x_def)
  have x: "fst kv \<noteq> ''host''" "fst kv \<noteq> ''authorization''" "fst kv \<noteq> ''content-length''" if "kv \<in> set x" for kv
    using apart [OF that] by (simp_all add: reserved_headers_def)
  have "filter ?nh x = x" "filter ?ok x = x"
    by (intro filter_True ballI; simp add: case_prod_beta x)+
  then have f: "filter ?nh l = l" "filter ?ok l = l" by (simp_all add: l_def)
  have mH: "mset H = mset ((''host'', host) # l)" unfolding H_def by (rule mset_sort)
  have "mset (filter ?nh H) = mset (filter ?nh ((''host'', host) # l))" unfolding mset_filter mH ..
  also have "filter ?nh ((''host'', host) # l) = l" using f(1) by simp
  finally have nh: "mset (filter ?nh H) = mset l" .
  have "mset (filter ?ok (filter ?nh H)) = mset (filter ?ok l)" unfolding mset_filter [of ?ok] nh ..
  then have "mset ((''host'', host) # filter ?ok (rq_headers rq)) = mset ((''host'', host) # l)"
    unfolding assms(2) s f(2) by simp
  then show ?thesis unfolding received_headers_def s H_def
    by (intro properties_for_sort) (simp_all only: mset_sort sorted_sort)
qed

lemma signature_received:
  assumes "cl_scheme cl \<in> {''http'', ''https''}" "free_headers extra"
    and "addr cl key = (host, path)" "slash \<notin> set host" "CHR ''?'' \<notin> set host" "CHR ''?'' \<notin> set path"
    and "\<forall>kv \<in> set (split_on (CHR ''&'') q). q \<noteq> [] \<longrightarrow> kv \<noteq> []"
  shows "rq_headers (build_request wi cl method key q body ph extra date) ! 0 =
    (''authorization'', ''AWS4-HMAC-SHA256 Credential='' @ access_key_id (cl_cfg cl) @ ''/'' @
       credential_scope (take 8 date) (region (cl_cfg cl)) @ '', SignedHeaders='' @
       header_names (signed_headers host ph date extra) @ '', Signature='' @
       received_signature wi (cl_cfg cl) (build_request wi cl method key q body ph extra date))"
proof -
  let ?rq = "build_request wi cl method key q body ph extra date"
  let ?h = "signed_headers host ph date extra"
  have path: "path \<noteq> []" "hd path = slash"
    using assms(3) by (auto simp: addr_def Let_def split: if_splits option.splits)
  have url: "url_parts (rq_url ?rq) = (host, path, wire_query q)"
    using url_parts_url [OF assms(1,4-6) path] assms(3) by (simp add: build_request_def Let_def)
  have hs: "received_headers host ?rq = ?h"
    by (rule received_headers_signed [OF assms(2)]) (use assms(3) in \<open>simp add: build_request_def Let_def\<close>)
  have q: "sorted_query (wire_pairs (wire_query q)) = canonical_query q"
  proof (cases "q = []")
    case False
    with assms(7) show ?thesis
      by (simp add: wire_pairs_query sorted_query_def canonical_query_def)
  qed (simp add: sorted_query_def canonical_query_def wire_query_def wire_pairs_def)
  have "received_signature wi (cl_cfg cl) ?rq =
      signature wi (cl_cfg cl) date (canonical_request method path (canonical_query q) ?h ph)"
    unfolding received_signature_def url split hs Let_def q signed_headers_values [OF assms(2)] or_empty_def option.case
    by (simp add: build_request_def Let_def assms(3))
  then show ?thesis using assms(3) by (simp add: build_request_def Let_def authorization_def)
qed

end
