(* ===== verification/Listing_Laws.thy ===== *)
theory Listing_Laws
  imports Admin_Laws
begin

text \<open>
  Reading the documents of a paginated listing. A document is text without \<open><\<close> followed by pieces that
  begin with one; on documents of that form the string searches of \<open>xml_tag\<close> and
  \<open>split\<close> find whole tags, so that what the service prints is read back entry by entry, and the loop over the
  pages returns them all.
\<close>

section \<open>Searching marked text\<close>

abbreviation lt :: char where "lt \<equiv> CHR ''<''"

definition marked :: "string list \<Rightarrow> string" where
  "marked bs = concat (map (\<lambda>b. lt # b) bs)"

definition unmarked :: "string list \<Rightarrow> bool" where
  "unmarked bs \<longleftrightarrow> (\<forall>b \<in> set bs. lt \<notin> set b)"

lemma marked_simps [simp]:
  "marked [] = []" "marked (b # bs) = lt # b @ marked bs" "marked (as @ bs) = marked as @ marked bs"
  by (simp_all add: marked_def)

lemma unmarked_simps [simp]:
  "unmarked []" "unmarked (b # bs) \<longleftrightarrow> lt \<notin> set b \<and> unmarked bs" "unmarked (as @ bs) \<longleftrightarrow> unmarked as \<and> unmarked bs"
  by (auto simp: unmarked_def)

lemma starts_with_simps:
  "starts_with [] s" "starts_with (c # p) (d # s) \<longleftrightarrow> c = d \<and> starts_with p s" "\<not> starts_with (c # p) []"
  by (simp_all add: starts_with_def)

lemma starts_with_marked: "lt \<notin> set p \<Longrightarrow> lt \<notin> set b \<Longrightarrow> starts_with p (b @ marked bs) \<longleftrightarrow> starts_with p b"
proof (induction p b rule: strip_prefix.induct)
  case (2 p ps)
  then show ?case by (cases bs) (auto simp: starts_with_simps)
qed (auto simp: starts_with_simps)

lemma find_str_text:
  "lt \<notin> set a \<Longrightarrow> find_str (lt # p) (a @ s) = map_option (\<lambda>i. length a + i) (find_str (lt # p) s)"
  by (cases "find_str (lt # p) s"; induction a) (auto simp: starts_with_simps)

lemma find_str_marked_skip:
  assumes "lt \<notin> set p" "lt \<notin> set b" "\<not> starts_with p b"
  shows "find_str (lt # p) (marked (b # bs)) = map_option (\<lambda>i. Suc (length b) + i) (find_str (lt # p) (marked bs))"
  using assms starts_with_marked [OF assms(1,2), of bs] find_str_text [OF assms(2)]
  by (simp add: starts_with_simps option.map_comp comp_def)

lemma find_str_marked:
  assumes "lt \<notin> set p" "unmarked as" "\<forall>a \<in> set as. \<not> starts_with p a"
  shows "find_str (lt # p) (marked (as @ (p @ v) # bs)) = Some (length (marked as))"
  using assms(2,3)
proof (induction as)
  case Nil
  show ?case by (simp add: starts_with_simps starts_with_iff)
next
  case (Cons a as)
  then have "find_str (lt # p) (marked (a # as @ (p @ v) # bs)) =
      map_option (\<lambda>i. Suc (length a) + i) (find_str (lt # p) (marked (as @ (p @ v) # bs)))"
    by (intro find_str_marked_skip assms(1)) simp_all
  with Cons show ?case by simp
qed

lemma find_str_unmarked:
  "lt \<notin> set p \<Longrightarrow> unmarked as \<Longrightarrow> \<forall>a \<in> set as. \<not> starts_with p a \<Longrightarrow> find_str (lt # p) (marked as) = None"
proof (induction as)
  case (Cons a as)
  then show ?case using find_str_marked_skip [of p a as] by simp
qed simp

text \<open>The value of the first element with the tag.\<close>

lemma xml_tag_marked:
  assumes "lt \<notin> set pre" "unmarked as" "\<forall>a \<in> set as. \<not> starts_with (tag @ ''>'') a" "lt \<notin> set tag" "lt \<notin> set v"
  shows "xml_tag (pre @ marked (as @ (tag @ ''>'' @ v) # (''/'' @ tag @ ''>'') # bs)) tag = Some (trim v)"
proof -
  let ?p = "tag @ ''>''" and ?c = "''/'' @ tag @ ''>''"
  let ?rest = "v @ marked (?c # bs)"
  have o: "''<'' @ tag @ ''>'' = lt # ?p" "''</'' @ tag @ ''>'' = lt # ?c" by simp_all
  have "find_str (lt # ?p) (marked (as @ (?p @ v) # ?c # bs)) = Some (length (marked as))"
    by (rule find_str_marked) (use assms in simp_all)
  then have f: "find_str (lt # ?p) (pre @ marked (as @ (?p @ v) # ?c # bs)) = Some (length pre + length (marked as))"
    unfolding find_str_text [OF assms(1)] by simp
  have d: "drop (length pre + length (marked as) + length (lt # ?p)) (pre @ marked (as @ (?p @ v) # ?c # bs)) = ?rest"
    by simp
  have "find_str (lt # ?c) (marked ([] @ (?c @ []) # bs)) = Some (length (marked []))"
    by (rule find_str_marked) (use assms(4) in simp_all)
  then have c: "find_str (lt # ?c) ?rest = Some (length v)"
    unfolding find_str_text [OF assms(5)] by simp
  show ?thesis unfolding xml_tag_def Let_def o
    using f d c by simp
qed

lemma xml_tag_absent:
  assumes "lt \<notin> set pre" "unmarked as" "\<forall>a \<in> set as. \<not> starts_with (tag @ ''>'') a" "lt \<notin> set tag"
  shows "xml_tag (pre @ marked as) tag = None"
proof -
  have "find_str (lt # tag @ ''>'') (marked as) = None"
    by (rule find_str_unmarked) (use assms in simp_all)
  then show ?thesis by (simp add: xml_tag_def find_str_text [OF assms(1)])
qed

section \<open>Splitting at a tag\<close>

lemma split_str_absent:
  assumes "lt \<notin> set p" "lt \<notin> set pre" "unmarked as" "\<forall>a \<in> set as. \<not> starts_with p a"
  shows "split_str (lt # p) (pre @ marked as) = [pre @ marked as]"
  using find_str_unmarked [OF assms(1,3,4)] find_str_text [OF assms(2)] by (simp add: split_str.simps)

lemma split_str_at:
  assumes "lt \<notin> set p" "lt \<notin> set pre" "unmarked as" "\<forall>a \<in> set as. \<not> starts_with p a"
  shows "split_str (lt # p) (pre @ marked (as @ (p @ v) # bs)) =
    (pre @ marked as) # split_str (lt # p) (v @ marked bs)"
proof -
  have "find_str (lt # p) (pre @ marked (as @ (p @ v) # bs)) = Some (length pre + length (marked as))"
    using find_str_marked [OF assms(1,3,4)] unfolding find_str_text [OF assms(2)] by simp
  then show ?thesis by (subst split_str.simps) simp
qed

text \<open>The first piece reaches at least to the first element that has the tag.\<close>

lemma split_str_first:
  assumes p: "lt \<notin> set p" and pre: "lt \<notin> set pre" and "unmarked bs"
    and as: "unmarked as" "\<forall>a \<in> set as. \<not> starts_with p a"
  shows "\<exists>zs. hd (split_str (lt # p) (pre @ marked (as @ bs))) = pre @ marked (as @ zs)"
  using assms(3) as
proof (induction bs arbitrary: as)
  case Nil
  then show ?case using split_str_absent [OF p pre, of as] by (metis append_Nil2 list.sel(1))
next
  case (Cons b bs)
  show ?case
  proof (cases "starts_with p b")
    case True
    then obtain v where "b = p @ v" by (auto simp: starts_with_iff)
    with split_str_at [OF p pre Cons.prems(2,3), of v bs] show ?thesis by (intro exI [of _ "[]"]) simp
  next
    case False
    with Cons.prems Cons.IH [of "as @ [b]"] obtain zs where
      "hd (split_str (lt # p) (pre @ marked ((as @ [b]) @ bs))) = pre @ marked ((as @ [b]) @ zs)" by auto
    then show ?thesis by (intro exI [of _ "b # zs"]) simp
  qed
qed

section \<open>The documents of a listing\<close>

text \<open>
  An entry of a listing: the tag it is listed under, its key and its version or upload id. The service prints the
  entries of a page one after the other and, before them, whether there is more and where it begins.
\<close>

type_synonym entry = "string \<times> string \<times> string"

definition entry_pieces :: "string \<Rightarrow> entry \<Rightarrow> string list" where
  "entry_pieces id_tag e =
     (case e of (tag, k, i) \<Rightarrow>
        [tag @ ''>'', ''Key>'' @ k, ''/Key>'', id_tag @ ''>'' @ i, ''/'' @ id_tag @ ''>'', ''/'' @ tag @ ''>''])"

definition more_pieces :: "string \<Rightarrow> (string \<times> string) option \<Rightarrow> string list" where
  "more_pieces marker_tag nxt =
     (case nxt of
        None \<Rightarrow> [''IsTruncated>false'', ''/IsTruncated>'']
      | Some (k, i) \<Rightarrow>
          [''IsTruncated>true'', ''/IsTruncated>'', ''NextKeyMarker>'' @ k, ''/NextKeyMarker>'',
           marker_tag @ ''>'' @ i, ''/'' @ marker_tag @ ''>''])"

definition page_text :: "string \<Rightarrow> string \<Rightarrow> entry list \<times> (string \<times> string) option \<Rightarrow> string" where
  "page_text id_tag marker_tag page =
     (case page of (es, nxt) \<Rightarrow>
        marked (''Result>'' # more_pieces marker_tag nxt @ concat (map (entry_pieces id_tag) es) @ [''/Result>'']))"

text \<open>Texts that survive \<open>trim\<close> and hold no tag.\<close>

definition plain_text :: "string \<Rightarrow> bool" where
  "plain_text s \<longleftrightarrow> lt \<notin> set s \<and> trim s = s"

definition plain_entry :: "string set \<Rightarrow> entry \<Rightarrow> bool" where
  "plain_entry tags e \<longleftrightarrow> (case e of (tag, k, i) \<Rightarrow> tag \<in> tags \<and> plain_text k \<and> plain_text i)"

definition entries_under :: "string \<Rightarrow> entry list \<Rightarrow> (string \<times> string) list" where
  "entries_under tag es = map snd (filter (\<lambda>e. fst e = tag) es)"

lemma pieces_marked:
  assumes "plain_entry tags e" "lt \<notin> set id_tag" "\<forall>t \<in> tags. lt \<notin> set t"
  shows "unmarked (entry_pieces id_tag e)"
  using assms by (auto simp: entry_pieces_def plain_entry_def plain_text_def split: prod.splits)

lemma block_pair_entry:
  assumes "plain_text k" "plain_text i" "id_tag = ''VersionId'' \<or> id_tag = ''UploadId''"
  shows "block_pair id_tag (marked ([''Key>'' @ k, ''/Key>'', id_tag @ ''>'' @ i, ''/'' @ id_tag @ ''>''] @ zs)) = Some (k, i)"
proof -
  have lts: "lt \<notin> set k" "lt \<notin> set i" and tr: "trim k = k" "trim i = i"
    using assms(1,2) by (simp_all add: plain_text_def)
  let ?t = "[id_tag @ ''>'' @ i, ''/'' @ id_tag @ ''>''] @ zs"
  have "xml_tag ([] @ marked ([] @ (''Key'' @ ''>'' @ k) # (''/'' @ ''Key'' @ ''>'') # ?t)) ''Key'' = Some (trim k)"
    by (rule xml_tag_marked) (use lts in simp_all)
  moreover have "xml_tag ([] @ marked ([''Key>'' @ k, ''/Key>''] @ (id_tag @ ''>'' @ i) # (''/'' @ id_tag @ ''>'') # zs)) id_tag =
      Some (trim i)"
    by (rule xml_tag_marked) (use lts assms(3) in \<open>auto simp: starts_with_simps\<close>)
  ultimately show ?thesis unfolding block_pair_def using tr by simp
qed


lemma piece_starts:
  assumes "e = (tag, k, i)" "tag \<in> {''Version'', ''DeleteMarker'', ''Upload''}"
    "want \<in> {''Version'', ''DeleteMarker'', ''Upload''}" "id_tag = ''VersionId'' \<or> id_tag = ''UploadId''"
  shows "\<forall>p \<in> set (tl (entry_pieces id_tag e)). \<not> starts_with (want @ ''>'') p"
    "starts_with (want @ ''>'') (hd (entry_pieces id_tag e)) \<longleftrightarrow> tag = want"
  using assms by (auto simp: entry_pieces_def starts_with_simps)

text \<open>What is listed under one tag is read in order, whatever else the page lists.\<close>

lemma block_pairs_entries:
  assumes T: "\<forall>e \<in> set es. plain_entry {''Version'', ''DeleteMarker'', ''Upload''} e"
    and want: "want \<in> {''Version'', ''DeleteMarker'', ''Upload''}"
    and id: "id_tag = ''VersionId'' \<or> id_tag = ''UploadId''"
    and trail: "unmarked trail" "\<forall>a \<in> set trail. \<not> starts_with (want @ ''>'') a"
  shows "lt \<notin> set pre \<Longrightarrow> unmarked as \<Longrightarrow> \<forall>a \<in> set as. \<not> starts_with (want @ ''>'') a \<Longrightarrow>
    block_pairs (lt # want @ ''>'') id_tag (pre @ marked (as @ concat (map (entry_pieces id_tag) es) @ trail)) =
    entries_under want es"
  using T
proof (induction es arbitrary: pre as)
  case Nil
  have p: "lt \<notin> set (want @ ''>'')" using want by auto
  have "unmarked (as @ trail)" "\<forall>a \<in> set (as @ trail). \<not> starts_with (want @ ''>'') a" using Nil trail by auto
  from split_str_absent [OF p Nil(1) this] show ?case
    by (simp add: block_pairs_def entries_under_def List.map_filter_simps)
next
  case (Cons e es)
  obtain tag k i where e: "e = (tag, k, i)" by (cases e)
  from Cons.prems(4) e have tag: "tag \<in> {''Version'', ''DeleteMarker'', ''Upload''}" and
    plain: "plain_text k" "plain_text i" by (auto simp: plain_entry_def)
  note ps = piece_starts [OF e tag want id]
  have un: "unmarked (entry_pieces id_tag e)"
    by (rule pieces_marked [of "{''Version'', ''DeleteMarker'', ''Upload''}"]) (use Cons.prems(4) id in auto)
  have p: "lt \<notin> set (want @ ''>'')" using want by auto
  have ne: "entry_pieces id_tag e \<noteq> []" by (simp add: e entry_pieces_def)
  let ?rest = "concat (map (entry_pieces id_tag) es) @ trail"
  have rest: "unmarked ?rest"
    using Cons.prems(4) trail(1) pieces_marked [of "{''Version'', ''DeleteMarker'', ''Upload''}" _ id_tag] id
    by (auto simp: unmarked_def) 
  show ?case
  proof (cases "tag = want")
    case False
    with ps have "\<forall>a \<in> set (entry_pieces id_tag e). \<not> starts_with (want @ ''>'') a"
      using ne by (metis list.collapse set_ConsD)
    with Cons.IH [of pre "as @ entry_pieces id_tag e"] Cons.prems un show ?thesis
      using False e by (simp add: entries_under_def ball_Un)
  next
    case True
    define t where "t = tl (entry_pieces id_tag e)"
    have pieces: "entry_pieces id_tag e = ((want @ ''>'') @ []) # t"
      by (simp add: t_def e True entry_pieces_def)
    have split: "split_str (lt # want @ ''>'') (pre @ marked (as @ entry_pieces id_tag e @ ?rest)) =
        (pre @ marked as) # split_str (lt # want @ ''>'') ([] @ marked (t @ ?rest))"
      using split_str_at [OF p Cons.prems(1-3), of "[]" "t @ ?rest"] unfolding pieces by simp
    have t_ok: "lt \<notin> set ([] :: string)" "unmarked t" "\<forall>a \<in> set t. \<not> starts_with (want @ ''>'') a"
      using un ne ps(1) by (auto simp: t_def unmarked_def list.set_sel(2))
    obtain zs where hd: "hd (split_str (lt # want @ ''>'') ([] @ marked (t @ ?rest))) = marked (t @ zs)"
      using split_str_first [OF p t_ok(1) rest t_ok(2,3)] unfolding append_Nil by blast
    have tz: "t @ zs = [''Key>'' @ k, ''/Key>'', id_tag @ ''>'' @ i, ''/'' @ id_tag @ ''>''] @ (''/'' @ tag @ ''>'') # zs"
      by (simp add: t_def e entry_pieces_def)
    have "block_pair id_tag (hd (split_str (lt # want @ ''>'') ([] @ marked (t @ ?rest)))) = Some (k, i)"
      unfolding hd tz by (rule block_pair_entry [OF plain id])
    moreover have "split_str (lt # want @ ''>'') ([] @ marked (t @ ?rest)) \<noteq> []"
      by (subst split_str.simps) (simp split: option.splits)
    moreover have "block_pairs (lt # want @ ''>'') id_tag ([] @ marked (t @ ?rest)) = entries_under want es"
      using Cons.IH [OF t_ok] Cons.prems(4) by simp
    ultimately show ?thesis
      unfolding block_pairs_def entries_under_def using split True e
      by (cases "split_str (lt # want @ ''>'') ([] @ marked (t @ ?rest))") (simp_all add: List.map_filter_simps)
  qed
qed

section \<open>Reading pages\<close>

type_synonym page = "entry list \<times> (string \<times> string) option"

definition plain_page :: "string set \<Rightarrow> page \<Rightarrow> bool" where
  "plain_page tags page \<longleftrightarrow>
     (\<forall>e \<in> set (fst page). plain_entry tags e) \<and>
     (case snd page of None \<Rightarrow> True | Some (k, i) \<Rightarrow> k \<noteq> [] \<and> plain_text k \<and> plain_text i)"

lemma more_pieces_marked:
  assumes "plain_page tags (es, nxt)" "marker \<in> {''NextVersionIdMarker'', ''NextUploadIdMarker''}"
    "want \<in> {''Version'', ''DeleteMarker'', ''Upload''}"
  shows "unmarked (''Result>'' # more_pieces marker nxt)"
    "\<forall>a \<in> set (''Result>'' # more_pieces marker nxt). \<not> starts_with (want @ ''>'') a"
  using assms by (auto simp: more_pieces_def plain_page_def plain_text_def starts_with_simps split: option.splits)

lemma block_pairs_page:
  assumes "plain_page {''Version'', ''DeleteMarker'', ''Upload''} (es, nxt)"
    "marker \<in> {''NextVersionIdMarker'', ''NextUploadIdMarker''}"
    "want \<in> {''Version'', ''DeleteMarker'', ''Upload''}" "id_tag = ''VersionId'' \<or> id_tag = ''UploadId''"
  shows "block_pairs (''<'' @ want @ ''>'') id_tag (page_text id_tag marker (es, nxt)) = entries_under want es"
proof -
  have es: "\<forall>e \<in> set es. plain_entry {''Version'', ''DeleteMarker'', ''Upload''} e"
    using assms(1) by (simp add: plain_page_def)
  have trail: "unmarked [''/Result>'']" "\<forall>a \<in> set [''/Result>'']. \<not> starts_with (want @ ''>'') a"
    using assms(3) by (auto simp: starts_with_simps)
  have "block_pairs (lt # want @ ''>'') id_tag ([] @ marked ((''Result>'' # more_pieces marker nxt) @
      concat (map (entry_pieces id_tag) es) @ [''/Result>''])) = entries_under want es"
    by (rule block_pairs_entries [OF es assms(3,4) trail _ more_pieces_marked [OF assms(1-3)]]) simp
  then show ?thesis by (simp add: page_text_def)
qed

lemma trim_words: "trim ''true'' = ''true''" "trim ''false'' = ''false''"
  by code_simp+

lemma more_read:
  assumes "plain_page tags (es, nxt)" "marker \<in> {''NextVersionIdMarker'', ''NextUploadIdMarker''}"
  shows "xml_tag (page_text id_tag marker (es, nxt)) ''IsTruncated'' = Some (if nxt = None then ''false'' else ''true'')"
    "nxt = Some (k, i) \<Longrightarrow> xml_tag (page_text id_tag marker (es, nxt)) ''NextKeyMarker'' = Some k"
    "nxt = Some (k, i) \<Longrightarrow> xml_tag (page_text id_tag marker (es, nxt)) marker = Some i"
proof -
  let ?bs = "concat (map (entry_pieces id_tag) es) @ [''/Result>'']"
  show "xml_tag (page_text id_tag marker (es, nxt)) ''IsTruncated'' = Some (if nxt = None then ''false'' else ''true'')"
  proof (cases nxt)
    case None
    have "xml_tag ([] @ marked ([''Result>''] @ (''IsTruncated'' @ ''>'' @ ''false'') # (''/'' @ ''IsTruncated'' @ ''>'') # ?bs))
        ''IsTruncated'' = Some (trim ''false'')"
      by (rule xml_tag_marked) (simp_all add: starts_with_simps)
    with None show ?thesis by (simp add: page_text_def more_pieces_def trim_words)
  next
    case (Some ki)
    obtain k i where ki: "ki = (k, i)" by fastforce
    have "xml_tag ([] @ marked ([''Result>''] @ (''IsTruncated'' @ ''>'' @ ''true'') # (''/'' @ ''IsTruncated'' @ ''>'') #
        ([''NextKeyMarker>'' @ k, ''/NextKeyMarker>'', marker @ ''>'' @ i, ''/'' @ marker @ ''>''] @ ?bs)))
        ''IsTruncated'' = Some (trim ''true'')"
      by (rule xml_tag_marked) (simp_all add: starts_with_simps)
    with Some ki show ?thesis by (simp add: page_text_def more_pieces_def trim_words)
  qed
next
  let ?bs = "concat (map (entry_pieces id_tag) es) @ [''/Result>'']"
  assume n: "nxt = Some (k, i)"
  with assms(1) have p: "lt \<notin> set k" "lt \<notin> set i" "trim k = k" "trim i = i"
    by (simp_all add: plain_page_def plain_text_def)
  have "xml_tag ([] @ marked ([''Result>'', ''IsTruncated>true'', ''/IsTruncated>''] @
      (''NextKeyMarker'' @ ''>'' @ k) # (''/'' @ ''NextKeyMarker'' @ ''>'') #
      ([marker @ ''>'' @ i, ''/'' @ marker @ ''>''] @ ?bs))) ''NextKeyMarker'' = Some (trim k)"
    by (rule xml_tag_marked) (simp_all add: starts_with_simps p)
  then show "xml_tag (page_text id_tag marker (es, nxt)) ''NextKeyMarker'' = Some k"
    using n p by (simp add: page_text_def more_pieces_def)
  have "xml_tag ([] @ marked ([''Result>'', ''IsTruncated>true'', ''/IsTruncated>'', ''NextKeyMarker>'' @ k, ''/NextKeyMarker>''] @
      (marker @ ''>'' @ i) # (''/'' @ marker @ ''>'') # ?bs)) marker = Some (trim i)"
    by (rule xml_tag_marked) (use assms(2) p in \<open>auto simp: starts_with_simps\<close>)
  then show "xml_tag (page_text id_tag marker (es, nxt)) marker = Some i"
    using n p by (simp add: page_text_def more_pieces_def)
qed

text \<open>The entries the client returns for a page: versions first, then delete markers.\<close>

definition version_pairs :: "page \<Rightarrow> (string \<times> string) list" where
  "version_pairs page = entries_under ''Version'' (fst page) @ entries_under ''DeleteMarker'' (fst page)"

definition upload_pairs :: "page \<Rightarrow> (string \<times> string) list" where
  "upload_pairs page = entries_under ''Upload'' (fst page)"

abbreviation versions_text :: "page \<Rightarrow> string" where
  "versions_text \<equiv> page_text ''VersionId'' ''NextVersionIdMarker''"

abbreviation uploads_text :: "page \<Rightarrow> string" where
  "uploads_text \<equiv> page_text ''UploadId'' ''NextUploadIdMarker''"

abbreviation listed_tags :: "string set" where
  "listed_tags \<equiv> {''Version'', ''DeleteMarker'', ''Upload''}"

lemma versions_read:
  assumes "plain_page listed_tags page"
  shows "version_entries (versions_text page) = version_pairs page" "next_versions (versions_text page) = snd page"
proof -
  obtain es nxt where p: "page = (es, nxt)" by fastforce
  show "version_entries (versions_text page) = version_pairs page"
    using block_pairs_page [of es nxt "''NextVersionIdMarker''" "''Version''" "''VersionId''"]
      block_pairs_page [of es nxt "''NextVersionIdMarker''" "''DeleteMarker''" "''VersionId''"] assms
    by (simp add: p version_entries_def version_pairs_def)
  show "next_versions (versions_text page) = snd page"
    using more_read [of listed_tags es nxt "''NextVersionIdMarker''"] assms
    by (cases nxt) (auto simp: p next_versions_def or_empty_def plain_page_def)
qed

lemma uploads_read:
  assumes "plain_page listed_tags page"
  shows "upload_entries (uploads_text page) = upload_pairs page" "next_uploads (uploads_text page) = snd page"
proof -
  obtain es nxt where p: "page = (es, nxt)" by fastforce
  show "upload_entries (uploads_text page) = upload_pairs page"
    using block_pairs_page [of es nxt "''NextUploadIdMarker''" "''Upload''" "''UploadId''"] assms
    by (simp add: p upload_entries_def upload_pairs_def)
  show "next_uploads (uploads_text page) = snd page"
    using more_read [of listed_tags es nxt "''NextUploadIdMarker''"] assms
    by (cases nxt) (auto simp: p next_uploads_def or_empty_def plain_page_def)
qed

section \<open>The loop over the pages\<close>

text \<open>The service answers a GET of the bucket with this text.\<close>

definition answered :: "'x wire \<Rightarrow> client \<Rightarrow> string \<Rightarrow> string \<Rightarrow> 'x \<Rightarrow> 'x \<Rightarrow> bool" where
  "answered wi cl query text x x' \<longleftrightarrow>
     (\<exists>headers. wi_send wi (build_request wi cl ''GET'' None query [] (wi_hex wi (wi_sha256 wi [])) [] (wi_date wi x)) x =
        (Inr \<lparr>rp_status = 200, rp_headers = headers, rp_body = Inr text\<rparr>, x'))"

text \<open>It answers page after page, each request with the markers of the page before.\<close>

fun served ::
  "'x wire \<Rightarrow> client \<Rightarrow> (string \<Rightarrow> string \<Rightarrow> string) \<Rightarrow> (page \<Rightarrow> string) \<Rightarrow> page list \<Rightarrow> string \<Rightarrow> string \<Rightarrow> 'x \<Rightarrow> 'x \<Rightarrow> bool"
where
  "served wi cl query text [] km im x x' \<longleftrightarrow> False"
| "served wi cl query text (page # pages) km im x x' \<longleftrightarrow>
     (\<exists>y. answered wi cl (query km im) (text page) x y \<and>
        (case snd page of
           None \<Rightarrow> pages = [] \<and> x' = y
         | Some (k, i) \<Rightarrow> served wi cl query text pages k i y x'))"

lemma answered_call:
  "answered wi cl query text x x' \<Longrightarrow> call wi cl op ''GET'' None query [] [] x = (Inr (200, text), x')"
  by (auto simp: answered_def call_def call_full_def call_body_def check_response_def bind_io_def ret_def Let_def)

lemma list_pages_served:
  assumes ask: "\<And>km im x y page. page \<in> set pages \<Longrightarrow> answered wi cl (query km im) (text page) x y \<Longrightarrow>
      ask km im x = (Inr (200, text page), y)"
    and reads: "\<And>page. page \<in> set pages \<Longrightarrow> entries (text page) = pairs page \<and> next_page (text page) = snd page"
  shows "served wi cl query text pages km im x x' \<Longrightarrow>
    list_pages ask entries next_page km im out x = Some (Inr (out @ concat (map pairs pages)), x')"
  using ask reads
proof (induction pages arbitrary: km im x out)
  case (Cons page pages)
  from Cons.prems(1) obtain y where y: "answered wi cl (query km im) (text page) x y" and
    rest: "case snd page of None \<Rightarrow> pages = [] \<and> x' = y | Some (k, i) \<Rightarrow> served wi cl query text pages k i y x'" by auto
  have a: "ask km im x = (Inr (200, text page), y)" using Cons.prems(2) y by simp
  have r: "entries (text page) = pairs page" "next_page (text page) = snd page" using Cons.prems(3) by simp_all
  show ?case
  proof (cases "snd page")
    case None
    with a r rest show ?thesis by (simp add: list_pages.simps [of ask])
  next
    case (Some ki)
    obtain k i where ki: "ki = (k, i)" by fastforce
    from Some ki rest have "served wi cl query text pages k i y x'" by simp
    from Cons.IH [OF this] Cons.prems(2,3) have
      "list_pages ask entries next_page k i (out @ pairs page) y = Some (Inr ((out @ pairs page) @ concat (map pairs pages)), x')"
      by simp
    with a r Some ki show ?thesis by (simp add: list_pages.simps [of ask])
  qed
qed simp

lemma versions_listed:
  assumes "served wi cl (versions_query prefix) versions_text pages [] [] x x'" "\<forall>page \<in> set pages. plain_page listed_tags page"
  shows "list_object_versions wi cl prefix x = Some (Inr (concat (map version_pairs pages)), x')"
  using list_pages_served [OF _ _ assms(1), of "ask_versions wi cl prefix" version_entries version_pairs next_versions "[]"]
    assms(2) versions_read answered_call
  by (fastforce simp: list_object_versions_def ask_versions_def)

lemma uploads_listed:
  assumes "served wi cl (uploads_query prefix) uploads_text pages [] [] x x'" "\<forall>page \<in> set pages. plain_page listed_tags page"
  shows "list_multipart_uploads wi cl prefix x = Some (Inr (concat (map upload_pairs pages)), x')"
  using list_pages_served [OF _ _ assms(1), of "ask_uploads wi cl prefix" upload_entries upload_pairs next_uploads "[]"]
    assms(2) uploads_read answered_call
  by (fastforce simp: list_multipart_uploads_def ask_uploads_def)

end
