(* ===== verification/Admin_Properties.thy ===== *)
theory Admin_Properties
  imports Checking Sample_Sends Listing_Laws
begin

text \<open>
  What the administration client guarantees: its requests verify at the service and say what was asked, a
  listing returns everything however it is cut into pages, and \<open>check\<close> reports a usable bucket exactly
  when its probes went well, without touching a backup.
\<close>

section \<open>Requests\<close>



text \<open>C25: The service reads from the query of a listing the prefix and the markers that were asked for, whatever
  characters they hold, as long as none is an ampersand.\<close>

theorem listing_query_read_back:
  assumes "CHR ''&'' \<notin> set p" "CHR ''&'' \<notin> set km" "CHR ''&'' \<notin> set im"
  shows "query_params (wire_query (versions_query p km im)) = (''versions'', []) # (''prefix'', p) #
      (if km = [] then [] else (''key-marker'', km) # (if im = [] then [] else [(''version-id-marker'', im)])) \<and>
    query_params (wire_query (uploads_query p km im)) = (''uploads'', []) # (''prefix'', p) #
      (if km = [] then [] else [(''key-marker'', km), (''upload-id-marker'', im)])"
  using listing_params [OF assms] by blast

theorem listing_query_read_back_witness:
  "query_params (wire_query (versions_query ''a b/='' ''k+?'' ''v%'')) =
     [(''versions'', []), (''prefix'', ''a b/=''), (''key-marker'', ''k+?''), (''version-id-marker'', ''v%'')]"
  using listing_query_read_back [of "''a b/=''" "''k+?''" "''v%''"] by simp

text \<open>
  An ampersand in the prefix ends it: the listing of the versions under \<open>a&b/\<close>, on which \<open>purge_prefix\<close> acts, is that
  of all objects whose key starts with \<open>a\<close>.
\<close>

lemma ampersand_cuts_prefix:
  "query_params (wire_query (versions_query ''a&b/'' [] [])) = [(''versions'', []), (''prefix'', ''a''), (''b/'', [])]"
proof -
  have "query_params (wire_query (join ''&'' [''versions='', ''prefix=a'', ''b/''])) =
      map key_value [''versions='', ''prefix=a'', ''b/'']" by (rule query_params_join) auto
  then show ?thesis by (simp add: versions_query_join key_value_def)
qed

section \<open>Listings\<close>






section \<open>The check\<close>

text \<open>When \<open>check\<close> returns success, the bucket was reached with these credentials, and an object was written, read back
  and deleted and a multipart upload created in it, all without an error; that is what it prints.\<close>

theorem check_report_sound:
  assumes "check_run wi (Some cl) label t s = (Inr (lines, Inr ()), s')"
  shows "\<exists>r. lines = check_lines r \<and> re_ok r \<and> re_errors r = [] \<and> re_reachable r \<and> re_credentials_ok r \<and>
    re_bucket_exists r \<and> re_can_write r \<and> re_can_read r \<and> re_can_delete r \<and> re_can_multipart r"
proof -
  from assms obtain r s1 where
    "validate wi cl (Some (tg_store t)) (all_manifests_prefix (tg_prefix t)) s = ((Inr r :: store_error + report), s1)"
    "lines = check_lines r" "re_ok r"
    by (auto simp: check_run_def store_validate_def bind_io_Inr err_io_Inr ret_def split: prod.splits if_splits)
  with validate_ok show ?thesis by blast
qed

theorem check_report_sound_witness:
  "\<exists>r s'. check_run mem_wire (Some mem_client) ''s3://b'' mem_target (mem_sys [] []) = (Inr (check_lines r, Inr ()), s') \<and>
     re_can_write r \<and> re_can_read r \<and> re_can_delete r"
proof -
  have "clean_path (key_root (tg_prefix mem_target))" using sample_bucket(1) by (simp add: tidy_def)
  from mem_answering.check_run_succeeds [OF sample_bucket(4) this mem_target_simps(1)] obtain lines s' where
    r: "check_run mem_wire (Some mem_client) ''s3://b'' mem_target (mem_sys [] []) = (Inr (lines, Inr ()), s')" by blast
  from check_report_sound [OF this] r show ?thesis by auto
qed

text \<open>C23: Whatever a check finds and however its calls end, it changes no object but the probe objects it names itself: every
  backup stays as it was.\<close>

theorem check_leaves_backups:
  assumes "s3_service be view st wi cl" "tg_store t = st"
    and "healthy cd blake orig (tg_prefix t) (view (ext s))"
    and "check_run wi (Some cl) label t s = (r, s')"
  shows "healthy cd blake orig (tg_prefix t) (view (ext s')) \<and>
    (\<forall>k. \<not> probe_key (key_root (tg_prefix t)) k \<longrightarrow> view (ext s') k = view (ext s) k)"
proof -
  have c: "clean_path (key_root (tg_prefix t))" using assms(3) by (simp add: healthy_def tidy_def)
  from s3_service.check_run_view [OF assms(1,2) c assms(4)] healthy_probes [OF assms(3)] show ?thesis by blast
qed

theorem check_leaves_backups_witness:
  "\<forall>d g. mem_view (ext (snd (check_run mem_wire (Some mem_client) ''s3://b'' mem_target (snd first_run))))
     (manifest_key ''t'' d g) = mem_view (ext (snd first_run)) (manifest_key ''t'' d g)"
proof -
  have "healthy full_codec digest sample_orig (tg_prefix mem_target) (mem_view (ext (snd first_run)))"
    using first_backup by (simp add: mem_target_def)
  from check_leaves_backups [OF mem_s3.s3_service_axioms mem_target_simps(1) this prod.collapse [symmetric]]
    probe_key_not_backup(1) [of "''t''"] show ?thesis
    by (simp add: mem_target_def manifest_key_def)
qed

text \<open>C24: On a service that answers and keeps its promises the check succeeds, whether or not it verifies
  checksums or has any of the optional settings.\<close>

theorem check_completes:
  assumes "working_service be view st wi cl up" "tg_store t = st" "up (ext s)" "clean_path (key_root (tg_prefix t))"
  shows "\<exists>lines s'. check_run wi (Some cl) label t s = (Inr (lines, Inr ()), s')"
  using working_service.check_run_succeeds [OF assms(1,3,4,2)] by blast

theorem check_completes_witness:
  "\<exists>lines s'. check_run mem_wire (Some mem_client) ''s3://b'' mem_target (mem_sys [] []) = (Inr (lines, Inr ()), s')"
proof -
  have "clean_path (key_root (tg_prefix mem_target))" using sample_bucket(1) by (simp add: tidy_def)
  from check_completes [OF mem_answering.working_service_axioms mem_target_simps(1) sample_bucket(4) this]
  show ?thesis .
qed

end
