(* ===== verification/Wire_Service.thy ===== *)
theory Wire_Service
  imports Lifecycle Listing_Laws
begin

text \<open>
  The store over the requests of the administration client: what a service promises for single requests gives
  the contracts of \<open>Send_Laws\<close> and \<open>Check_Laws\<close> for the whole client. The pages of a listing are
  put together, so that a purge finds every object; and the loop over them ends.
\<close>

section \<open>Clean keys are plain text\<close>

lemma split_on_chars: "c \<in> set k \<Longrightarrow> c = d \<or> (\<exists>seg \<in> set (split_on d k). c \<in> set seg)"
  by (induction k) (auto split: list.splits)

lemma clean_path_chars: "clean_path k \<Longrightarrow> c \<in> set k \<Longrightarrow> safe_char c \<or> c = slash"
  using split_on_chars [of c k slash] by (auto simp: clean_path_def safe_segment_def)

lemma clean_path_not: "clean_path k \<Longrightarrow> \<not> safe_char c \<Longrightarrow> c \<noteq> slash \<Longrightarrow> c \<notin> set k"
  using clean_path_chars by blast

lemma clean_path_not_Nil: "clean_path k \<Longrightarrow> k \<noteq> []"
  by (auto simp: clean_path_def safe_segment_def)

lemma path_char_black:
  assumes "safe_char c \<or> c = slash"
  shows "c \<notin> hd ` set white_space" "c \<notin> last ` set white_space"
proof -
  have "\<forall>w \<in> set white_space. \<not> safe_char (hd w) \<and> hd w \<noteq> slash \<and> \<not> safe_char (last w) \<and> last w \<noteq> slash"
    by code_simp
  with assms show "c \<notin> hd ` set white_space" "c \<notin> last ` set white_space" by blast+
qed

lemma clean_plain:
  assumes "clean_path k"
  shows "plain_text k"
proof -
  have ne: "k \<noteq> []" by (rule clean_path_not_Nil [OF assms])
  have "trim k = k"
    by (rule trim_black; use ne path_char_black clean_path_chars [OF assms] in simp)
  moreover have "lt \<notin> set k" by (rule clean_path_not [OF assms]) (simp_all add: safe_char_def)
  ultimately show ?thesis by (simp add: plain_text_def)
qed

section \<open>What the service promises\<close>

text \<open>
  A page of the keys below \<open>p\<close> after a marker, of a bucket without versioning: it lists those up to the marker of the
  next page, or all of them if there is none.
\<close>

fun key_page :: "(string \<Rightarrow> bytes option) \<Rightarrow> string \<Rightarrow> string \<Rightarrow> page \<Rightarrow> bool" where
  "key_page b p km (es, nxt) \<longleftrightarrow>
     (\<forall>e \<in> set es. \<exists>k. e = (''Version'', k, ''null'') \<and> b k \<noteq> None \<and> below p k \<and> km < k) \<and>
     (\<forall>k. b k \<noteq> None \<longrightarrow> below p k \<longrightarrow> km < k \<longrightarrow> (case nxt of None \<Rightarrow> True | Some (k', _) \<Rightarrow> k \<le> k') \<longrightarrow>
        (''Version'', k, ''null'') \<in> set es) \<and>
     (case nxt of None \<Rightarrow> True | Some (k', i) \<Rightarrow> i = ''null'' \<and> (''Version'', k', ''null'') \<in> set es)"

definition page_start :: "string \<Rightarrow> string \<Rightarrow> bool" where
  "page_start km vm \<longleftrightarrow> km = [] \<and> vm = [] \<or> clean_path km \<and> vm = ''null''"

definition client_store :: "'x backend \<Rightarrow> 'x wire \<Rightarrow> client \<Rightarrow> 'x store" where
  "client_store be wi cl = \<lparr>st_inner = be, st_admin = Some (client_api wi cl)\<rparr>"

text \<open>\<open>pending\<close> counts the multipart uploads that a listing has still to show.\<close>

locale wire_service = s3_backend be view
  for be :: "'x backend" and view :: "'x \<Rightarrow> string \<Rightarrow> bytes option" +
  fixes wi :: "'x wire" and cl :: client and h :: "'x host" and pending :: "'x \<Rightarrow> string \<Rightarrow> string \<Rightarrow> string \<Rightarrow> nat"
  assumes host_sleep: "view (ho_sleep h n x) = view x"
    and host_zfs: "ho_zfs h args x = (out, x') \<Longrightarrow> view x' = view x"
    and host_spawn: "ho_spawn h args x = (rs, x') \<Longrightarrow> view x' = view x"
    and host_uuid: "ho_uuid h x = (i, x') \<Longrightarrow> view x' = view x"
    and wire_uuid: "wi_uuid wi x = (u, x') \<Longrightarrow> view x' = view x \<and> safe_segment u"
    and create_mpu: "be_create_multipart be k x = (ri, x') \<Longrightarrow> view x' = view x"
    and abort_mpu: "be_abort_multipart be k upl x = (ru, x') \<Longrightarrow> view x' = view x"
    and finite_view: "finite (dom (view x))"
    and other_key: "call_body wi cl op m key q body ph extra x = (r, x') \<Longrightarrow>
      (case key of None \<Rightarrow> m \<in> {''HEAD'', ''GET''} | Some p \<Rightarrow> clean_path p) \<Longrightarrow> key \<noteq> Some k \<Longrightarrow> view x' k = view x k"
    and put_sent: "clean_path k \<Longrightarrow> call_body wi cl op ''PUT'' (Some k) [] v ph extra x = (r, x') \<Longrightarrow>
      view x' k = Some v \<or> view x' k = view x k \<and> (\<exists>e. r = Inl e)"
    and delete_sent: "clean_path k \<Longrightarrow> call_body wi cl op ''DELETE'' (Some k) [] v ph extra x = (r, x') \<Longrightarrow>
      view x' k = None \<or> view x' k = view x k \<and> (\<exists>e. r = Inl e)"
    and versions_sent: "clean_path p \<Longrightarrow> clean_below p (view x) \<Longrightarrow> page_start km vm \<Longrightarrow>
      call_body wi cl op ''GET'' None (versions_query (p @ ''/'') km vm) [] ph [] x = (Inr (status, headers, text), x') \<Longrightarrow>
      \<exists>page. key_page (view x) p km page \<and> text = versions_text page"
    and uploads_sent: "clean_path p \<Longrightarrow> CHR ''&'' \<notin> set (km @ im) \<Longrightarrow>
      call_body wi cl op ''GET'' None (uploads_query (p @ ''/'') km im) [] ph [] x = (Inr (status, headers, text), x') \<Longrightarrow>
      next_uploads text = Some (km', im') \<Longrightarrow> CHR ''&'' \<notin> set (km' @ im') \<and> pending x' p km' im' < pending x p km im"
begin

lemma asked:
  assumes "call wi cl op m None q [] [] x = (r, x')" "m \<in> {''HEAD'', ''GET''}"
  shows "view x' = view x" "r = Inr (status, text) \<Longrightarrow>
    \<exists>headers. call_body wi cl op m None q [] (wi_hex wi (wi_sha256 wi [])) [] x = (Inr (status, headers, text), x')"
proof -
  obtain r0 where c: "call_body wi cl op m None q [] (wi_hex wi (wi_sha256 wi [])) [] x = (r0, x')"
    "r = map_sum id (\<lambda>(status, _, text). (status, text)) r0"
    using assms(1) by (auto simp: call_def call_full_def bind_io_def ret_def split: prod.splits sum.splits)
  from other_key [OF c(1)] assms(2) show "view x' = view x" by auto
  from c show "r = Inr (status, text) \<Longrightarrow>
    \<exists>headers. call_body wi cl op m None q [] (wi_hex wi (wi_sha256 wi [])) [] x = (Inr (status, headers, text), x')"
    by (cases r0) auto
qed

lemma at_key:
  assumes "clean_path k" "call_body wi cl op m (Some k) q body ph extra x = (r, x')" "view x' k = y"
  shows "view x' = (view x)(k := y)"
proof
  show "view x' k' = ((view x)(k := y)) k'" for k'
    using other_key [OF assms(2), of k'] assms(1,3) by (cases "k' = k") auto
qed

lemma put_checked:
  assumes "clean_path k" "put_object_crc32c wi cl k v c x = (r, x')"
  shows "view x' = view x \<or> view x' = (view x)(k \<mapsto> v)" "r = Inr u \<Longrightarrow> view x' = (view x)(k \<mapsto> v)"
proof -
  obtain extra r0 where c: "call_body wi cl ''PutObject'' ''PUT'' (Some k) [] v ''UNSIGNED-PAYLOAD'' extra x = (r0, x')"
    "r = Inr u \<Longrightarrow> \<exists>a. r0 = Inr a"
    using assms(2) by (auto simp: put_object_crc32c_def call_unsigned_def bind_io_def Let_def ret_def throw_def
        split: prod.splits sum.splits if_splits)
  from put_sent [OF assms(1) c(1)] at_key [OF assms(1) c(1)] c(2)
  show "view x' = view x \<or> view x' = (view x)(k \<mapsto> v)" "r = Inr u \<Longrightarrow> view x' = (view x)(k \<mapsto> v)"
    by fastforce+
qed

lemma delete_checked:
  assumes "clean_path k" "sole_version ver" "delete_version wi cl k ver x = (r, x')"
  shows "view x' = view x \<or> view x' = (view x)(k := None)" "r = Inr u \<Longrightarrow> view x' = (view x)(k := None)"
proof -
  have q: "(if ver = [] \<or> ver = ''null'' then [] else ''versionId='' @ ver) = []"
    using assms(2) by (simp add: sole_version_def)
  obtain ph r0 where c: "call_body wi cl ''DeleteObject'' ''DELETE'' (Some k) [] [] ph [] x = (r0, x')"
    "r = Inr u \<Longrightarrow> \<exists>a. r0 = Inr a"
    using assms(3) unfolding delete_version_def q
    by (auto simp: call_def call_full_def bind_io_def Let_def ret_def split: prod.splits sum.splits)
  from delete_sent [OF assms(1) c(1)] at_key [OF assms(1) c(1)] c(2)
  show "view x' = view x \<or> view x' = (view x)(k := None)" "r = Inr u \<Longrightarrow> view x' = (view x)(k := None)"
    by fastforce+
qed

section \<open>Listings\<close>

text \<open>The keys below \<open>p\<close> that come after a marker.\<close>

definition keys_after :: "string \<Rightarrow> string \<Rightarrow> 'x \<Rightarrow> string set" where
  "keys_after p km x = {k. view x k \<noteq> None \<and> below p k \<and> km < k}"

lemma finite_keys_after: "finite (keys_after p km x)"
  by (rule finite_subset [OF _ finite_view [of x]]) (auto simp: keys_after_def dom_def)

abbreviation sole_versions :: "string set \<Rightarrow> (string \<times> string) set" where
  "sole_versions ks \<equiv> (\<lambda>k. (k, ''null'')) ` ks"

lemma page_read:
  assumes "key_page (view x) p km page" "clean_below p (view x)"
  shows "plain_page listed_tags page" "set (version_pairs page) \<subseteq> sole_versions (keys_after p km x)"
    "snd page = None \<Longrightarrow> set (version_pairs page) = sole_versions (keys_after p km x)"
    "snd page = Some (k', i) \<Longrightarrow> i = ''null'' \<and> k' \<in> keys_after p km x \<and> clean_path k' \<and>
      sole_versions (keys_after p km x - keys_after p k' x) \<subseteq> set (version_pairs page)"
proof -
  obtain es nxt where page: "page = (es, nxt)" by fastforce
  have es: "\<exists>k. e = (''Version'', k, ''null'') \<and> k \<in> keys_after p km x" if "e \<in> set es" for e
    using assms(1) that unfolding page key_page.simps keys_after_def by blast
  have listed: "(''Version'', k, ''null'') \<in> set es"
    if "k \<in> keys_after p km x" "case nxt of None \<Rightarrow> True | Some (k', _) \<Rightarrow> k \<le> k'" for k
    using assms(1) that by (simp add: page keys_after_def)
  have marker: "i = ''null'' \<and> (''Version'', k', ''null'') \<in> set es" if "nxt = Some (k', i)" for k' i
    using assms(1) that by (simp add: page)
  have clean: "clean_path k" if "k \<in> keys_after p km x" for k
    using assms(2) that by (simp add: keys_after_def clean_below_def)
  have null: "plain_text ''null''" by (simp add: plain_text_def trim_black white_space_def)
  have "plain_entry listed_tags e" if "e \<in> set es" for e
    using es [OF that] clean clean_plain null by (auto simp: plain_entry_def)
  moreover have "case nxt of None \<Rightarrow> True | Some (k, i) \<Rightarrow> k \<noteq> [] \<and> plain_text k \<and> plain_text i"
  proof (cases nxt)
    case (Some ki)
    obtain k where n: "nxt = Some (k, ''null'')" using Some marker by (cases ki) auto
    from marker [OF n] es have "clean_path k" using clean by blast
    with n clean_plain clean_path_not_Nil null show ?thesis by simp
  qed simp
  ultimately show "plain_page listed_tags page" by (simp add: plain_page_def page)
  have "filter (\<lambda>e. fst e = ''Version'') es = es" "filter (\<lambda>e. fst e = ''DeleteMarker'') es = []"
    using es by (force simp: filter_empty_conv intro!: filter_True)+
  then have pairs: "set (version_pairs page) = snd ` set es" by (simp add: version_pairs_def entries_under_def page)
  have listed: "(k, ''null'') \<in> snd ` set es"
    if "k \<in> keys_after p km x" "case nxt of None \<Rightarrow> True | Some (k', _) \<Rightarrow> k \<le> k'" for k
    using listed [OF that] by (rule image_eqI [rotated]) simp
  show sub: "set (version_pairs page) \<subseteq> sole_versions (keys_after p km x)"
  proof
    fix kv assume "kv \<in> set (version_pairs page)"
    then obtain e where e: "e \<in> set es" "kv = snd e" by (auto simp: pairs)
    from es [OF e(1)] obtain k where "e = (''Version'', k, ''null'')" "k \<in> keys_after p km x" by blast
    with e(2) show "kv \<in> sole_versions (keys_after p km x)" by simp
  qed
  show "set (version_pairs page) = sole_versions (keys_after p km x)" if "snd page = None"
    using sub listed that unfolding pairs by (auto simp: page)
  show "i = ''null'' \<and> k' \<in> keys_after p km x \<and> clean_path k' \<and>
      sole_versions (keys_after p km x - keys_after p k' x) \<subseteq> set (version_pairs page)" if "snd page = Some (k', i)"
  proof -
    have n: "nxt = Some (k', i)" using that page by simp
    from es marker [OF n] have k': "k' \<in> keys_after p km x" by blast
    moreover have "k \<le> k'" if "k \<in> keys_after p km x - keys_after p k' x" for k
      using that by (auto simp: keys_after_def)
    ultimately have "(k, ''null'') \<in> snd ` set es" if "k \<in> keys_after p km x - keys_after p k' x" for k
      using listed [of k] n that by simp
    with k' marker [OF n] clean show ?thesis by (auto simp: pairs)
  qed
qed

text \<open>Whatever the service answers, the loop over the pages ends, and what it returns is exactly what is stored.\<close>

lemma versions_listing:
  assumes p: "clean_path p"
  shows "page_start km vm \<Longrightarrow> clean_below p (view x) \<Longrightarrow>
    \<exists>r x'. list_pages (ask_versions wi cl (p @ ''/'')) version_entries next_versions km vm out x = Some (r, x') \<and>
      view x' = view x \<and> (\<forall>vs. r = Inr vs \<longrightarrow> set vs = set out \<union> sole_versions (keys_after p km x))"
proof (induction "card (keys_after p km x)" arbitrary: x km vm out rule: less_induct)
  case less
  obtain r x' where a: "ask_versions wi cl (p @ ''/'') km vm x = (r, x')" by fastforce
  then have v: "view x' = view x" unfolding ask_versions_def by (rule asked) simp
  show ?case
  proof (cases r)
    case (Inl e)
    with a v show ?thesis by (simp add: list_pages.simps [of "ask_versions wi cl (p @ ''/'')"])
  next
    case (Inr st)
    obtain status doc where st: "st = (status, doc)" by fastforce
    from a Inr st have "\<exists>headers. call_body wi cl ''ListObjectVersions'' ''GET'' None (versions_query (p @ ''/'') km vm) []
        (wi_hex wi (wi_sha256 wi [])) [] x = (Inr (status, headers, doc), x')"
      unfolding ask_versions_def by (intro asked(2)) simp_all
    then obtain page where page: "key_page (view x) p km page" "doc = versions_text page"
      using versions_sent [OF p less.prems(2,1)] by blast
    note R = page_read [OF page(1) less.prems(2)] and V = versions_read [OF page_read(1) [OF page(1) less.prems(2)]]
    show ?thesis
    proof (cases "snd page")
      case None
      with a Inr st v R(3) V page(2) show ?thesis by (simp add: list_pages.simps [of "ask_versions wi cl (p @ ''/'')"])
    next
      case (Some ki)
      then obtain k where ki: "snd page = Some (k, ''null'')" and k: "k \<in> keys_after p km x" "clean_path k"
        and seen: "sole_versions (keys_after p km x - keys_after p k x) \<subseteq> set (version_pairs page)"
        using R(4) by (cases ki) auto
      have sub: "keys_after p k x \<subset> keys_after p km x" using k(1) by (auto simp: keys_after_def)
      have x': "keys_after p k x' = keys_after p k x" using v by (simp add: keys_after_def)
      have "card (keys_after p k x') < card (keys_after p km x)"
        unfolding x' using sub finite_keys_after by (rule psubset_card_mono [rotated])
      from less.hyps [OF this, of "''null''" "out @ version_pairs page"] k(2) less.prems(2) v obtain r2 x2 where
        l: "list_pages (ask_versions wi cl (p @ ''/'')) version_entries next_versions k ''null'' (out @ version_pairs page) x' =
          Some (r2, x2)" "view x2 = view x"
        "\<forall>vs. r2 = Inr vs \<longrightarrow> set vs = set (out @ version_pairs page) \<union> sole_versions (keys_after p k x)"
        unfolding x' by (auto simp: page_start_def)
      have "set (version_pairs page) \<union> sole_versions (keys_after p k x) = sole_versions (keys_after p km x)"
        using seen R(2) sub by blast
      with l a Inr st V page(2) ki show ?thesis
        by (simp add: list_pages.simps [of "ask_versions wi cl (p @ ''/'')" _ _ km] Un_assoc)
    qed
  qed
qed

lemma uploads_listing:
  assumes "clean_path p"
  shows "CHR ''&'' \<notin> set (km @ im) \<Longrightarrow>
    \<exists>r x'. list_pages (ask_uploads wi cl (p @ ''/'')) upload_entries next_uploads km im out x = Some (r, x') \<and> view x' = view x"
proof (induction "pending x p km im" arbitrary: x km im out rule: less_induct)
  case less
  obtain r x' where a: "ask_uploads wi cl (p @ ''/'') km im x = (r, x')" by fastforce
  then have v: "view x' = view x" unfolding ask_uploads_def by (rule asked) simp
  show ?case
  proof (cases r)
    case (Inl e)
    with a v show ?thesis by (simp add: list_pages.simps [of "ask_uploads wi cl (p @ ''/'')"])
  next
    case (Inr st)
    obtain status doc where st: "st = (status, doc)" by fastforce
    from a Inr st have "\<exists>headers. call_body wi cl ''ListMultipartUploads'' ''GET'' None (uploads_query (p @ ''/'') km im) []
        (wi_hex wi (wi_sha256 wi [])) [] x = (Inr (status, headers, doc), x')"
      unfolding ask_uploads_def by (intro asked(2)) simp_all
    then have fewer: "CHR ''&'' \<notin> set (km' @ im') \<and> pending x' p km' im' < pending x p km im" if "next_uploads doc = Some (km', im')" for km' im'
      using uploads_sent [OF assms less.prems _ that] by blast
    show ?thesis
    proof (cases "next_uploads doc")
      case None
      with a Inr st v show ?thesis by (simp add: list_pages.simps [of "ask_uploads wi cl (p @ ''/'')"])
    next
      case (Some ki)
      obtain k i where ki: "ki = (k, i)" by fastforce
      with Some fewer have n: "pending x' p k i < pending x p km im" "CHR ''&'' \<notin> set (k @ i)" by simp_all
      from less.hyps [OF n, of "out @ upload_entries doc"] a Inr st v Some ki show ?thesis
        by (simp add: list_pages.simps [of "ask_uploads wi cl (p @ ''/'')" _ _ km])
    qed
  qed
qed

lemma listing_calls:
  assumes "clean_path p"
  shows "\<exists>r x'. list_multipart_uploads wi cl (p @ ''/'') x = Some (r, x') \<and> view x' = view x"
    "clean_below p (view x) \<Longrightarrow> \<exists>r x'. list_object_versions wi cl (p @ ''/'') x = Some (r, x') \<and> view x' = view x \<and>
      (\<forall>vs. r = Inr vs \<longrightarrow> set vs = sole_versions {k. view x k \<noteq> None \<and> below p k})"
proof -
  show "\<exists>r x'. list_multipart_uploads wi cl (p @ ''/'') x = Some (r, x') \<and> view x' = view x"
    unfolding list_multipart_uploads_def by (rule uploads_listing [OF assms]) simp
  assume clean: "clean_below p (view x)"
  have "keys_after p [] x = {k. view x k \<noteq> None \<and> below p k}"
    by (auto simp: keys_after_def below_def starts_with_iff less_le)
  with versions_listing [OF assms, of "[]" "[]" x "[]"] clean show
    "\<exists>r x'. list_object_versions wi cl (p @ ''/'') x = Some (r, x') \<and> view x' = view x \<and>
      (\<forall>vs. r = Inr vs \<longrightarrow> set vs = sole_versions {k. view x k \<noteq> None \<and> below p k})"
    unfolding list_object_versions_def by (simp add: page_start_def)
qed

lemma client_api_simps:
  "st_inner (client_store be wi cl) = be" "st_admin (client_store be wi cl) = Some a \<longleftrightarrow> a = client_api wi cl"
  "ad_put_object_crc32c (client_api wi cl) = put_object_crc32c wi cl"
  "ad_delete_version (client_api wi cl) = delete_version wi cl"
  "ad_list_versions (client_api wi cl) = (\<lambda>p x. the (list_object_versions wi cl p x))"
  "ad_list_uploads (client_api wi cl) = (\<lambda>p x. the (list_multipart_uploads wi cl p x))"
  by (auto simp: client_store_def client_api_def)

sublocale serving: s3_service be view "client_store be wi cl" wi cl
  using other_key by unfold_locales
    (auto simp: client_api_simps call_full_def wire_uuid create_mpu abort_mpu dest: wire_uuid)

sublocale sending: sender be view "client_store be wi cl" h
proof (unfold_locales, simp_all only: client_api_simps host_sleep host_zfs host_spawn host_uuid abort_mpu, goal_cases)
  case (1 a k v c x r x')
  then show ?case by (intro put_checked(1))
next
  case (2 a k v c x u x')
  then show ?case by (intro put_checked(2)) simp_all
next
  case (3 a p x rv x')
  then show ?case using listing_calls(2) [of p x] by auto
next
  case (4 a p x vs x')
  then obtain r where "list_object_versions wi cl (p @ ''/'') x = Some (r, x')" "r = Inr vs"
    "set vs = sole_versions {k. view x k \<noteq> None \<and> below p k}"
    using listing_calls(2) [of p x] by auto
  with 4(3) show ?case by (auto simp: clean_below_def sole_version_def image_image)
next
  case (5 a k ver x r x')
  then show ?case by (intro delete_checked(1))
next
  case (6 a k ver x u x')
  then show ?case by (intro delete_checked(2)) simp_all
next
  case (7 a p x ru x')
  then show ?case using listing_calls(1) [of p x] by auto
qed

lemma client_keeps: "s3_service be view (client_store be wi cl) wi cl" "sender be view (client_store be wi cl) h"
  by (rule serving.s3_service_axioms sending.sender_axioms)+

end

end
