(* ===== verification/Command_Line.thy ===== *)
theory Command_Line
  imports Wire_Service
begin

text \<open>
  \<open>src/main.rs\<close>: the command line and the dispatch to the commands, and \<open>Store::s3\<close>, which builds the store
  of a target. The parsing of the arguments is \<open>clap\<close>'s: a run starts from what it has parsed. The
  builders of the two S3 clients and all that is outside of the program are the record \<open>world\<close>.
\<close>

section \<open>Building a store\<close>

text \<open>What \<open>AmazonS3Builder\<close> is given.\<close>

record s3_options =
  so_endpoint :: string
  so_region :: string
  so_bucket :: string
  so_access_key_id :: string
  so_secret_access_key :: string
  so_virtual_hosted :: bool
  so_allow_http :: bool
  so_invalid_certificates :: bool
  so_max_retries :: nat
  so_retry_timeout_secs :: u64
  so_request_timeout_secs :: u64
  so_sha256 :: bool

definition s3_options_of :: "s3_config \<Rightarrow> s3_options" where
  "s3_options_of cfg =
     \<lparr>so_endpoint = store_endpoint cfg, so_region = region cfg, so_bucket = bucket cfg,
      so_access_key_id = access_key_id cfg, so_secret_access_key = secret_access_key cfg,
      so_virtual_hosted = (\<not> path_style cfg), so_allow_http = allow_http cfg,
      so_invalid_certificates = insecure_tls cfg, so_max_retries = max_retries cfg,
      so_retry_timeout_secs = retry_timeout_secs cfg, so_request_timeout_secs = request_timeout_secs cfg,
      so_sha256 = sha256_checksums cfg\<rparr>"

record 'x opened =
  op_store :: "'x store"
  op_client :: client
  op_label :: string

definition store_s3 ::
  "(s3_options \<Rightarrow> string + 'x backend) \<Rightarrow> (s3_config \<Rightarrow> string + unit) \<Rightarrow> 'x wire \<Rightarrow> s3_config
     \<Rightarrow> store_error + 'x opened" where
  "store_s3 build http wi cfg =
     bind_result (map_err Config (build (s3_options_of cfg))) (\<lambda>be.
     bind_result (map_err (\<lambda>e. Config (show_admin_error e)) (admin_new http cfg)) (\<lambda>cl.
       Inr \<lparr>op_store = \<lparr>st_inner = be, st_admin = Some (client_api wi cl)\<rparr>, op_client = cl,
            op_label = store_label cfg\<rparr>))"

section \<open>The command line\<close>

datatype cmd =
  CmdSend (cmd_snapshot: string) (cmd_uri: string) (cmd_from: "string option") (cmd_full: bool) (cmd_chunk_size: string)
    (cmd_adaptive: bool) (cmd_min: string) (cmd_max: string) (cmd_parallel: nat)
| CmdReceive (cmd_snapshot: string) (cmd_uri: string) (cmd_to: string) (cmd_force: bool) (cmd_window: nat)
| CmdList (cmd_uri: string) (cmd_dataset: "string option")
| CmdVerify (cmd_snapshot: string) (cmd_uri: string)
| CmdRetention (cmd_uri: string) (cmd_older_than: "string option") (cmd_keep_last: "nat option")
    (cmd_dataset: "string option") (cmd_dry_run: bool)
| CmdCheck (cmd_uri: string)
| CmdClean (cmd_uri: string) (cmd_dry_run: bool)
| CmdPin (cmd_snapshot: string) (cmd_uri: string)
| CmdUnpin (cmd_snapshot: string) (cmd_uri: string)

record cli =
  ci_endpoint :: "string option"
  ci_region :: "string option"
  ci_allow_http :: bool
  ci_insecure_tls :: bool
  ci_zfs :: string
  ci_cmd :: cmd

definition conn_of :: "(string \<Rightarrow> string option) \<Rightarrow> cli \<Rightarrow> conn" where
  "conn_of env c =
     \<lparr>cn_endpoint = ci_endpoint c, cn_region = ci_region c,
      cn_allow_http = (ci_allow_http c \<or> env_enabled env ''ZB_ALLOW_HTTP''),
      cn_insecure_tls = (ci_insecure_tls c \<or> env_enabled env ''ZB_INSECURE_TLS'')\<rparr>"

text \<open>
  The world: the environment, the clients, the machine with its \<open>zfs\<close> executable, the codec, and what
  the scheduler decides: the order in which downloads arrive, which chunks are ready, which uploads end first.
\<close>

record 'x world =
  wo_env :: "string \<Rightarrow> string option"
  wo_s3 :: "s3_options \<Rightarrow> string + 'x backend"
  wo_http :: "s3_config \<Rightarrow> string + unit"
  wo_wire :: "'x wire"
  wo_host :: "string \<Rightarrow> 'x host"
  wo_codec :: codec
  wo_arrival :: "string list \<Rightarrow> string list"
  wo_ready :: "manifest \<Rightarrow> bool list"
  wo_zsend :: "send_spec \<Rightarrow> child"
  wo_picks :: "nat list"
  wo_lands :: "bool list"

text \<open>\<open>target\<close>, with the store it opens; a store starts with checksums switched on.\<close>

definition open_target ::
  "'x world \<Rightarrow> string \<Rightarrow> conn \<Rightarrow> ('x sys, error, 'x target \<times> client \<times> string) io" where
  "open_target wo uri c =
     bind_io (lift_result (target_config (wo_env wo) uri c)) (\<lambda>(cfg, prefix).
     bind_io (lift_result (map_err EStore (store_s3 (wo_s3 wo) (wo_http wo) (wo_wire wo) cfg))) (\<lambda>od s.
       (Inr (\<lparr>tg_store = op_store od, tg_prefix = prefix\<rparr>, op_client od, op_label od), s\<lparr>crc32c_on := True\<rparr>)))"

text \<open>The text of a size that is refused: \<open>{s:?}: {e}\<close>.\<close>

fun show_int_error :: "parse_int_error \<Rightarrow> string" where
  "show_int_error Empty = ''cannot parse integer from empty string''"
| "show_int_error InvalidDigit = ''invalid digit found in string''"
| "show_int_error PosOverflow = ''number too large to fit in target type''"
| "show_int_error NegOverflow = ''number too small to fit in target type''"

definition quoted :: "string \<Rightarrow> string" where
  "quoted s = [CHR 0x22] @ escape_debug s @ [CHR 0x22]"

fun show_size_error :: "size_error \<Rightarrow> string" where
  "show_size_error (BadNumber s e) = quoted s @ '': '' @ show_int_error e"
| "show_size_error (SizeOverflow s) = quoted s @ '': size is larger than u64''"

definition size_arg :: "string \<Rightarrow> error + u64" where
  "size_arg s = map_err (\<lambda>e. Message (show_size_error e)) (parse_size s)"

text \<open>The sizes are read in the order of the fields they fill.\<close>

definition send_args_of ::
  "string \<Rightarrow> string option \<Rightarrow> bool \<Rightarrow> string \<Rightarrow> bool \<Rightarrow> string \<Rightarrow> string \<Rightarrow> nat \<Rightarrow> error + args" where
  "send_args_of snap from_opt full chunk_size adaptive lo hi par =
     bind_result (size_arg chunk_size) (\<lambda>n.
     bind_result (size_arg lo) (\<lambda>l.
     bind_result (size_arg hi) (\<lambda>u.
       Inr \<lparr>ag_snapshot = snap, ag_from = from_opt, ag_full = full, ag_chunk_size = n, ag_adaptive = adaptive,
            ag_min = l, ag_max = u, ag_parallel = par\<rparr>)))"

text \<open>What \<open>retention\<close> refuses before it opens its target.\<close>

definition policy_given :: "string option \<Rightarrow> nat option \<Rightarrow> error + unit" where
  "policy_given older_than keep_last =
     (if older_than = None \<and> keep_last = None then Inl NoPolicy
      else if keep_last = Some 0 \<and> older_than = None then Inl KeepNothing else Inr ())"

definition no_value :: "('w, 'e, 'a) io \<Rightarrow> ('w, 'e, unit) io" where
  "no_value m = bind_io m (\<lambda>_. ret ())"

text \<open>The dispatch, with the order of the checks of each command; what is printed is left out.\<close>

definition run_cli :: "'x world \<Rightarrow> cli \<Rightarrow> ('x sys, error, unit) io" where
  "run_cli wo c =
     (let cd = wo_codec wo; h = wo_host wo (ci_zfs c); arr = wo_arrival wo;
          on_target = (\<lambda>uri f. bind_io (open_target wo uri (conn_of (wo_env wo) c)) (\<lambda>(t, cl, label). f t cl label))
      in case ci_cmd c of
           CmdSend snap uri from_opt full chunk_size adaptive lo hi par \<Rightarrow>
             bind_io (lift_result (send_args_of snap from_opt full chunk_size adaptive lo hi par)) (\<lambda>a.
             bind_io (lift_result (check_args a)) (\<lambda>_.
               on_target uri (\<lambda>t _ _. send_run cd arr h t a (wo_zsend wo) (wo_picks wo) (wo_lands wo))))
         | CmdReceive snap uri to force win \<Rightarrow>
             on_target uri (\<lambda>t _ _. no_value (receive_run (co_dec cd) arr (wo_ready wo) h t snap to force win))
         | CmdList uri only \<Rightarrow> on_target uri (\<lambda>t _ _. no_value (list_run (co_dec cd) arr t only))
         | CmdVerify snap uri \<Rightarrow> on_target uri (\<lambda>t _ _. verify_run (co_dec cd) arr h t snap)
         | CmdRetention uri older keep only dry \<Rightarrow>
             bind_io (lift_result (policy_given older keep)) (\<lambda>_.
               on_target uri (\<lambda>t _ _. retention_run (co_dec cd) arr h t older keep only dry))
         | CmdCheck uri \<Rightarrow>
             on_target uri (\<lambda>t cl label.
               bind_io (check_run (wo_wire wo) (Some cl) label t) (\<lambda>(_, outcome). lift_result outcome))
         | CmdClean uri dry \<Rightarrow> on_target uri (\<lambda>t _ _. no_value (clean_run (co_dec cd) (co_decp cd) h t dry))
         | CmdPin snap uri \<Rightarrow> on_target uri (\<lambda>t _ _. pin_run (co_dec cd) arr t snap True)
         | CmdUnpin snap uri \<Rightarrow> on_target uri (\<lambda>t _ _. pin_run (co_dec cd) arr t snap False))"

section \<open>A run is a step\<close>

lemma open_target_fails:
  "open_target wo uri c s = (Inl e, s') \<Longrightarrow> s' = s"
  by (auto simp: open_target_def bind_io_def lift_result_def split: prod.splits sum.splits)

lemma open_target_Inr:
  assumes "target_config (wo_env wo) uri c = Inr (cfg, P)"
    and "store_s3 (wo_s3 wo) (wo_http wo) (wo_wire wo) cfg = Inr od"
  shows "open_target wo uri c s =
    (Inr (\<lparr>tg_store = op_store od, tg_prefix = P\<rparr>, op_client od, op_label od), s\<lparr>crc32c_on := True\<rparr>)"
  using assms by (simp add: open_target_def bind_io_def lift_result_def map_err_def)

lemma store_s3_client:
  assumes "store_s3 build http wi cfg = Inr od"
  shows "op_store od = client_store (st_inner (op_store od)) wi (op_client od)"
  using assms by (auto simp: store_s3_def client_store_def bind_result_Inr)

text \<open>
  What is assumed of the world for the store that a run opens: promises of the service, request by request, of the
  machine and of the codec. Nothing is assumed of the client.
\<close>

definition world_ok ::
  "'x world \<Rightarrow> 'x opened \<Rightarrow> ('x \<Rightarrow> string \<Rightarrow> bytes option) \<Rightarrow> ('x \<Rightarrow> string \<Rightarrow> string \<Rightarrow> string \<Rightarrow> nat)
     \<Rightarrow> ('x \<Rightarrow> bytes) \<Rightarrow> ('x \<Rightarrow> bytes list) \<Rightarrow> origin \<Rightarrow> (string \<Rightarrow> guid) \<Rightarrow> string \<Rightarrow> bool" where
  "world_ok wo od view pending written applied orig guid_of bin \<longleftrightarrow>
     wire_service (st_inner (op_store od)) view (wo_wire wo) (op_client od) (wo_host wo bin) pending \<and>
     receiver (st_inner (op_store od)) view (op_store od) (wo_host wo bin) written applied \<and>
     codec_ok (wo_codec wo) \<and> names_ok (wo_host wo bin) guid_of \<and> sends_ok orig guid_of (wo_zsend wo) \<and>
     (\<forall>xs. mset (wo_arrival wo xs) = mset xs)"

lemma no_value_run: "no_value m s = (r, s') \<Longrightarrow> \<exists>x. m s = (x, s')"
  by (auto simp: no_value_def bind_io_def ret_def split: prod.splits sum.splits)

lemma run_cli_step:
  assumes cfg: "target_config (wo_env wo) (cmd_uri (ci_cmd c)) (conn_of (wo_env wo) c) = Inr (cfg, P)"
    and od: "store_s3 (wo_s3 wo) (wo_http wo) (wo_wire wo) cfg = Inr od"
    and ok: "world_ok wo od view pending written applied orig guid_of (ci_zfs c)"
    and run: "run_cli wo c s = (r, s')"
  shows "s' = s \<or> command (st_inner (op_store od)) view (op_store od) P (wo_codec wo) (ho_blake3 (wo_host wo (ci_zfs c))) orig
    (s\<lparr>crc32c_on := True\<rparr>) s'"
proof -
  let ?t = "\<lparr>tg_store = op_store od, tg_prefix = P\<rparr>" and ?s = "s\<lparr>crc32c_on := True\<rparr>" and ?h = "wo_host wo (ci_zfs c)"
  let ?cd = "wo_codec wo" and ?arr = "wo_arrival wo"
  let ?step = "command (st_inner (op_store od)) view (op_store od) P ?cd (ho_blake3 ?h) orig ?s"
  have ws: "wire_service (st_inner (op_store od)) view (wo_wire wo) (op_client od) ?h pending"
    using ok by (simp add: world_ok_def)
  have st: "op_store od = client_store (st_inner (op_store od)) (wo_wire wo) (op_client od)" by (rule store_s3_client [OF od])
  have W: "s3_service (st_inner (op_store od)) view (op_store od) (wo_wire wo) (op_client od)"
    "sender (st_inner (op_store od)) view (op_store od) ?h"
    "receiver (st_inner (op_store od)) view (op_store od) ?h written applied"
    "names_ok ?h guid_of" "sends_ok orig guid_of (wo_zsend wo)" "\<forall>xs. mset (?arr xs) = mset xs"
    using wire_service.client_keeps [OF ws] ok unfolding st [symmetric] by (simp_all add: world_ok_def)
  note op = open_target_Inr [OF cfg od]
  have lifted: "s' = s \<or> (\<exists>a. x = Inr a \<and> f a s = (r, s'))" if "bind_io (lift_result x) f s = (r, s')"
    for x :: "error + 'b" and f
    using that by (cases x) (auto simp: bind_io_def lift_result_def)
  show ?thesis
  proof (cases "ci_cmd c")
    case (CmdSend snap uri from_opt full n ad lo hi par)
    from run CmdSend op have "bind_io (lift_result (send_args_of snap from_opt full n ad lo hi par)) (\<lambda>a.
        bind_io (lift_result (check_args a)) (\<lambda>_. bind_io (open_target wo uri (conn_of (wo_env wo) c))
          (\<lambda>(t, cl, label). send_run ?cd ?arr ?h t a (wo_zsend wo) (wo_picks wo) (wo_lands wo)))) s = (r, s')"
      by (simp add: run_cli_def Let_def)
    from lifted [OF this] consider "s' = s" | a where "bind_io (lift_result (check_args a)) (\<lambda>_.
        bind_io (open_target wo uri (conn_of (wo_env wo) c))
          (\<lambda>(t, cl, label). send_run ?cd ?arr ?h t a (wo_zsend wo) (wo_picks wo) (wo_lands wo))) s = (r, s')" by blast
    then show ?thesis
    proof cases
      case 2
      from lifted [OF 2] consider "s' = s" |
        "send_run ?cd ?arr ?h ?t a (wo_zsend wo) (wo_picks wo) (wo_lands wo) ?s = (r, s')"
        using op CmdSend by (auto simp: bind_io_def)
      then show ?thesis
      proof cases
        case 2
        then show ?thesis by (intro disjI2 command.send [OF W(2) refl W(4,5,6)])
      qed simp
    qed simp
  next
    case (CmdReceive snap uri to force win)
    from run CmdReceive op have "no_value (receive_run (co_dec ?cd) ?arr (wo_ready wo) ?h ?t snap to force win) ?s = (r, s')"
      by (simp add: run_cli_def Let_def bind_io_def)
    from no_value_run [OF this] show ?thesis by (elim exE) (rule disjI2, rule command.receive [OF W(3,6)])
  next
    case (CmdList uri only)
    from run CmdList op have "no_value (list_run (co_dec ?cd) ?arr ?t only) ?s = (r, s')"
      by (simp add: run_cli_def Let_def bind_io_def)
    from no_value_run [OF this] show ?thesis by (elim exE) (rule disjI2, rule command.list [OF W(6)])
  next
    case (CmdVerify snap uri)
    from run CmdVerify op have "verify_run (co_dec ?cd) ?arr ?h ?t snap ?s = (r, s')"
      by (simp add: run_cli_def Let_def bind_io_def)
    then show ?thesis by (intro disjI2 command.verify [OF W(6)])
  next
    case (CmdRetention uri older keep only dry)
    from run CmdRetention op have "bind_io (lift_result (policy_given older keep)) (\<lambda>_ s0.
        bind_io (open_target wo uri (conn_of (wo_env wo) c))
          (\<lambda>(t, cl, label). retention_run (co_dec ?cd) ?arr ?h t older keep only dry) s0) s = (r, s')"
      by (simp add: run_cli_def Let_def)
    from lifted [OF this] consider "s' = s" | "retention_run (co_dec ?cd) ?arr ?h ?t older keep only dry ?s = (r, s')"
      using op CmdRetention by (auto simp: bind_io_def)
    then show ?thesis
    proof cases
      case 2
      then show ?thesis by (intro disjI2 command.retention [OF W(6)])
    qed simp
  next
    case (CmdCheck uri)
    from run CmdCheck op obtain rk where "check_run (wo_wire wo) (Some (op_client od)) (op_label od) ?t ?s = (rk, s')"
      by (auto simp: run_cli_def Let_def bind_io_def lift_result_def split: prod.splits sum.splits)
    then show ?thesis by (intro disjI2 command.check [where admin = "Some (op_client od)"]) (use W(1) in simp)
  next
    case (CmdClean uri dry)
    from run CmdClean op have "no_value (clean_run (co_dec ?cd) (co_decp ?cd) ?h ?t dry) ?s = (r, s')"
      by (simp add: run_cli_def Let_def bind_io_def)
    from no_value_run [OF this] show ?thesis by (elim exE) (rule disjI2, rule command.clean)
  next
    case (CmdPin snap uri)
    from run CmdPin op have "pin_run (co_dec ?cd) ?arr ?t snap True ?s = (r, s')"
      by (simp add: run_cli_def Let_def bind_io_def)
    then show ?thesis by (intro disjI2 command.pin [OF W(6)])
  next
    case (CmdUnpin snap uri)
    from run CmdUnpin op have "pin_run (co_dec ?cd) ?arr ?t snap False ?s = (r, s')"
      by (simp add: run_cli_def Let_def bind_io_def)
    then show ?thesis by (intro disjI2 command.pin [OF W(6)])
  qed
qed

end
