(* ===== verification/Http_Bucket.thy ===== *)
theory Http_Bucket
  imports Wire_Service Checking
begin

text \<open>
  A bucket in memory that is reached by requests: the instance on which the promises of \<open>Wire_Service\<close> are kept.
  It answers what the client of \<open>S3_Request\<close> sends, in the documents that \<open>Admin_Client\<close> reads, and a call can be
  lost before or after it has taken effect.
\<close>

section \<open>A bucket in memory behind requests\<close>

text \<open>
  The bucket of \<open>mem_client\<close> at \<open>https://s3.test/b\<close>. It reads the URL it is sent, stores, deletes and lists, two keys at
  a time, and echoes the checksum of an upload.
\<close>

definition bucket_path :: string where
  "bucket_path = ''/b''"

definition next_keys :: "mem \<Rightarrow> string \<Rightarrow> string \<Rightarrow> string list" where
  "next_keys x p km = sort (filter (\<lambda>k. starts_with p k \<and> km < k) (remdups (map fst (me_objects x))))"

definition mem_page :: "mem \<Rightarrow> string \<Rightarrow> string \<Rightarrow> page" where
  "mem_page x p km =
     (let ks = next_keys x p km in
      (map (\<lambda>k. (''Version'', k, ''null'')) (take 2 ks), if length ks \<le> 2 then None else Some (ks ! 1, ''null'')))"

definition accepted :: "nat \<Rightarrow> (string \<times> string) list \<Rightarrow> string \<Rightarrow> response" where
  "accepted status headers doc = \<lparr>rp_status = status, rp_headers = headers, rp_body = Inr doc\<rparr>"

definition refused_request :: response where
  "refused_request = accepted 501 [] ''<Code>NotImplemented</Code>''"

definition echoed_checksum :: "request \<Rightarrow> (string \<times> string) list" where
  "echoed_checksum rq = filter (\<lambda>(k, _). k = ''x-amz-checksum-crc32c'') (rq_headers rq)"

definition serve_bucket :: "request \<Rightarrow> (string \<times> string) list \<Rightarrow> mem \<Rightarrow> response" where
  "serve_bucket rq ps x =
     (let asked = (\<lambda>n. or_empty (map_of ps n)) in
      if rq_method rq = ''HEAD'' then accepted 200 [] []
      else if rq_method rq = ''GET'' \<and> map_of ps ''versions'' \<noteq> None
      then accepted 200 [] (versions_text (mem_page x (asked ''prefix'') (asked ''key-marker'')))
      else if rq_method rq = ''GET'' \<and> map_of ps ''uploads'' \<noteq> None
      then accepted 200 [] (uploads_text ([], None))
      else refused_request)"

definition serve_key :: "request \<Rightarrow> string \<Rightarrow> (string \<times> string) list \<Rightarrow> mem \<Rightarrow> response \<times> mem" where
  "serve_key rq k ps x =
     (if rq_method rq = ''PUT'' \<and> ps = [] then (accepted 200 (echoed_checksum rq) [], with_object k (rq_body rq) x)
      else if rq_method rq = ''DELETE'' \<and> ps = [] then (accepted 204 [] [], without k x)
      else (refused_request, x))"

definition serve :: "request \<Rightarrow> mem \<Rightarrow> response \<times> mem" where
  "serve rq x =
     (case url_parts (rq_url rq) of (_, path, q) \<Rightarrow>
        (case strip_prefix (bucket_path @ ''/'') path of
           Some k \<Rightarrow> serve_key rq k (query_params q) x
         | None \<Rightarrow> (serve_bucket rq (query_params q) x, x)))"

text \<open>A call can fail before or after it has taken effect.\<close>

definition http_send :: "request \<Rightarrow> (mem, string, response) io" where
  "http_send rq x =
     (case next_fate x of (fate, y) \<Rightarrow>
        (case serve rq y of (rp, z) \<Rightarrow>
           (case fate of
              Works \<Rightarrow> (Inr rp, z)
            | FailsBefore \<Rightarrow> (Inl ''connection refused'', y)
            | FailsAfter \<Rightarrow> (Inl ''connection reset by peer'', z))))"

definition http_wire :: "mem wire" where
  "http_wire = mem_wire\<lparr>wi_send := http_send\<rparr>"

lemma sorted_take:
  assumes "sorted ks" "distinct ks" "k \<in> set ks" "k \<le> ks ! i" "i < n" "n \<le> length ks"
  shows "k \<in> set (take n ks)"
proof -
  obtain j where j: "j < length ks" "k = ks ! j" using assms(3) by (metis in_set_conv_nth)
  have "j < n"
  proof (rule ccontr)
    assume "\<not> j < n"
    with assms(5) j have "ks ! i \<le> ks ! j" "ks ! i \<noteq> ks ! j"
      using assms(1,2) by (simp_all add: sorted_nth_mono nth_eq_iff_index_eq)
    with assms(4) j(2) show False by simp
  qed
  with j assms(6) show ?thesis by (auto simp: in_set_conv_nth intro!: exI [of _ j])
qed

lemma mem_page_ok: "key_page (mem_view x) p km (mem_page x (p @ ''/'') km)"
proof -
  define ks where "ks = next_keys x (p @ ''/'') km"
  have ks: "sorted ks" "distinct ks" by (simp_all add: ks_def next_keys_def)
  have "k \<in> set (map fst (me_objects x)) \<longleftrightarrow> mem_view x k \<noteq> None" for k
    by (auto simp: mem_view_def map_of_eq_None_iff)
  then have set: "k \<in> set ks \<longleftrightarrow> mem_view x k \<noteq> None \<and> below p k \<and> km < k" for k
    by (auto simp: ks_def next_keys_def below_def)
  define nxt where "nxt = (if length ks \<le> 2 then None else Some (ks ! 1, ''null''))"
  have upto: "k \<in> set (take 2 ks)" if "k \<in> set ks" "case nxt of None \<Rightarrow> True | Some (k', _) \<Rightarrow> k \<le> k'" for k
    using that sorted_take [OF ks, of k 1 2] by (auto simp: nxt_def split: if_splits)
  have marker: "case nxt of None \<Rightarrow> True | Some (k', i) \<Rightarrow> i = ''null'' \<and> k' \<in> set (take 2 ks)"
    by (auto simp: nxt_def in_set_conv_nth intro!: exI [of _ 1])
  let ?es = "map (\<lambda>k. (''Version'', k, ''null'')) (take 2 ks)"
  have es: "(''Version'', k, ''null'') \<in> set ?es \<longleftrightarrow> k \<in> set (take 2 ks)" for k by auto
  have "\<exists>k. e = (''Version'', k, ''null'') \<and> mem_view x k \<noteq> None \<and> below p k \<and> km < k" if "e \<in> set ?es" for e
    using that set in_set_takeD [of _ 2 ks] by auto
  moreover have "case nxt of None \<Rightarrow> True | Some (k', i) \<Rightarrow> i = ''null'' \<and> (''Version'', k', ''null'') \<in> set ?es"
    unfolding es by (rule marker)
  ultimately have "key_page (mem_view x) p km (?es, nxt)"
    unfolding key_page.simps es using set upto by blast
  then show ?thesis unfolding mem_page_def Let_def ks_def nxt_def .
qed

text \<open>The clients of this bucket.\<close>

definition at_bucket :: "client \<Rightarrow> bool" where
  "at_bucket cl \<longleftrightarrow>
     cl_scheme cl = ''https'' \<and> cl_host cl = ''s3.test'' \<and> slash # bucket (cl_cfg cl) = bucket_path \<and> path_style (cl_cfg cl)"

lemma http_url:
  assumes "at_bucket cl" "case key of None \<Rightarrow> True | Some k \<Rightarrow> clean_path k"
  shows "url_parts (rq_url (build_request wi cl m key q body ph extra date)) =
    (''s3.test'', bucket_path @ (case key of None \<Rightarrow> [] | Some k \<Rightarrow> slash # k), wire_query q)"
proof -
  let ?path = "bucket_path @ (case key of None \<Rightarrow> [] | Some k \<Rightarrow> slash # k)"
  have a: "addr cl key = (''s3.test'', ?path)"
    using assms(1) by (auto simp: addr_def at_bucket_def split: option.split)
  have "CHR ''?'' \<notin> set ?path"
    using assms(2) clean_path_not [of _ "CHR ''?''"] by (auto simp: bucket_path_def safe_char_def split: option.splits)
  then have "url_parts (request_url cl ''s3.test'' ?path q) = (''s3.test'', ?path, wire_query q)"
    using assms(1) by (intro url_parts_url) (simp_all add: at_bucket_def bucket_path_def)
  then show ?thesis by (simp add: build_request_def Let_def a)
qed

lemma http_request:
  "rq_method (build_request wi cl m key q body ph extra date) = m"
  "rq_body (build_request wi cl m key q body ph extra date) = body"
  by (simp_all add: build_request_def Let_def split: prod.split)

lemma no_params: "query_params (wire_query []) = []"
  by (simp add: wire_query_def query_params_def wire_pairs_def)

text \<open>Either the call is lost, before or after it has taken effect, or it is answered.\<close>

lemma http_called:
  assumes "call_body http_wire cl op m key q body ph extra x = (r, x')"
  obtains (lost) e y where "r = Inl e" "mem_view y = mem_view x"
      "x' = y \<or> x' = snd (serve (build_request http_wire cl m key q body ph extra (wi_date http_wire x)) y)"
  | (served) y where "mem_view y = mem_view x"
      "(r, x') = (case serve (build_request http_wire cl m key q body ph extra (wi_date http_wire x)) y of
        (rp, z) \<Rightarrow> (check_response op rp, z))"
proof -
  let ?rq = "build_request http_wire cl m key q body ph extra (wi_date http_wire x)"
  obtain fate y where f: "next_fate x = (fate, y)" by fastforce
  then have y: "mem_view y = mem_view x" by (auto simp: next_fate_def split: list.splits)
  obtain rp z where z: "serve ?rq y = (rp, z)" by fastforce
  from assms f z have "(r, x') = (case fate of Works \<Rightarrow> (check_response op rp, z)
      | FailsBefore \<Rightarrow> (Inl (AdHttp ''connection refused''), y) | FailsAfter \<Rightarrow> (Inl (AdHttp ''connection reset by peer''), z))"
    by (cases fate) (simp_all add: call_body_def http_wire_def http_send_def result_simps split: prod.splits)
  with y z that show ?thesis by (cases fate) auto
qed

text \<open>What a request to an object, and one to the bucket, does.\<close>

lemma served_key:
  assumes "at_bucket cl" "clean_path k"
  shows "serve (build_request wi cl m (Some k) q body ph extra date) x =
    serve_key (build_request wi cl m (Some k) q body ph extra date) k (query_params (wire_query q)) x"
  using assms by (simp add: serve_def http_url bucket_path_def)

lemma served_bucket:
  assumes "at_bucket cl"
  shows "serve (build_request wi cl m None q body ph extra date) x =
    (serve_bucket (build_request wi cl m None q body ph extra date) (query_params (wire_query q)) x, x)"
  using assms by (simp add: serve_def http_url bucket_path_def)

lemma served_uploads:
  assumes "map_of ps ''versions'' = None" "map_of ps ''uploads'' = Some v" "rq_method rq = ''GET''"
  shows "serve_bucket rq ps x = accepted 200 [] (uploads_text ([], None))"
  using assms by (simp add: serve_bucket_def)

lemma accepted_read: "check_response op (accepted 200 hs doc) = Inr (200, hs, doc)"
  by (simp add: check_response_def accepted_def)

lemma http_view:
  assumes "call_body http_wire cl op m key q body ph extra x = (r, x')"
    and "\<And>y date. mem_view y = mem_view x \<Longrightarrow>
      P (mem_view (snd (serve (build_request http_wire cl m key q body ph extra date) y)))"
    and "P (mem_view x)"
  shows "P (mem_view x')"
  using assms(1)
proof (cases rule: http_called)
  case (lost e y)
  with assms(2,3) show ?thesis by metis
next
  case (served y)
  then have "x' = snd (serve (build_request http_wire cl m key q body ph extra (wi_date http_wire x)) y)"
    by (auto split: prod.splits)
  with served(1) assms(2) show ?thesis by simp
qed

lemma http_service:
  assumes at: "at_bucket cl"
  shows "wire_service mem_backend mem_view http_wire cl (mem_host answers) (\<lambda>_ _ _ _. 0)"
proof (unfold_locales, goal_cases)
  case (1 n x)
  then show ?case by (rule mem_frames)
next
  case (2 args x out x')
  then show ?case by (rule mem_frames)
next
  case (3 args x out x')
  then show ?case by (rule mem_frames)
next
  case (4 x i x')
  then show ?case by (rule mem_frames)
next
  case (5 x u x')
  then show ?case using mem_drawn(1,2) [of x u x'] by (simp add: http_wire_def)
next
  case (6 k x ri x')
  then show ?case by (rule mem_s3.multipart_view)
next
  case (7 k upl x ru x')
  then show ?case by (rule mem_frames)
next
  case (8 x)
  show ?case by (simp add: mem_view_def finite_dom_map_of)
next
  case (9 op m key q body ph extra x r x' k)
  show ?case
  proof (rule http_view [OF 9(1)])
    fix y date assume y: "mem_view y = mem_view x"
    show "mem_view (snd (serve (build_request http_wire cl m key q body ph extra date) y)) k = mem_view x k"
    proof (cases key)
      case None
      with y show ?thesis by (simp add: served_bucket [OF at])
    next
      case (Some p)
      with 9(2,3) y show ?thesis by (simp add: served_key [OF at] serve_key_def)
    qed
  qed simp
next
  case (10 k op v ph extra x r x')
  have s: "serve (build_request http_wire cl ''PUT'' (Some k) [] v ph extra date) y =
      (accepted 200 (echoed_checksum (build_request http_wire cl ''PUT'' (Some k) [] v ph extra date)) [], with_object k v y)"
    for date y by (simp add: served_key [OF at 10(1)] serve_key_def http_request no_params)
  from 10(2) show ?case by (cases rule: http_called) (auto simp: s)
next
  case (11 k op v ph extra x r x')
  have s: "serve (build_request http_wire cl ''DELETE'' (Some k) [] v ph extra date) y =
      (accepted 204 [] [], without k y)"
    for date y by (simp add: served_key [OF at 11(1)] serve_key_def http_request no_params)
  from 11(2) show ?case by (cases rule: http_called) (auto simp: s)
next
  case (12 p x km vm op ph status headers doc x')
  have amp: "CHR ''&'' \<notin> set (p @ ''/'')" "CHR ''&'' \<notin> set km" "CHR ''&'' \<notin> set vm"
    using clean_path_not [OF 12(1)] 12(3) clean_path_not [of km] by (auto simp: page_start_def safe_char_def)
  from 12(4) obtain y where y: "mem_view y = mem_view x" "doc = versions_text (mem_page y (p @ ''/'') km)"
    by (cases rule: http_called) (auto simp: served_bucket [OF at] listing_params [OF amp] serve_bucket_def http_request
        check_response_def accepted_def or_empty_def Let_def)
  with mem_page_ok [of y p km] show ?case by metis
next
  case (13 p km im op ph x status headers doc x' km' im')
  have amp: "CHR ''&'' \<notin> set (p @ ''/'')" "CHR ''&'' \<notin> set km" "CHR ''&'' \<notin> set im"
    using clean_path_not [OF 13(1)] 13(2) by (simp_all add: safe_char_def)
  have "map_of (query_params (wire_query (uploads_query (p @ ''/'') km im))) ''versions'' = None"
    "map_of (query_params (wire_query (uploads_query (p @ ''/'') km im))) ''uploads'' = Some []"
    by (simp_all add: listing_params [OF amp])
  note u = served_uploads [OF this http_request(1)]
  from 13(3) have "doc = uploads_text ([], None)"
    by (cases rule: http_called) (simp_all add: served_bucket [OF at] u accepted_read)
  with 13(4) uploads_read(2) [of "([], None)"] show ?case by (simp add: plain_page_def)
qed

lemma at_bucket_mem: "at_bucket mem_client"
  by (simp add: at_bucket_def bucket_path_def mem_client_def mem_config_def)

interpretation http: wire_service mem_backend mem_view http_wire mem_client "mem_host answers" "\<lambda>_ _ _ _. 0" for answers
  by (rule http_service [OF at_bucket_mem])

lemma http_receiver:
  "receiver mem_backend mem_view (client_store mem_backend http_wire cl) (mem_host answers) me_fed me_applied"
  by (intro receiver.intro s3_store.intro mem_s3_backend s3_store_axioms.intro
      mem_receiver.receiver_axioms [unfolded receiver_def, THEN conjunct2])
    (simp add: client_store_def)

end
