(* ===== verification/Cli_Properties.thy ===== *)
theory Cli_Properties
  imports Command_Line Http_Bucket Sample_Sends
begin

text \<open>
  What holds for every run of the program, whatever its command line: it is a step of the relation \<open>command\<close> or
  changes nothing, so the bucket of its target stays healthy; and arguments that are refused touch nothing.
\<close>

text \<open>C3: Every run of the program, whichever command its command line names and however it ends, leaves the bucket of its target
  healthy if it was healthy before: \<open>run\<close> opens the target, dispatches to the command and does nothing else.\<close>

theorem every_run_keeps_healthy:
  assumes "target_config (wo_env wo) (cmd_uri (ci_cmd c)) (conn_of (wo_env wo) c) = Inr (cfg, P)"
    and "store_s3 (wo_s3 wo) (wo_http wo) (wo_wire wo) cfg = Inr od"
    and "world_ok wo od view pending written applied orig guid_of (ci_zfs c)"
    and "healthy (wo_codec wo) (ho_blake3 (wo_host wo (ci_zfs c))) orig P (view (ext s))"
    and "run_cli wo c s = (r, s')"
  shows "healthy (wo_codec wo) (ho_blake3 (wo_host wo (ci_zfs c))) orig P (view (ext s'))"
  using run_cli_step [OF assms(1-3,5)]
proof
  assume "command (st_inner (op_store od)) view (op_store od) P (wo_codec wo) (ho_blake3 (wo_host wo (ci_zfs c))) orig
    (s\<lparr>crc32c_on := True\<rparr>) s'"
  moreover have "s3_store (st_inner (op_store od)) view (op_store od)" "codec_ok (wo_codec wo)"
    using assms(3) by (simp_all add: world_ok_def receiver_def)
  ultimately show ?thesis using command_healthy assms(4) by fastforce
qed (use assms(4) in simp)

text \<open>A world whose service is the bucket in memory, reached by requests.\<close>

definition http_world :: "mem world" where
  "http_world =
     \<lparr>wo_env = map_of [(''AWS_ACCESS_KEY_ID'', ''AK''), (''AWS_SECRET_ACCESS_KEY'', ''SK'')],
      wo_s3 = (\<lambda>_. Inr mem_backend), wo_http = (\<lambda>_. Inr ()), wo_wire = http_wire,
      wo_host = (\<lambda>_. mem_host sample_answers), wo_codec = full_codec, wo_arrival = rev, wo_ready = (\<lambda>_. []),
      wo_zsend = sample_child, wo_picks = [], wo_lands = []\<rparr>"

definition clean_cli :: cli where
  "clean_cli =
     \<lparr>ci_endpoint = Some ''https://s3.test'', ci_region = Some ''us-east-1'', ci_allow_http = False, ci_insecure_tls = False,
      ci_zfs = ''zfs'', ci_cmd = CmdClean ''s3://b/t'' False\<rparr>"

theorem every_run_keeps_healthy_witness:
  "healthy full_codec digest sample_orig ''t'' (mem_view (ext (snd (run_cli http_world clean_cli (snd first_run)))))"
proof -
  have "\<exists>cfg. target_config (wo_env http_world) (cmd_uri (ci_cmd clean_cli)) (conn_of (wo_env http_world) clean_cli) =
      Inr (cfg, ''t'') \<and> endpoint cfg = ''https://s3.test'' \<and> bucket cfg = ''b'' \<and> path_style cfg"
    by (simp add: target_config_def http_world_def clean_cli_def conn_of_def ok_or_def or_else_def trim_matches_def trim_end_matches_def)
  then obtain cfg where cfg: "target_config (wo_env http_world) (cmd_uri (ci_cmd clean_cli)) (conn_of (wo_env http_world) clean_cli) =
      Inr (cfg, ''t'')" "endpoint cfg = ''https://s3.test''" "bucket cfg = ''b''" "path_style cfg" by blast
  define cl where "cl = \<lparr>cl_cfg = cfg, cl_scheme = ''https'', cl_host = ''s3.test''\<rparr>"
  define od where "od = \<lparr>op_store = client_store mem_backend http_wire cl, op_client = cl, op_label = store_label cfg\<rparr>"
  have "split_scheme ''https://s3.test'' = Some (''https'', ''s3.test'')" "trim_end_matches slash ''s3.test'' = ''s3.test''"
    by code_simp+
  then have o: "store_s3 (wo_s3 http_world) (wo_http http_world) (wo_wire http_world) cfg = Inr od"
    by (simp add: store_s3_def http_world_def admin_new_def cfg(2) ok_or_def map_err_def od_def cl_def client_store_def)
  have b: "ho_blake3 (wo_host http_world bin) = digest" "wo_codec http_world = full_codec" for bin
    by (simp_all add: http_world_def mem_host_def)
  have "at_bucket cl" by (simp add: at_bucket_def cl_def cfg bucket_path_def)
  then have "world_ok http_world od mem_view (\<lambda>_ _ _ _. 0) me_fed me_applied sample_orig sample_guid (ci_zfs clean_cli)"
    using http_service [of cl sample_answers] http_receiver [of cl sample_answers] full_codec_ok(1) sample_names sample_sends
    by (simp add: world_ok_def od_def http_world_def client_store_def)
  moreover have "healthy full_codec digest sample_orig ''t'' (mem_view (ext (snd first_run)))" using first_backup by blast
  ultimately show ?thesis
    using every_run_keeps_healthy [OF cfg(1) o, of mem_view "\<lambda>_ _ _ _. 0" me_fed me_applied sample_orig sample_guid "snd first_run",
        OF _ _ prod.collapse [symmetric]]
    by (simp add: b)
qed

text \<open>
  Sizes that do not parse or are out of bounds, and a retention run without a policy, are refused before the target is
  even opened; so is a target that cannot be opened.
\<close>

lemma refused_before_opening:
  "ci_cmd c = CmdSend snap uri f full n ad lo hi par \<Longrightarrow>
     bind_result (send_args_of snap f full n ad lo hi par) check_args = Inl e \<Longrightarrow> run_cli wo c s = (Inl e, s)"
  "ci_cmd c = CmdRetention uri older keep only dry \<Longrightarrow> policy_given older keep = Inl e \<Longrightarrow> run_cli wo c s = (Inl e, s)"
  by (auto simp: run_cli_def Let_def bind_io_def lift_result_def result_simps split: sum.splits)

end
