(* ===== verification/Stream_Sink.thy ===== *)
theory Stream_Sink
  imports Stream_Synth
begin

text \<open>
  \<open>Builder::stream_to\<close> of \<open>src/stream.rs\<close>: the stream of \<open>Builder::stream\<close>, written record by record to a sink
  that may fail. \<open>None\<close> is a panic of the builder. On a sink that takes everything it writes the same bytes.
\<close>

text \<open>\<open>flush\<close>: what the builder holds goes to the sink; \<open>total\<close> counts it.\<close>

definition flush_builder ::
  "(bytes \<Rightarrow> ('w, 'e, unit) io) \<Rightarrow> builder \<Rightarrow> u64 \<Rightarrow> ('w, 'e, builder \<times> u64) io" where
  "flush_builder wr b tot =
     bind_io (wr (bld_out b)) (\<lambda>_. ret (b\<lparr>bld_out := []\<rparr>, tot + of_nat (length (bld_out b))))"

function write_records_to ::
  "(bytes \<Rightarrow> ('w, 'e, unit) io) \<Rightarrow> nat \<Rightarrow> nat \<Rightarrow> bytes \<Rightarrow> u64 \<Rightarrow> builder \<Rightarrow> u64 \<Rightarrow> 'w
     \<Rightarrow> (('e + builder \<times> u64) \<times> 'w) option" where
  "write_records_to wr left record rbuf x b tot w =
     (if left = 0 then Some (Inr (b, tot), w)
      else
        (let n = min left record - min left record mod 4
         in if n = 0 then Some (Inr (b, tot), w)
            else
              (case fill_random x (take n rbuf) of (filled, x') \<Rightarrow>
                 (case builder_write filled b of
                    None \<Rightarrow> None
                  | Some b1 \<Rightarrow>
                      (case flush_builder wr b1 tot w of
                         (Inl e, w1) \<Rightarrow> Some (Inl e, w1)
                       | (Inr (b2, total2), w1) \<Rightarrow>
                           write_records_to wr (left - n) record (filled @ drop n rbuf) x' b2 total2 w1)))))"
  by pat_completeness auto
termination
  by (relation "measure (\<lambda>(wr, l, _). l)") auto

declare write_records_to.simps [simp del]

definition stream_to ::
  "(bytes \<Rightarrow> ('w, 'e, unit) io) \<Rightarrow> ('w, 'e, unit) io \<Rightarrow> u64 \<Rightarrow> u64 \<Rightarrow> u64 \<Rightarrow> string \<Rightarrow> nat \<Rightarrow> nat \<Rightarrow> u64 \<Rightarrow> 'w
     \<Rightarrow> (('e + u64) \<times> 'w) option" where
  "stream_to wr fl to from features name n record seed w =
     (case builder_begin to from features name builder_new of
        None \<Rightarrow> None
      | Some b \<Rightarrow>
          (case flush_builder wr b 0 w of
             (Inl e, w1) \<Rightarrow> Some (Inl e, w1)
           | (Inr (b1, t1), w1) \<Rightarrow>
               (case write_records_to wr n record (replicate record 0) (seed * 0x9E3779B97F4A7C15 OR 1) b1 t1 w1 of
                  None \<Rightarrow> None
                | Some (Inl e, w2) \<Rightarrow> Some (Inl e, w2)
                | Some (Inr (b2, t2), w2) \<Rightarrow>
                    Some (bind_io (flush_builder wr (builder_end to (builder_free b2)) t2)
                      (\<lambda>(_, t3). bind_io fl (\<lambda>_. ret t3)) w2))))"

section \<open>The same stream\<close>

text \<open>A builder that already has \<open>w\<close> behind it.\<close>

definition onto :: "bytes \<Rightarrow> builder \<Rightarrow> builder" where
  "onto w b = b\<lparr>bld_out := w @ bld_out b\<rparr>"

lemma onto_simps [simp]:
  "bld_out (onto w b) = w @ bld_out b" "bld_cksum (onto w b) = bld_cksum b" "onto w (b\<lparr>bld_out := []\<rparr>) = b\<lparr>bld_out := w\<rparr>"
  by (simp_all add: onto_def)

lemma onto_record: "builder_record hdr p (onto w b) = onto w (builder_record hdr p b)"
  by (simp add: builder_record_def Let_def onto_def)

lemma onto_builder:
  "builder_write d (onto w b) = map_option (onto w) (builder_write d b)"
  "builder_end to (builder_free (onto w b)) = onto w (builder_end to (builder_free b))"
  by (simp_all add: builder_write_def builder_free_def builder_end_def Let_def onto_record)

text \<open>The sink that keeps everything.\<close>

abbreviation keep_all :: "bytes \<Rightarrow> (bytes, 'e, unit) io" where
  "keep_all \<equiv> \<lambda>d w. (Inr (), w @ d)"

lemma flush_keep_all:
  "flush_builder keep_all b (of_nat (length w)) w =
    (Inr (b\<lparr>bld_out := []\<rparr>, of_nat (length (w @ bld_out b))), w @ bld_out b)"
  by (simp add: flush_builder_def bind_io_def ret_def)

lemma write_records_kept:
  "bld_out b = [] \<Longrightarrow>
   (write_records_to keep_all left record rbuf x b (of_nat (length w)) w :: (('e + builder \<times> u64) \<times> bytes) option) =
     map_option (\<lambda>b'. (Inr (b'\<lparr>bld_out := []\<rparr>, of_nat (length (bld_out b'))), bld_out b'))
       (write_records left record rbuf x (onto w b))"
proof (induction left arbitrary: rbuf x b w rule: less_induct)
  case (less left)
  define n where "n = min left record - min left record mod 4"
  obtain filled x' where f: "fill_random x (take n rbuf) = (filled, x')" by fastforce
  have b: "b\<lparr>bld_out := []\<rparr> = b" using less.prems by simp
  show ?case
  proof (cases "left = 0 \<or> n = 0")
    case True
    then show ?thesis
      using less.prems b
      by (auto simp: write_records_to.simps [of _ left] write_records.simps [of left] n_def [symmetric] Let_def onto_def)
  next
    case False
    show ?thesis
    proof (cases "builder_write filled b")
      case None
      with False f show ?thesis
        by (simp add: write_records_to.simps [of _ left] write_records.simps [of left] n_def [symmetric] Let_def onto_builder)
    next
      case (Some b1)
      have "left - n < left" using False by simp
      from less.IH [OF this, of "b1\<lparr>bld_out := []\<rparr>" "filled @ drop n rbuf" x' "w @ bld_out b1"]
      have "(write_records_to keep_all (left - n) record (filled @ drop n rbuf) x' (b1\<lparr>bld_out := []\<rparr>)
          (of_nat (length (w @ bld_out b1))) (w @ bld_out b1) :: (('e + builder \<times> u64) \<times> bytes) option) =
        map_option (\<lambda>b'. (Inr (b'\<lparr>bld_out := []\<rparr>, of_nat (length (bld_out b'))), bld_out b'))
          (write_records (left - n) record (filled @ drop n rbuf) x' (onto w b1))" by (simp add: onto_def)
      with False f Some show ?thesis
        by (simp add: write_records_to.simps [of _ left] write_records.simps [of left] n_def [symmetric] Let_def
            onto_builder flush_keep_all del: of_nat_add length_append)
    qed
  qed
qed

lemma stream_to_same:
  "(stream_to keep_all (ret ()) to from features name n record seed [] :: (('e + u64) \<times> bytes) option) =
     map_option (\<lambda>bs. (Inr (of_nat (length bs)), bs)) (synth_stream to from features name n record seed)"
proof (cases "builder_begin to from features name builder_new")
  case None
  then show ?thesis by (simp add: stream_to_def synth_stream_def)
next
  case (Some b)
  let ?w = "bld_out b" and ?x = "seed * 0x9E3779B97F4A7C15 OR 1"
  have fl: "(flush_builder keep_all b 0 [] :: ('e + builder \<times> u64) \<times> bytes) = (Inr (b\<lparr>bld_out := []\<rparr>, of_nat (length ?w)), ?w)"
    using flush_keep_all [of b "[]"] by simp
  have k: "(write_records_to keep_all n record (replicate record 0) ?x (b\<lparr>bld_out := []\<rparr>) (of_nat (length ?w)) ?w
        :: (('e + builder \<times> u64) \<times> bytes) option) =
      map_option (\<lambda>b'. (Inr (b'\<lparr>bld_out := []\<rparr>, of_nat (length (bld_out b'))), bld_out b'))
        (write_records n record (replicate record 0) ?x b)"
    using write_records_kept [of "b\<lparr>bld_out := []\<rparr>" n "record" "replicate record 0" "?x" "?w"] by simp
  show ?thesis
  proof (cases "write_records n record (replicate record 0) ?x b")
    case None
    with Some fl k show ?thesis by (simp add: stream_to_def synth_stream_def)
  next
    case (Some b2)
    have "onto (bld_out b2) (b2\<lparr>bld_out := []\<rparr>) = b2" by simp
    then have "builder_end to (builder_free b2) = onto (bld_out b2) (builder_end to (builder_free (b2\<lparr>bld_out := []\<rparr>)))"
      by (metis onto_builder(2))
    then have e: "bld_out (builder_end to (builder_free b2)) =
        bld_out b2 @ bld_out (builder_end to (builder_free (b2\<lparr>bld_out := []\<rparr>)))" by simp
    from \<open>builder_begin to from features name builder_new = Some b\<close> fl k Some e show ?thesis
      by (simp add: stream_to_def synth_stream_def bind_io_def [of "flush_builder _ _ _"] flush_keep_all)
        (simp add: bind_io_def ret_def)
  qed
qed

end
