(* ===== verification/Spec2Isabelle.thy ===== *)
theory Spec2Isabelle
  imports Stream_Properties Format_Properties Restore_Properties Reclaim_Properties Send_Properties
    Lifecycle_Properties Admin_Properties Cli_Properties Stream_Sink
begin

text \<open>
  A model of zfsbackup-rs, which archives \<open>zfs send\<close> streams in an S3 bucket: \<open>send\<close> cuts a stream
  into chunk objects and commits a manifest, \<open>receive\<close> feeds the chunks of a chain of
  snapshots to \<open>zfs receive\<close>, \<open>verify\<close>, \<open>list\<close> and \<open>pin\<close> read the bucket, \<open>retention\<close> and
  \<open>clean\<close> delete from it.

  \<^bold>\<open>Conventions\<close> (theory \<open>Prelude\<close>). A fallible function returns a sum, \<open>Inl\<close> the error. What
  acts on the outside is a function from a state to the result and the state it leaves, on the error
  path too, composed with \<open>bind_io\<close>, \<open>try_io\<close>, \<open>for_each\<close> and \<open>map_io\<close> as the code composes
  its calls. \<open>u32\<close> and \<open>u64\<close> are words; times are integers, in nanoseconds; strings are
  lists of bytes (\<open>Rust_Str\<close> models the string functions the code calls).

  \<^bold>\<open>The stream\<close> (\<open>src/stream.rs\<close>, \<open>src/fletcher.rs\<close>). \<open>Fletcher\<close> is the checksum over words,
  \<open>Stream_Parser\<close> the incremental parser: \<open>parser\<close> is \<open>StreamParser\<close>, \<open>feed\<close>, \<open>parse_record\<close>
  and \<open>parser_finish\<close> are its methods, a record's handling being split into one definition per
  step of \<open>record\<close>. \<open>feed\<close> consumes input in every round, which is its termination proof. \<open>Stream_Laws\<close> shows that the
  parser is independent of the slicing of its input, counts every byte and notices changed
  payload words; \<open>Stream_Synth\<close> models the builder of synthetic streams and proves the round trip, \<open>Stream_Sink\<close>
  its variant that writes to a sink, which writes the same stream.

  \<^bold>\<open>The formats\<close> (\<open>src/types.rs\<close>, \<open>src/manifest.rs\<close>, \<open>src/zfs.rs\<close>). \<open>Guid_Types\<close>, \<open>Manifests\<close>
  and \<open>Zfs_Cli\<close> hold the records, the keys of the bucket and the commands of \<open>zfs\<close> with the
  parsing of their output. The JSON codec and the \<open>zfs\<close> executable are parameters.

  \<^bold>\<open>The store\<close> (\<open>src/store/mod.rs\<close>). \<open>Object_Store\<close> has the operations of \<open>Store\<close> over a record
  of the calls of the \<open>object_store\<close> crate. What that crate and the service promise is the
  locale \<open>s3_backend\<close>: a write that succeeds has happened, one that fails has happened or not, reads
  and listings are those of the current objects. The contract the commands rely on is the
  locale \<open>object_bucket\<close>; the sublocale of \<open>s3_store\<close> shows that the store provides it. \<open>Mem_Bucket\<close>
  is a bucket in memory with injected faults, on which the interfaces are interpreted.

  \<^bold>\<open>The administration of the bucket\<close> (\<open>src/store/admin.rs\<close>). \<open>S3_Request\<close> has the requests with their
  signature (\<open>call_body\<close>, one definition per part of it), \<open>Admin_Client\<close> the operations of \<open>Admin\<close> over them,
  \<open>Bucket_Check\<close> the report of \<open>validate\<close> and the command \<open>check\<close>. The HTTP client, the clock, random names,
  digests and checksums are the record \<open>wire\<close>. A listing asks for pages as long as the service says there are more: it is a partial
  function, \<open>None\<close> when it does not return; \<open>served\<close> describes the services on which it does.
  \<open>Admin_Laws\<close> has the request as the service reads it, \<open>Listing_Laws\<close> the pages of a listing as text and what is read from
  them, \<open>Check_Laws\<close> what a good report means and, in the locales \<open>request_invariant\<close> and \<open>s3_service\<close>, that a check
  changes nothing but its probe objects; \<open>Checking\<close> has the locale \<open>working_service\<close>, on which a check succeeds, and the
  service in memory that interprets all three.

  \<^bold>\<open>The commands\<close> (\<open>src/cmd/\<close>). \<open>Targets\<close> has what they share (manifest listing, pick by name, pins,
  retries) and the notions of a sound bucket and of the stream a manifest stands for. \<open>Receive\<close> has
  the chain of a snapshot, the prefetch window and the restore, in the locale \<open>receiver\<close> with what the child
  process does; \<open>Send\<close> models \<open>src/cmd/send.rs\<close> with one definition per step of
  \<open>send_stream\<close> (marker and lease, chunk loop, uploads in flight, conclusion) and of \<open>run\<close>; \<open>Send_Laws\<close> shows what the
  uploads leave behind however they end and \<open>Send_Run\<close> that the command keeps a bucket \<open>healthy\<close>:
  every manifest is filed under its GUIDs and stands for a whole stream, and the chunks beside a resume
  marker are slices of the stream that the marker names. \<open>Inspect\<close> has \<open>verify\<close>, \<open>pin\<close> and \<open>list\<close>; \<open>Retention\<close> and \<open>Clean\<close> the commands that
  delete. A command's definition takes the machine (\<open>host\<close>: clock, processes, hashes), the target
  and the decoders as arguments; concurrency within a command is reduced to what can be observed: \<open>manifests\<close>
  takes the order in which its downloads complete, the restore takes which downloads were
  ready when the writer asked for them, \<open>send\<close> the order in which uploads complete.

  \<^bold>\<open>The whole\<close>. \<open>Lifecycle\<close> has the step relation \<open>command\<close>, whose steps are whole runs of the commands by
  any machine, ended in any way, and what a restore gives after any number of them. Commands that run at the same
  time on the same snapshot are kept apart in the code by the lease; the steps are atomic here. \<open>Working\<close> states in the
  locales \<open>working_store\<close>, \<open>working\<close> and \<open>restoring\<close> what a machine without faults does and shows that \<open>send\<close> and \<open>receive\<close>
  succeed there; \<open>Sample_Sends\<close> is such a machine with two snapshots, for the witnesses.
  \<open>Command_Line\<close> models \<open>src/main.rs\<close> and \<open>Store::s3\<close>: \<open>run_cli\<close> opens the target that the arguments name and
  dispatches to the command, with all that is outside of the program in the record \<open>world\<close>; every run of it is a step of
  \<open>command\<close> or changes nothing.

  \<^bold>\<open>The properties\<close>, numbered C1 and so on, are in \<open>Stream_Properties\<close>, \<open>Format_Properties\<close>,
  \<open>Restore_Properties\<close>, \<open>Reclaim_Properties\<close>, \<open>Send_Properties\<close>, \<open>Lifecycle_Properties\<close>,
  \<open>Admin_Properties\<close> and \<open>Cli_Properties\<close>. Those about a command that changes the bucket hold for every outcome of
  every call it makes, so for interruptions at any point. Each property with a hypothesis has a witness,
  which runs the definitions on the bucket in memory or on a concrete input.

  \<^bold>\<open>Bounds\<close>. No fuel is used: every loop of the code but that over the pages of a listing terminates by a measure (the input
  left, the snapshots not seen, the retries left, what the pipe still holds, the uploads in flight). A stream of
  \<open>send\<close> has at most \<open>2 ^ 32\<close> chunks, the range of their numbers.

  \<^bold>\<open>The service\<close>. The bucket of the contracts has one version per object, as S3 has without versioning; on a versioned
  bucket a deletion may bring an older version back, which the contract \<open>sender\<close> excludes. Prefixes are such that \<open>object_store\<close> does not
  encode their keys (\<open>clean_path\<close>).

  \<^bold>\<open>Not modelled\<close>: the parsing of the command line (\<open>clap\<close>), the JSON codec (\<open>serde_json\<close>) and the crates of the
  network, which are parameters; the spawning of processes and the draining of their pipes, which is
  operating system work; the handler of signals, whose effect is that of a failing call; logging, progress output and
  the fixed text of listings.
\<close>

end
